(* ===== verification/Prelude.thy ===== *)
theory Prelude
  imports Main
begin

text \<open>
  Shared vocabulary of the development: how an operation of the C++ code fails
  (\<open>exn\<close>, \<open>ub\<close>, \<open>failure\<close>), the result type of operations that can fail (\<open>res\<close>),
  iterator positions in a byte vector (\<open>std_find\<close>), and the list lemmas that the
  components share.
\<close>

named_theorems res_simps "evaluation of results that may fail"
named_theorems frame_simps "positions of bytes in a buffer"

section \<open>Failures\<close>

text \<open>
  The two enumerations of \<^verbatim>\<open>src/src/popl.hpp\<close> that an exception of type
  \<^verbatim>\<open>popl::invalid_option\<close> carries.
\<close>

datatype OptionName = unspecified | short_name | long_name

datatype invalid_option_error =
    missing_argument
  | invalid_argument
  | too_many_arguments
  | missing_option

text \<open>
  Exceptions. \<open>Invalid_option\<close> is \<^verbatim>\<open>popl::invalid_option\<close> (the option's short and long
  name stand for the pointer to it); \<open>Invalid_argument\<close>, \<open>Out_of_range\<close> and
  \<open>Runtime_error\<close> are the classes of the standard library the sources throw;
  \<open>Library_error\<close> is any other class derived from \<^verbatim>\<open>std::exception\<close> (of the json, logging,
  networking or file-system library), known by its \<^verbatim>\<open>what()\<close>; \<open>Foreign\<close> is an exception
  that is not derived from \<^verbatim>\<open>std::exception\<close>.
\<close>

datatype exn =
    Invalid_option "string \<times> string" invalid_option_error OptionName string string
  | Invalid_argument string
  | Out_of_range string
  | Runtime_error string
  | Library_error string
  | Foreign

text \<open>\<open>what e\<close> is \<^verbatim>\<open>e.what()\<close>, where \<open>e\<close> is derived from \<^verbatim>\<open>std::exception\<close>.\<close>

fun what :: "exn \<Rightarrow> string option" where
  "what (Invalid_option opt err nm val txt) = Some txt"
| "what (Invalid_argument txt) = Some txt"
| "what (Out_of_range txt) = Some txt"
| "what (Runtime_error txt) = Some txt"
| "what (Library_error txt) = Some txt"
| "what Foreign = None"

text \<open>
  Undefined behaviour of the language that an operation of the sources can run into: the
  conversion of a floating-point value that does not fit the integer type, the overflow of a
  signed integer, and the access through a null pointer.
\<close>

datatype ub = Float_to_int_overflow | Signed_overflow | Null_dereference

text \<open>\<open>Terminated\<close>: \<^verbatim>\<open>std::terminate\<close> has been called, as by the destructor of a joinable thread.\<close>

datatype failure = Raise exn | Undef ub | Terminated

type_synonym 'a res = "failure + 'a"

definition res_bind :: "'a res \<Rightarrow> ('a \<Rightarrow> 'b res) \<Rightarrow> 'b res" where
  "res_bind r f = (case r of Inl e \<Rightarrow> Inl e | Inr x \<Rightarrow> f x)"

lemma res_bind_simps [simp, res_simps]:
  "res_bind (Inl e) f = Inl e"
  "res_bind (Inr x) f = f x"
  by (simp_all add: res_bind_def)

lemma res_bind_Inr [res_simps]:
  "res_bind r f = Inr y \<longleftrightarrow> (\<exists>x. r = Inr x \<and> f x = Inr y)"
  by (cases r) auto

lemma res_bind_Inl [res_simps]:
  "res_bind r f = Inl e \<longleftrightarrow> r = Inl e \<or> (\<exists>x. r = Inr x \<and> f x = Inl e)"
  by (cases r) auto

definition is_ok :: "'a res \<Rightarrow> bool" where
  "is_ok r = (case r of Inl _ \<Rightarrow> False | Inr _ \<Rightarrow> True)"

lemma is_ok_simps [simp, res_simps]: "is_ok (Inr x)" "\<not> is_ok (Inl e)"
  by (simp_all add: is_ok_def)

lemma is_ok_iff: "is_ok r \<longleftrightarrow> (\<exists>x. r = Inr x)"
  by (cases r) auto

section \<open>Positions in a byte vector\<close>

text \<open>
  \<open>std_find c xs i\<close> is the position of the iterator that
  \<^verbatim>\<open>std::find(xs.begin() + i, xs.end(), c)\<close> returns; \<open>length xs\<close> stands for \<^verbatim>\<open>xs.end()\<close>.
\<close>

definition std_find :: "'a \<Rightarrow> 'a list \<Rightarrow> nat \<Rightarrow> nat" where
  "std_find c xs i = i + length (takeWhile (\<lambda>x. x \<noteq> c) (drop i xs))"

lemma takeWhile_neq_append:
  "c \<notin> set xs \<Longrightarrow> takeWhile (\<lambda>x. x \<noteq> c) (xs @ c # ys) = xs"
  by (induction xs) auto

lemma takeWhile_neq_all: "c \<notin> set xs \<Longrightarrow> takeWhile (\<lambda>x. x \<noteq> c) xs = xs"
  by (induction xs) auto

lemma std_find_hit [frame_simps]:
  "c \<notin> set ys \<Longrightarrow> length xs = i \<Longrightarrow> std_find c (xs @ ys @ c # zs) i = i + length ys"
  by (simp add: std_find_def takeWhile_neq_append)

lemma std_find_hit0 [frame_simps]:
  "c \<notin> set ys \<Longrightarrow> std_find c (ys @ c # zs) 0 = length ys"
  by (simp add: std_find_def takeWhile_neq_append)

lemma std_find_miss [frame_simps]:
  "c \<notin> set (drop i xs) \<Longrightarrow> i \<le> length xs \<Longrightarrow> std_find c xs i = length xs"
  by (simp add: std_find_def takeWhile_neq_all)

lemma std_find_le: "i \<le> length xs \<Longrightarrow> std_find c xs i \<le> length xs"
  using length_takeWhile_le [of "\<lambda>x. x \<noteq> c" "drop i xs"] by (simp add: std_find_def)

lemma split_first:
  assumes "c \<in> set xs"
  obtains ys zs where "xs = ys @ c # zs" and "c \<notin> set ys"
  using assms by (meson split_list_first)

lemma split_first_unique:
  assumes "xs @ c # ys = us @ c # vs" and "c \<notin> set xs" and "c \<notin> set us"
  shows "xs = us \<and> ys = vs"
proof -
  have "takeWhile (\<lambda>x. x \<noteq> c) (xs @ c # ys) = xs"
    using assms(2) by (rule takeWhile_neq_append)
  moreover have "takeWhile (\<lambda>x. x \<noteq> c) (us @ c # vs) = us"
    using assms(3) by (rule takeWhile_neq_append)
  ultimately show ?thesis using assms(1) by simp
qed

section \<open>Shared list lemmas\<close>

lemma list_all_filter_id: "list_all P xs \<Longrightarrow> filter P xs = xs"
  by (induction xs) auto

end
