(* ===== verification/Cxx_Text.thy ===== *)
theory Cxx_Text
  imports Prelude
begin

text \<open>
  The text functions of the C and C++ standard library that the sources call, in the "C"
  locale: character classes, \<^verbatim>\<open>std::to_string\<close>, and \<^verbatim>\<open>std::stoi\<close>. A \<^verbatim>\<open>std::string\<close> is a \<open>string\<close>, one \<open>char\<close> per byte.
\<close>

section \<open>Characters\<close>

definition code :: "char \<Rightarrow> nat" where
  "code c = of_char c"

definition isspace :: "char \<Rightarrow> bool" where
  "isspace c = (code c = 32 \<or> (9 \<le> code c \<and> code c \<le> 13))"

definition isdigit :: "char \<Rightarrow> bool" where
  "isdigit c = (48 \<le> code c \<and> code c \<le> 57)"

definition digit_val :: "char \<Rightarrow> int" where
  "digit_val c = int (code c) - 48"

definition digit_char :: "int \<Rightarrow> char" where
  "digit_char d = char_of (48 + nat d)"

definition tolower :: "char \<Rightarrow> char" where
  "tolower c = (if 65 \<le> code c \<and> code c \<le> 90 then char_of (code c + 32) else c)"

definition newline :: char where
  "newline = char_of (10::nat)"

lemma code_digit_char: "0 \<le> d \<Longrightarrow> d < 10 \<Longrightarrow> code (digit_char d) = 48 + nat d"
  by (simp add: code_def digit_char_def)

lemma digit_char_props:
  assumes "0 \<le> d" and "d < 10"
  shows "isdigit (digit_char d)" "digit_val (digit_char d) = d" "\<not> isspace (digit_char d)"
    "digit_char d \<noteq> CHR ''-''" "digit_char d \<noteq> CHR ''+''"
proof -
  have c: "code (digit_char d) = 48 + nat d" using assms by (rule code_digit_char)
  show "isdigit (digit_char d)" "digit_val (digit_char d) = d" "\<not> isspace (digit_char d)"
    using assms c by (simp_all add: isdigit_def digit_val_def isspace_def)
  show "digit_char d \<noteq> CHR ''-''" "digit_char d \<noteq> CHR ''+''"
    using c by (auto simp: code_def)
qed

section \<open>Decimal numerals\<close>

text \<open>
  \<open>dec_val ds\<close> is the number a sequence of decimal digits denotes, \<open>show_dec n\<close> the shortest
  sequence of digits that denotes \<open>n\<close>. Numbers are \<open>int\<close>, whose arithmetic is binary.
\<close>

fun dec_val_from :: "int \<Rightarrow> string \<Rightarrow> int" where
  "dec_val_from acc [] = acc"
| "dec_val_from acc (c # cs) = dec_val_from (10 * acc + digit_val c) cs"

definition dec_val :: "string \<Rightarrow> int" where
  "dec_val ds = dec_val_from 0 ds"

function show_dec :: "int \<Rightarrow> string" where
  "show_dec n = (if n < 10 then [digit_char n] else show_dec (n div 10) @ [digit_char (n mod 10)])"
  by pat_completeness auto
termination
  by (relation "measure nat") auto

declare show_dec.simps [simp del]

definition show_int :: "int \<Rightarrow> string" where
  "show_int i = (if i < 0 then CHR ''-'' # show_dec (- i) else show_dec i)"

text \<open>\<^verbatim>\<open>std::to_string\<close> of a signed 64-bit integer.\<close>

definition to_string :: "int \<Rightarrow> string" where
  "to_string i = show_int i"

lemma dec_val_from_append:
  "dec_val_from acc (xs @ ys) = dec_val_from (dec_val_from acc xs) ys"
  by (induction xs arbitrary: acc) auto

lemma show_dec_digits: "0 \<le> n \<Longrightarrow> c \<in> set (show_dec n) \<Longrightarrow> isdigit c"
proof (induction n rule: show_dec.induct)
  case (1 n)
  then show ?case
    by (cases "n < 10") (auto simp: show_dec.simps [of n] digit_char_props)
qed

lemma show_dec_nonempty: "show_dec n \<noteq> []"
  by (subst show_dec.simps) simp

lemma dec_val_show_dec: "0 \<le> n \<Longrightarrow> dec_val (show_dec n) = n"
proof (induction n rule: show_dec.induct)
  case (1 n)
  show ?case
  proof (cases "n < 10")
    case True
    then show ?thesis
      using "1.prems" by (simp add: show_dec.simps [of n] dec_val_def digit_char_props)
  next
    case False
    with "1.IH" have "dec_val (show_dec (n div 10)) = n div 10" by simp
    with False show ?thesis
      by (simp add: show_dec.simps [of n] dec_val_def dec_val_from_append digit_char_props)
  qed
qed

section \<open>Integers from text\<close>

text \<open>
  The subject sequence of \<^verbatim>\<open>strtol\<close> in base 10: leading white space, an optional sign, the
  longest run of digits. \<open>None\<close>: no digit, that is, no conversion is performed.
\<close>

definition strtol_parts :: "string \<Rightarrow> (bool \<times> int \<times> string) option" where
  "strtol_parts s =
     (let s1 = dropWhile isspace s;
          neg = (s1 \<noteq> [] \<and> hd s1 = CHR ''-'');
          s2 = (if s1 \<noteq> [] \<and> (hd s1 = CHR ''-'' \<or> hd s1 = CHR ''+'') then tl s1 else s1);
          ds = takeWhile isdigit s2
      in if ds = [] then None else Some (neg, dec_val ds, dropWhile isdigit s2))"

definition signed_by :: "bool \<Rightarrow> int \<Rightarrow> int" where
  "signed_by neg n = (if neg then - n else n)"

definition INT_MIN :: int where "INT_MIN = - (2 ^ 31)"
definition INT_MAX :: int where "INT_MAX = 2 ^ 31 - 1"
definition LONG_MIN :: int where "LONG_MIN = - (2 ^ 63)"
definition LONG_MAX :: int where "LONG_MAX = 2 ^ 63 - 1"

text \<open>
  \<^verbatim>\<open>std::stoi\<close>: \<^verbatim>\<open>std::invalid_argument\<close> when no conversion could be performed,
  \<^verbatim>\<open>std::out_of_range\<close> when the value does not fit an \<^verbatim>\<open>int\<close>; text after the number is
  ignored.
\<close>

definition stoi :: "string \<Rightarrow> int res" where
  "stoi s = (case strtol_parts s of
       None \<Rightarrow> Inl (Raise (Invalid_argument ''stoi''))
     | Some (neg, n, rest) \<Rightarrow>
         (let v = signed_by neg n
          in if INT_MIN \<le> v \<and> v \<le> INT_MAX then Inr v
             else Inl (Raise (Out_of_range ''stoi''))))"

lemma strtol_parts_show_int:
  assumes "rest = [] \<or> \<not> isdigit (hd rest)"
  shows "strtol_parts (show_int i @ rest) = Some (i < 0, \<bar>i\<bar>, rest)"
proof -
  have digits: "takeWhile isdigit (show_dec n @ rest) = show_dec n"
    and after: "dropWhile isdigit (show_dec n @ rest) = rest" if "0 \<le> n" for n
    using assms show_dec_digits [OF that]
    by (cases rest; simp add: takeWhile_append2 dropWhile_append2)+
  have unsigned: "strtol_parts (show_dec n @ rest) = Some (False, n, rest)" if n: "0 \<le> n" for n
  proof -
    obtain c cs where c: "show_dec n = c # cs"
      using show_dec_nonempty by (metis neq_Nil_conv)
    then have "isdigit c" using show_dec_digits [OF n, of c] by simp
    then have d: "\<not> isspace c" "c \<noteq> CHR ''-''" "c \<noteq> CHR ''+''"
      by (auto simp: isdigit_def isspace_def code_def)
    then have "dropWhile isspace (show_dec n @ rest) = show_dec n @ rest" by (simp add: c)
    then show ?thesis
      using d digits [OF n] after [OF n] dec_val_show_dec [OF n]
      by (simp add: strtol_parts_def Let_def c)
  qed
  show ?thesis
  proof (cases "i < 0")
    case True
    then have "show_int i = CHR ''-'' # show_dec (- i)" by (simp add: show_int_def)
    moreover have "\<not> isspace (CHR ''-'')" by (simp add: isspace_def code_def)
    ultimately show ?thesis
      using True by (simp add: strtol_parts_def digits after dec_val_show_dec show_dec_nonempty)
  next
    case False
    then show ?thesis using unsigned [of i] by (simp add: show_int_def)
  qed
qed

text \<open>\<^verbatim>\<open>stoi\<close> reads back what \<^verbatim>\<open>to_string\<close> prints.\<close>

lemma stoi_to_string:
  assumes "INT_MIN \<le> i" and "i \<le> INT_MAX"
  shows "stoi (to_string i) = Inr i"
  using assms strtol_parts_show_int [of "[]" i]
  by (simp add: stoi_def to_string_def signed_by_def Let_def)

lemma stoi_bounds:
  assumes "stoi s = Inr v"
  shows "INT_MIN \<le> v \<and> v \<le> INT_MAX"
  using assms by (auto simp: stoi_def Let_def split: option.splits if_splits)

end
