(* ===== verification/Cxx_Double.thy ===== *)
theory Cxx_Double
  imports Complex_Main Cxx_Text
begin

text \<open>
  The part of IEEE binary64 arithmetic (\<^verbatim>\<open>double\<close>) that the sources use: rounding to nearest
  with ties to even, conversion from an integer and from text (\<^verbatim>\<open>std::stod\<close>),
  multiplication, and truncation to an integer. A finite value is a pair \<open>Fin m e\<close> that stands
  for \<open>m * 2 ^ e\<close>, where \<open>e\<close> may be negative; positive and negative zero are not told apart,
  since no operation of the sources observes the sign of zero.
\<close>

datatype double = Fin int int | Inf bool | NaN

section \<open>Rounding\<close>

function bit_len :: "int \<Rightarrow> int" where
  "bit_len n = (if n \<le> 0 then 0 else 1 + bit_len (n div 2))"
  by pat_completeness auto
termination
  by (relation "measure nat") auto

declare bit_len.simps [simp del]

definition scale_num :: "int \<Rightarrow> int \<Rightarrow> int" where
  "scale_num a e = (if e < 0 then a * 2 ^ nat (- e) else a)"

definition scale_den :: "int \<Rightarrow> int \<Rightarrow> int" where
  "scale_den d e = (if e < 0 then d else d * 2 ^ nat e)"

text \<open>
  The integer nearest to \<open>a / d\<close>, the even one of two that are equally near, for
  \<open>0 \<le> a\<close> and \<open>0 < d\<close>.
\<close>

definition div_even :: "int \<Rightarrow> int \<Rightarrow> int" where
  "div_even a d =
     (let q = a div d; r = a mod d
      in if d < 2 * r \<or> (2 * r = d \<and> odd q) then q + 1 else q)"

text \<open>
  The exponent of the binade of \<open>a / d\<close> when the significand is a 53-bit integer, at least
  the exponent of the subnormal numbers. The bit lengths of \<open>a\<close> and \<open>d\<close> give it up to one.
\<close>

definition round_exp :: "int \<Rightarrow> int \<Rightarrow> int" where
  "round_exp a d =
     (let e = max (- 1074) (bit_len a - bit_len d - 53)
      in if 2 ^ 53 * scale_den d e \<le> scale_num a e then e + 1 else e)"

definition round_ratio :: "bool \<Rightarrow> int \<Rightarrow> int \<Rightarrow> double" where
  "round_ratio neg a d =
     (let e = round_exp a d; m = div_even (scale_num a e) (scale_den d e)
      in if 971 < e \<or> (e = 971 \<and> 2 ^ 53 \<le> m) then Inf neg else Fin (signed_by neg m) e)"

text \<open>
  \<^verbatim>\<open>ERANGE\<close>: the result overflows, or it is subnormal and not exact.
\<close>

definition round_erange :: "int \<Rightarrow> int \<Rightarrow> bool" where
  "round_erange a d =
     (let e = round_exp a d; n = scale_num a e; k = scale_den d e
      in 971 < e \<or> (e = 971 \<and> 2 ^ 53 \<le> div_even n k)
         \<or> (n < 2 ^ 52 * k \<and> n mod k \<noteq> 0))"

section \<open>Operations\<close>

definition double_of_int :: "int \<Rightarrow> double" where
  "double_of_int i = round_ratio (i < 0) \<bar>i\<bar> 1"

fun double_neg :: "double \<Rightarrow> bool" where
  "double_neg (Fin m e) = (m < 0)"
| "double_neg (Inf neg) = neg"
| "double_neg NaN = False"

fun double_mul :: "double \<Rightarrow> double \<Rightarrow> double" where
  "double_mul (Fin m e) (Fin n f) =
     round_ratio (m * n < 0) (scale_num \<bar>m * n\<bar> (- (e + f))) (scale_den 1 (- (e + f)))"
| "double_mul (Fin m e) (Inf neg) = (if m = 0 then NaN else Inf ((m < 0) \<noteq> neg))"
| "double_mul (Inf neg) (Fin m e) = (if m = 0 then NaN else Inf ((m < 0) \<noteq> neg))"
| "double_mul (Inf neg) (Inf neg') = Inf (neg \<noteq> neg')"
| "double_mul _ _ = NaN"

text \<open>
  Conversion to an integer type drops the fraction. \<open>None\<close>: an infinity or a NaN, which have
  no integer part. A result outside the integer type is undefined behaviour
  (\<open>double_to_int\<close>, with the bounds of the type).
\<close>

fun double_trunc :: "double \<Rightarrow> int option" where
  "double_trunc (Fin m e) =
     Some (if e < 0 then sgn m * (\<bar>m\<bar> div 2 ^ nat (- e)) else m * 2 ^ nat e)"
| "double_trunc _ = None"

definition double_to_int :: "int \<Rightarrow> int \<Rightarrow> double \<Rightarrow> int res" where
  "double_to_int lo hi x = (case double_trunc x of
       None \<Rightarrow> Inl (Undef Float_to_int_overflow)
     | Some v \<Rightarrow> if lo \<le> v \<and> v \<le> hi then Inr v else Inl (Undef Float_to_int_overflow))"

section \<open>Text to double\<close>

text \<open>
  \<^verbatim>\<open>strtod\<close>: white space, a sign, then an infinity, a NaN, a hexadecimal or a decimal
  floating constant, the longest match. The result holds the value, whether \<^verbatim>\<open>errno\<close> is
  \<^verbatim>\<open>ERANGE\<close>, and the text after the number; \<open>None\<close>: no conversion.
\<close>

definition ci_prefix :: "string \<Rightarrow> string \<Rightarrow> bool" where
  "ci_prefix p s = (length p \<le> length s \<and> map tolower (take (length p) s) = p)"

definition split_sign :: "string \<Rightarrow> bool \<times> string" where
  "split_sign s = (case s of [] \<Rightarrow> (False, [])
     | c # cs \<Rightarrow> if c = CHR ''-'' then (True, cs) else if c = CHR ''+'' then (False, cs)
                else (False, s))"

definition exp_part :: "char \<Rightarrow> string \<Rightarrow> int \<times> string" where
  "exp_part c s = (case s of [] \<Rightarrow> (0, [])
     | x # xs \<Rightarrow>
         if tolower x = c then
           (let (neg, r) = split_sign xs; ds = takeWhile isdigit r
            in if ds = [] then (0, s) else (signed_by neg (dec_val ds), dropWhile isdigit r))
         else (0, s))"

definition frac_part :: "(char \<Rightarrow> bool) \<Rightarrow> string \<Rightarrow> string \<times> string" where
  "frac_part p s = (case s of [] \<Rightarrow> ([], [])
     | x # xs \<Rightarrow> if x = CHR ''.'' then (takeWhile p xs, dropWhile p xs) else ([], s))"

definition decimal_round :: "bool \<Rightarrow> int \<Rightarrow> int \<Rightarrow> double \<times> bool" where
  "decimal_round neg n ex =
     (let a = (if ex < 0 then n else n * 10 ^ nat ex); d = (if ex < 0 then 10 ^ nat (- ex) else 1)
      in (round_ratio neg a d, round_erange a d))"

definition strtod_decimal :: "bool \<Rightarrow> string \<Rightarrow> (double \<times> bool \<times> string) option" where
  "strtod_decimal neg s =
     (let ip = takeWhile isdigit s; (fp, r) = frac_part isdigit (dropWhile isdigit s)
      in if ip = [] \<and> fp = [] then None
         else let (ex, rest) = exp_part (CHR ''e'') r;
                  (x, erange) = decimal_round neg (dec_val (ip @ fp)) (ex - int (length fp))
              in Some (x, erange, rest))"

definition isxdigit :: "char \<Rightarrow> bool" where
  "isxdigit c = (isdigit c \<or> (97 \<le> code (tolower c) \<and> code (tolower c) \<le> 102))"

definition xdigit_val :: "char \<Rightarrow> int" where
  "xdigit_val c = (if isdigit c then digit_val c else int (code (tolower c)) - 87)"

definition hex_val :: "string \<Rightarrow> int" where
  "hex_val ds = foldl (\<lambda>acc c. 16 * acc + xdigit_val c) 0 ds"

definition strtod_hex :: "bool \<Rightarrow> string \<Rightarrow> (double \<times> bool \<times> string) option" where
  "strtod_hex neg s =
     (let ip = takeWhile isxdigit s; (fp, r) = frac_part isxdigit (dropWhile isxdigit s)
      in if ip = [] \<and> fp = [] then None
         else let (ex, rest) = exp_part (CHR ''p'') r;
                  k = ex - 4 * int (length fp);
                  a = scale_num (hex_val (ip @ fp)) (- k); d = scale_den 1 (- k)
              in Some (round_ratio neg a d, round_erange a d, rest))"

definition nan_rest :: "string \<Rightarrow> string" where
  "nan_rest s = (case s of [] \<Rightarrow> []
     | c # cs \<Rightarrow>
         if c = CHR ''('' then
           (let r = dropWhile (\<lambda>x. isxdigit x \<or> (97 \<le> code (tolower x) \<and> code (tolower x) \<le> 122)
                                  \<or> x = CHR ''_'') cs
            in if r \<noteq> [] \<and> hd r = CHR '')'' then tl r else s)
         else s)"

definition strtod :: "string \<Rightarrow> (double \<times> bool \<times> string) option" where
  "strtod s =
     (let (neg, s1) = split_sign (dropWhile isspace s)
      in if ci_prefix ''infinity'' s1 then Some (Inf neg, False, drop 8 s1)
         else if ci_prefix ''inf'' s1 then Some (Inf neg, False, drop 3 s1)
         else if ci_prefix ''nan'' s1 then Some (NaN, False, nan_rest (drop 3 s1))
         else if ci_prefix ''0x'' s1 \<and> strtod_hex neg (drop 2 s1) \<noteq> None
           then strtod_hex neg (drop 2 s1)
         else strtod_decimal neg s1)"

text \<open>
  \<^verbatim>\<open>std::stod\<close>: \<^verbatim>\<open>std::invalid_argument\<close> when no conversion could be performed,
  \<^verbatim>\<open>std::out_of_range\<close> on \<^verbatim>\<open>ERANGE\<close>; text after the number is ignored.
\<close>

definition stod :: "string \<Rightarrow> double res" where
  "stod s = (case strtod s of
       None \<Rightarrow> Inl (Raise (Invalid_argument ''stod''))
     | Some (x, erange, rest) \<Rightarrow>
         if erange then Inl (Raise (Out_of_range ''stod'')) else Inr x)"

section \<open>Values of finite doubles\<close>

fun double_val :: "double \<Rightarrow> rat option" where
  "double_val (Fin m e) = Some (of_int m * 2 powi e)"
| "double_val _ = None"

lemma double_trunc_bounds:
  "double_to_int lo hi x = Inr v \<Longrightarrow> lo \<le> v \<and> v \<le> hi"
  by (auto simp: double_to_int_def split: option.splits if_splits)

lemma double_to_int_outcomes:
  "(\<exists>v. double_to_int lo hi x = Inr v) \<or> double_to_int lo hi x = Inl (Undef Float_to_int_overflow)"
  by (auto simp: double_to_int_def split: option.splits)

lemma bit_len_nonneg: "0 \<le> bit_len n"
  by (induction n rule: bit_len.induct) (simp add: bit_len.simps)

lemma bit_len_lower: "0 < n \<Longrightarrow> 2 ^ nat (bit_len n - 1) \<le> n"
proof (induction n rule: bit_len.induct)
  case (1 n)
  show ?case
  proof (cases "n div 2 \<le> 0")
    case True
    then show ?thesis using "1.prems" by (simp add: bit_len.simps [of n] bit_len.simps [of "n div 2"] bit_len.simps [of 0])
  next
    case False
    with 1 have IH: "2 ^ nat (bit_len (n div 2) - 1) \<le> n div 2" by simp
    have "1 \<le> bit_len (n div 2)"
      using False bit_len_nonneg [of "n div 2 div 2"] by (simp add: bit_len.simps [of "n div 2"])
    then have "nat (bit_len (n div 2)) = Suc (nat (bit_len (n div 2) - 1))" by simp
    then have "(2::int) ^ nat (bit_len (n div 2)) = 2 * 2 ^ nat (bit_len (n div 2) - 1)" by simp
    also have "\<dots> \<le> n" using IH by linarith
    finally show ?thesis using "1.prems" by (simp add: bit_len.simps [of n])
  qed
qed

lemma bit_len_upper: "n < 2 ^ nat (bit_len n)"
proof (induction n rule: bit_len.induct)
  case (1 n)
  show ?case
  proof (cases "n \<le> 0")
    case True
    then show ?thesis by (simp add: bit_len.simps [of n])
  next
    case False
    with "1.IH" have IH: "n div 2 < 2 ^ nat (bit_len (n div 2))" by simp
    have "nat (1 + bit_len (n div 2)) = Suc (nat (bit_len (n div 2)))"
      using bit_len_nonneg [of "n div 2"] by simp
    then have "(2::int) ^ nat (bit_len n) = 2 * 2 ^ nat (bit_len (n div 2))"
      using False by (simp add: bit_len.simps [of n])
    with IH show ?thesis by linarith
  qed
qed

lemma scaled_value_neg:
  assumes "e \<le> 0"
  shows "of_int m * 2 powi e = (of_int i :: rat) \<longleftrightarrow> m = i * 2 ^ nat (- e)"
proof -
  have p: "(2::rat) powi e = inverse (2 ^ nat (- e))"
    using assms by (cases "e = 0") (simp_all add: power_int_def power_one_over inverse_eq_divide)
  have "of_int m * 2 powi e = (of_int i :: rat) \<longleftrightarrow> (of_int m :: rat) = of_int i * 2 ^ nat (- e)"
    unfolding p by (simp add: field_simps)
  also have "\<dots> \<longleftrightarrow> (of_int m :: rat) = of_int (i * 2 ^ nat (- e))" by simp
  also have "\<dots> \<longleftrightarrow> m = i * 2 ^ nat (- e)" by (rule of_int_eq_iff)
  finally show ?thesis .
qed

lemma scaled_value_pos:
  assumes "0 \<le> e"
  shows "of_int m * 2 powi e = (of_int i :: rat) \<longleftrightarrow> m * 2 ^ nat e = i"
proof -
  have "of_int m * 2 powi e = (of_int (m * 2 ^ nat e) :: rat)"
    using assms by (simp add: power_int_def)
  then show ?thesis by (simp only: of_int_eq_iff)
qed

lemma scaled_value_mult:
  "of_int (m * n) * 2 powi (e + f) = (of_int m * 2 powi e) * (of_int n * 2 powi f :: rat)"
proof -
  have "(2::rat) powi (e + f) = 2 powi e * 2 powi f" by (rule power_int_add) simp
  then show ?thesis by (simp only: of_int_mult mult_ac)
qed

lemma div_even_mult: "0 < d \<Longrightarrow> div_even (k * d) d = k"
  by (simp add: div_even_def)

text \<open>
  An integer of at most 53 bits is represented exactly, however the ratio is written; its
  binade is at most that of \<open>2 ^ 53\<close>.
\<close>

lemma round_exp_exact:
  assumes d: "0 < d" and k: "0 \<le> k" "k \<le> 2 ^ 53"
  shows "round_exp (k * d) d \<le> 0 \<or> (round_exp (k * d) d = 1 \<and> k = 2 ^ 53)"
proof -
  have len: "bit_len (k * d) - bit_len d - 53 \<le> 0"
  proof (rule ccontr)
    assume long: "\<not> bit_len (k * d) - bit_len d - 53 \<le> 0"
    then have "k * d \<noteq> 0" using bit_len_nonneg [of d] by (auto simp: bit_len.simps)
    with d k have "0 < k * d" by simp
    then have "2 ^ nat (bit_len (k * d) - 1) \<le> k * d" by (rule bit_len_lower)
    moreover have "k * d < 2 ^ 53 * 2 ^ nat (bit_len d)"
    proof -
      have "k * d \<le> 2 ^ 53 * d" using d k(2) by (intro mult_right_mono) simp_all
      also have "\<dots> < 2 ^ 53 * 2 ^ nat (bit_len d)" using bit_len_upper [of d] by simp
      finally show ?thesis .
    qed
    moreover have "(2::int) ^ 53 * 2 ^ nat (bit_len d) \<le> 2 ^ nat (bit_len (k * d) - 1)"
    proof -
      have "53 + nat (bit_len d) \<le> nat (bit_len (k * d) - 1)"
        using long bit_len_nonneg [of d] by linarith
      then have "(2::int) ^ (53 + nat (bit_len d)) \<le> 2 ^ nat (bit_len (k * d) - 1)"
        by (rule power_increasing) simp
      then show ?thesis by (simp only: power_add)
    qed
    ultimately show False by linarith
  qed
  define e where "e = max (- 1074) (bit_len (k * d) - bit_len d - 53)"
  have e: "e \<le> 0" using len by (simp add: e_def)
  have r: "round_exp (k * d) d
      = (if 2 ^ 53 * scale_den d e \<le> scale_num (k * d) e then e + 1 else e)"
    by (simp add: round_exp_def e_def Let_def)
  show ?thesis
  proof (cases "2 ^ 53 * scale_den d e \<le> scale_num (k * d) e")
    case False
    then show ?thesis using e r by auto
  next
    case True
    show ?thesis
    proof (cases "e = 0")
      case False
      then show ?thesis using e r by auto
    next
      case zero: True
      with True have "2 ^ 53 * d \<le> k * d" by (simp add: scale_den_def scale_num_def)
      with d have "2 ^ 53 \<le> k" by simp
      with k have "k = 2 ^ 53" by simp
      with r zero True show ?thesis by simp
    qed
  qed
qed

lemma round_ratio_exact:
  assumes d: "0 < d" and k: "0 \<le> k" "k \<le> 2 ^ 53"
  shows "double_val (round_ratio neg (k * d) d) = Some (of_int (signed_by neg k))"
proof -
  define e where "e = round_exp (k * d) d"
  have result: "double_val (round_ratio neg (k * d) d) = Some (of_int (signed_by neg k))"
    if small: "e \<le> 1" and m: "div_even (scale_num (k * d) e) (scale_den d e) = m"
      and val: "of_int m * 2 powi e = (of_int k :: rat)" for m
  proof -
    have "round_ratio neg (k * d) d = Fin (signed_by neg m) e"
      using small m by (simp add: round_ratio_def e_def [symmetric] Let_def)
    then show ?thesis using val by (simp add: signed_by_def)
  qed
  consider "e \<le> 0" | "e = 1" "k = 2 ^ 53"
    using round_exp_exact [OF d k] by (auto simp: e_def)
  then show ?thesis
  proof cases
    case 1
    have "scale_num (k * d) e = (k * 2 ^ nat (- e)) * d" "scale_den d e = d"
      using 1 by (auto simp: scale_num_def scale_den_def)
    then have m: "div_even (scale_num (k * d) e) (scale_den d e) = k * 2 ^ nat (- e)"
      using d by (simp only: div_even_mult)
    have "of_int (k * 2 ^ nat (- e)) * 2 powi e = (of_int k :: rat)"
      using 1 by (subst scaled_value_neg) auto
    then show ?thesis using 1 by (intro result [OF _ m]) linarith
  next
    case 2
    have "scale_num (k * d) e = 2 ^ 52 * (d * 2)" "scale_den d e = d * 2"
      using 2 by (simp_all add: scale_num_def scale_den_def)
    then have m: "div_even (scale_num (k * d) e) (scale_den d e) = 2 ^ 52"
      using d by (simp only: div_even_mult)
    show ?thesis using m 2 by (intro result) simp_all
  qed
qed

lemma double_of_int_exact:
  assumes "\<bar>i\<bar> \<le> 2 ^ 53"
  shows "double_val (double_of_int i) = Some (of_int i)"
  using round_ratio_exact [of 1 "\<bar>i\<bar>" "i < 0"] assms
  by (simp add: double_of_int_def signed_by_def split: if_splits)

text \<open>
  The product of two doubles whose values are integers is exact up to 53 bits, and a double
  whose value is an integer is truncated to that integer.
\<close>

lemma double_mul_exact:
  assumes x: "double_val x = Some (of_int i)" and y: "double_val y = Some (of_int j)"
    and small: "\<bar>i * j\<bar> \<le> 2 ^ 53"
  shows "double_val (double_mul x y) = Some (of_int (i * j))"
proof -
  obtain m e where xe: "x = Fin m e" using x by (cases x) auto
  obtain n f where yf: "y = Fin n f" using y by (cases y) auto
  define k where "k = e + f"
  define d where "d = scale_den 1 (- k)"
  have prod: "of_int (m * n) * 2 powi k = (of_int (i * j) :: rat)"
    using x y unfolding k_def scaled_value_mult by (simp add: xe yf)
  have d: "0 < d" by (simp add: d_def scale_den_def)
  have num: "scale_num \<bar>m * n\<bar> (- k) = \<bar>i * j\<bar> * d"
  proof (cases "0 < k")
    case True
    then have "m * n * 2 ^ nat k = i * j" using prod True by (subst (asm) scaled_value_pos) auto
    then have "\<bar>i * j\<bar> = \<bar>m * n\<bar> * 2 ^ nat k" by (metis abs_mult abs_numeral power_abs)
    then show ?thesis using True by (simp add: scale_num_def scale_den_def d_def)
  next
    case False
    then have "m * n = i * j * 2 ^ nat (- k)" using prod False by (subst (asm) scaled_value_neg) auto
    then have "\<bar>m * n\<bar> = \<bar>i * j\<bar> * 2 ^ nat (- k)" by (metis abs_mult abs_numeral power_abs)
    then show ?thesis using False by (simp add: scale_num_def scale_den_def d_def)
  qed
  have neg: "m * n < 0 \<longleftrightarrow> i * j < 0"
  proof -
    have "(0::rat) < 2 powi k" by simp
    then have "\<not> (2::rat) powi k < 0" "(0::rat) < 2 powi k" by (simp_all only: not_less less_imp_le)
    then have "(of_int (i * j) :: rat) < 0 \<longleftrightarrow> (of_int (m * n) :: rat) < 0"
      unfolding prod [symmetric] by (simp only: mult_less_0_iff) auto
    then show ?thesis by (simp only: of_int_less_0_iff)
  qed
  have "double_mul x y = round_ratio (i * j < 0) (\<bar>i * j\<bar> * d) d"
    by (simp only: xe yf double_mul.simps k_def [symmetric] num neg d_def [symmetric])
  then show ?thesis
    using round_ratio_exact [OF d _ small, of "i * j < 0"] by (simp add: signed_by_def)
qed

lemma double_trunc_exact:
  assumes "double_val x = Some (of_int i)"
  shows "double_trunc x = Some i"
proof -
  obtain m e where xe: "x = Fin m e" using assms by (cases x) auto
  have val: "of_int m * 2 powi e = (of_int i :: rat)" using assms xe by simp
  show ?thesis
  proof (cases "e < 0")
    case True
    then have m: "m = i * 2 ^ nat (- e)" using val by (subst (asm) scaled_value_neg) auto
    have "\<bar>m\<bar> = \<bar>i\<bar> * 2 ^ nat (- e)" by (simp only: m abs_mult abs_numeral power_abs)
    then have "\<bar>m\<bar> div 2 ^ nat (- e) = \<bar>i\<bar>" by simp
    moreover have "sgn m = sgn i" by (simp only: m sgn_mult) simp
    ultimately show ?thesis using True xe by (simp add: sgn_mult_abs)
  next
    case False
    then have "m * 2 ^ nat e = i" using val by (subst (asm) scaled_value_pos) auto
    then show ?thesis using False xe by simp
  qed
qed

lemma double_to_int_exact:
  assumes "double_val x = Some (of_int i)" and "lo \<le> i" and "i \<le> hi"
  shows "double_to_int lo hi x = Inr i"
  using assms double_trunc_exact [OF assms(1)] by (simp add: double_to_int_def)

end
