(* ===== verification/External.thy ===== *)
theory External
  imports Cxx_Double "HOL-Library.Word"
begin

text \<open>
  What the program takes from outside its sources, as parameters of the model:
  \<^item> \<open>json_ops\<close>: the operations of the JSON library and of the formatting library that
    \<^verbatim>\<open>src/src/element.cpp\<close> and \<^verbatim>\<open>src/src/session.cpp\<close> call, over an abstract type of JSON
    values; the predicates \<open>json_kinds\<close> and \<open>fmt_positional\<close> state the documented behaviour
    that properties rely on, as named hypotheses;
  \<^item> \<open>platform\<close>: what the language leaves to the implementation;
  \<^item> \<open>world\<close>: the readings of the system clock.
\<close>

section \<open>JSON and formatting\<close>

record 'j json_ops =
  json_parse :: "string \<Rightarrow> 'j res"
  json_find :: "'j \<Rightarrow> string \<Rightarrow> 'j option"
  json_is_null :: "'j \<Rightarrow> bool"
  json_is_number :: "'j \<Rightarrow> bool"
  json_is_string :: "'j \<Rightarrow> bool"
  json_get_int64 :: "'j \<Rightarrow> int res"
  json_get_string :: "'j \<Rightarrow> string res"
  json_get_double :: "'j \<Rightarrow> double res"
  json_get_int :: "'j \<Rightarrow> int res"
  fmt_format :: "string \<Rightarrow> string list \<Rightarrow> string res"

text \<open>
  A JSON value is of one kind only, and a conversion to a string succeeds exactly for
  strings.
\<close>

definition json_kinds :: "'j json_ops \<Rightarrow> bool" where
  "json_kinds J \<longleftrightarrow>
     (\<forall>v. json_is_number J v \<longrightarrow> \<not> json_is_null J v \<and> \<not> json_is_string J v) \<and>
     (\<forall>v. json_is_string J v \<longrightarrow> \<not> json_is_null J v) \<and>
     (\<forall>v. is_ok (json_get_string J v) \<longleftrightarrow> json_is_string J v)"

text \<open>
  Replacement fields: \<open>{i}\<close> stands for the \<open>i\<close>-th argument and \<open>{}\<close> for the next one; all
  other text is copied. Stated for the two format strings of the sources.
\<close>

definition message_format :: string where
  "message_format = ''[{0}] [{1}:{2}] [{3}:{4}:{5}] {6}''"

definition parse_error_format :: string where
  "parse_error_format = ''Scriptor Json Parse Error: {}''"

definition message_text :: "string list \<Rightarrow> string" where
  "message_text xs =
     ''['' @ xs ! 0 @ ''] ['' @ xs ! 1 @ '':'' @ xs ! 2 @ ''] ['' @ xs ! 3 @ '':'' @ xs ! 4 @
     '':'' @ xs ! 5 @ ''] '' @ xs ! 6"

definition fmt_positional :: "'j json_ops \<Rightarrow> bool" where
  "fmt_positional J \<longleftrightarrow>
     (\<forall>xs. length xs = 7 \<longrightarrow> fmt_format J message_format xs = Inr (message_text xs)) \<and>
     (\<forall>x. fmt_format J parse_error_format [x] = Inr (''Scriptor Json Parse Error: '' @ x))"

section \<open>Platform\<close>

text \<open>
  \<open>ticks_per_us\<close>: clock ticks of \<^verbatim>\<open>std::chrono::system_clock\<close> in a microsecond (1000 where
  the clock counts nanoseconds). \<open>arg_order\<close>: the order in which the compiler evaluates
  the seven string arguments of the message (the language does not fix it).
  \<open>hardware_concurrency\<close>: the result of the function of that name. \<open>overflowed\<close>: what the
  compiled program has in a signed 64-bit integer after a multiplication whose exact result does
  not fit, and \<open>unrepresentable\<close> after the conversion of a \<^verbatim>\<open>double\<close> that does not fit. The language
  leaves both undefined: there is some value, as with a multiplication that wraps around, or the
  program ends there, as with one that traps (\<open>None\<close>). Nothing is assumed of them.
\<close>

record platform =
  ticks_per_us :: int
  arg_order :: "string list"
  hardware_concurrency :: nat
  overflowed :: "int \<Rightarrow> 64 word option"
  unrepresentable :: "double \<Rightarrow> 64 word option"

text \<open>The result of an operation that is undefined.\<close>

definition compiled :: "64 word option \<Rightarrow> ub \<Rightarrow> int res" where
  "compiled r u = (case r of Some v \<Rightarrow> Inr (sint v) | None \<Rightarrow> Inl (Undef u))"

section \<open>Clock\<close>

text \<open>
  \<open>wall w n\<close> is what the \<open>n\<close>-th reading of the clock returns, in ticks; \<open>reads w\<close> counts the
  readings so far.
\<close>

record world =
  wall :: "nat \<Rightarrow> int"
  reads :: nat

definition log_clock_now :: "world \<Rightarrow> int \<times> world" where
  "log_clock_now w = (wall w (reads w), w\<lparr>reads := Suc (reads w)\<rparr>)"

lemma log_clock_now_wall: "wall (snd (log_clock_now w)) = wall w"
  by (simp add: log_clock_now_def)

end
