(* ===== verification/Sample_Json.thy ===== *)
theory Sample_Json
  imports External
begin

text \<open>
  One concrete instance of the parameter \<open>json_ops\<close>, on which the witnesses evaluate: flat
  JSON objects without white space or escapes, whose values are null, strings and numbers, and
  replacement fields with at most one digit. It satisfies the hypotheses on the parameter. The
  development does not claim that the libraries the program links are this instance.
\<close>

datatype jval =
    JNull
  | JInt int
  | JFloat double
  | JStr string
  | JObj "(string \<times> jval) list"

definition quote :: char where
  "quote = char_of (34::nat)"

definition sample_value :: "string \<Rightarrow> (jval \<times> string) option" where
  "sample_value s =
     (if take 4 s = ''null'' then Some (JNull, drop 4 s)
      else if s \<noteq> [] \<and> hd s = quote then
        (let rest = dropWhile (\<lambda>c. c \<noteq> quote) (tl s)
         in if rest = [] then None
            else Some (JStr (takeWhile (\<lambda>c. c \<noteq> quote) (tl s)), tl rest))
      else if s = [] \<or> isspace (hd s) then None
      else case strtol_parts s of
             None \<Rightarrow> None
           | Some (neg, n, r) \<Rightarrow>
               if r \<noteq> [] \<and> hd r = CHR ''.'' then
                 (let (neg', ds) = split_sign s
                  in map_option (\<lambda>(x, erange, r'). (JFloat x, r')) (strtod_decimal neg' ds))
               else Some (JInt (signed_by neg n), r))"

fun sample_members :: "nat \<Rightarrow> string \<Rightarrow> ((string \<times> jval) list \<times> string) option" where
  "sample_members 0 s = None"
| "sample_members (Suc n) s =
     (case sample_value s of
        Some (JStr k, r) \<Rightarrow>
          if r \<noteq> [] \<and> hd r = CHR '':'' then
            (case sample_value (tl r) of
               Some (v, r') \<Rightarrow>
                 if r' \<noteq> [] \<and> hd r' = CHR '','' then
                   map_option (\<lambda>(kvs, r''). ((k, v) # kvs, r'')) (sample_members n (tl r'))
                 else Some ([(k, v)], r')
             | None \<Rightarrow> None)
          else None
      | _ \<Rightarrow> None)"

definition sample_error :: failure where
  "sample_error = Raise (Library_error ''parse error'')"

definition type_error :: failure where
  "type_error = Raise (Library_error ''type error'')"

definition sample_parse :: "string \<Rightarrow> jval res" where
  "sample_parse s =
     (if s = ''{}'' then Inr (JObj [])
      else if s \<noteq> [] \<and> hd s = CHR ''{'' then
        (case sample_members (length s) (tl s) of
           Some (kvs, r) \<Rightarrow> if r = ''}'' then Inr (JObj kvs) else Inl sample_error
         | None \<Rightarrow> Inl sample_error)
      else Inl sample_error)"

fun sample_find :: "jval \<Rightarrow> string \<Rightarrow> jval option" where
  "sample_find (JObj kvs) k = map_of kvs k"
| "sample_find _ k = None"

fun sample_is_null :: "jval \<Rightarrow> bool" where
  "sample_is_null JNull = True"
| "sample_is_null _ = False"

fun sample_is_number :: "jval \<Rightarrow> bool" where
  "sample_is_number (JInt n) = True"
| "sample_is_number (JFloat x) = True"
| "sample_is_number _ = False"

fun sample_is_string :: "jval \<Rightarrow> bool" where
  "sample_is_string (JStr s) = True"
| "sample_is_string _ = False"

fun sample_get_integer :: "int \<Rightarrow> int \<Rightarrow> jval \<Rightarrow> int res" where
  "sample_get_integer lo hi (JInt n) =
     (if lo \<le> n \<and> n \<le> hi then Inr n else Inl type_error)"
| "sample_get_integer lo hi (JFloat x) =
     (case double_to_int lo hi x of Inr n \<Rightarrow> Inr n | Inl f \<Rightarrow> Inr lo)"
| "sample_get_integer lo hi _ = Inl type_error"

fun sample_get_string :: "jval \<Rightarrow> string res" where
  "sample_get_string (JStr s) = Inr s"
| "sample_get_string _ = Inl type_error"

fun sample_get_double :: "jval \<Rightarrow> double res" where
  "sample_get_double (JInt n) = Inr (double_of_int n)"
| "sample_get_double (JFloat x) = Inr x"
| "sample_get_double _ = Inl type_error"

fun sample_fmt :: "string list \<Rightarrow> nat \<Rightarrow> string \<Rightarrow> string" where
  "sample_fmt args n [] = []"
| "sample_fmt args n [c] = [c]"
| "sample_fmt args n [c, d] = (if c = CHR ''{'' \<and> d = CHR ''}'' then args ! n else [c, d])"
| "sample_fmt args n (c # d # e # r) =
     (if c = CHR ''{'' \<and> d = CHR ''}'' then args ! n @ sample_fmt args (Suc n) (e # r)
      else if c = CHR ''{'' \<and> e = CHR ''}'' then
        args ! nat (digit_val d) @ sample_fmt args n r
      else c # sample_fmt args n (d # e # r))"

definition sample_json :: "jval json_ops" where
  "sample_json = \<lparr>json_parse = sample_parse, json_find = sample_find,
     json_is_null = sample_is_null, json_is_number = sample_is_number,
     json_is_string = sample_is_string, json_get_int64 = sample_get_integer LONG_MIN LONG_MAX,
     json_get_string = sample_get_string, json_get_double = sample_get_double,
     json_get_int = sample_get_integer INT_MIN INT_MAX,
     fmt_format = (\<lambda>f args. Inr (sample_fmt args 0 f))\<rparr>"

lemma sample_json_kinds: "json_kinds sample_json"
proof -
  have "sample_is_number v \<longrightarrow> \<not> sample_is_null v \<and> \<not> sample_is_string v"
    and "sample_is_string v \<longrightarrow> \<not> sample_is_null v"
    and "is_ok (sample_get_string v) \<longleftrightarrow> sample_is_string v" for v
    by (cases v; simp)+
  then show ?thesis by (simp add: json_kinds_def sample_json_def)
qed

lemma sample_fmt_positional: "fmt_positional sample_json"
proof -
  have "sample_fmt xs 0 message_format = message_text xs" for xs
    by (simp add: message_format_def message_text_def digit_val_def code_def)
  moreover have "sample_fmt [x] 0 parse_error_format = ''Scriptor Json Parse Error: '' @ x" for x
    by (simp add: parse_error_format_def)
  ultimately show ?thesis by (simp add: fmt_positional_def sample_json_def)
qed

text \<open>Sample texts are written with \<open>!\<close> for the quotation mark.\<close>

definition quoted :: "string \<Rightarrow> string" where
  "quoted s = map (\<lambda>c. if c = CHR ''!'' then quote else c) s"

text \<open>
  A platform whose clock counts nanoseconds, evaluating arguments from left to right; integers
  wrap around, and the conversion of a value that does not fit gives the smallest integer.
\<close>

definition sample_platform :: platform where
  "sample_platform = \<lparr>ticks_per_us = 1000,
     arg_order = [''c'', ''p'', ''t'', ''f'', ''i'', ''n'', ''m''], hardware_concurrency = 4,
     overflowed = (\<lambda>t. Some (of_int t)), unrepresentable = (\<lambda>x. Some (of_int LONG_MIN))\<rparr>"

definition sample_world :: world where
  "sample_world = \<lparr>wall = (\<lambda>n. 100 + int n), reads = 0\<rparr>"

end
