(* ===== verification/Element.thy ===== *)
theory Element
  imports Sample_Json
begin

text \<open>
  \<^verbatim>\<open>src/src/element.h\<close> and \<^verbatim>\<open>src/src/element.cpp\<close>: a log record (\<open>Element\<close>) and its reading
  from the text of one JSON object (\<open>from_json\<close>), with every conversion that can fail.
\<close>

section \<open>Levels and elements\<close>

text \<open>The enumerators of \<^verbatim>\<open>spdlog::level::level_enum\<close> in their order, from 0 to 6.\<close>

datatype level_enum = trace | debug | info | warn | err | critical | off

fun level_num :: "level_enum \<Rightarrow> int" where
  "level_num trace = 0"
| "level_num debug = 1"
| "level_num info = 2"
| "level_num warn = 3"
| "level_num err = 4"
| "level_num critical = 5"
| "level_num off = 6"

definition n_levels :: int where
  "n_levels = 7"

definition level_cast :: "int \<Rightarrow> level_enum" where
  "level_cast n = (if n = 0 then trace else if n = 1 then debug else if n = 2 then info
     else if n = 3 then warn else if n = 4 then err else if n = 5 then critical else off)"

lemma level_num_inject: "level_num a = level_num b \<longleftrightarrow> a = b"
  by (cases a; cases b) simp_all

lemma level_num_range: "0 \<le> level_num l \<and> level_num l < n_levels"
  by (cases l) (simp_all add: n_levels_def)

lemma level_cast_num [simp]: "level_cast (level_num l) = l"
  by (cases l) (simp_all add: level_cast_def)

lemma level_num_cast: "0 \<le> n \<Longrightarrow> n < n_levels \<Longrightarrow> level_num (level_cast n) = n"
  by (auto simp: level_cast_def n_levels_def)

instantiation level_enum :: linorder
begin

definition less_eq_level_enum :: "level_enum \<Rightarrow> level_enum \<Rightarrow> bool" where
  "a \<le> b \<longleftrightarrow> level_num a \<le> level_num b"

definition less_level_enum :: "level_enum \<Rightarrow> level_enum \<Rightarrow> bool" where
  "a < b \<longleftrightarrow> level_num a < level_num b"

instance
  by standard (auto simp: less_eq_level_enum_def less_level_enum_def level_num_inject)

end

text \<open>The time is a count of ticks of the system clock since its epoch.\<close>

record Element =
  elem_time :: int
  elem_level :: level_enum
  elem_message :: string

definition mk_element :: "int \<Rightarrow> level_enum \<Rightarrow> string \<Rightarrow> Element" where
  "mk_element t l m = \<lparr>elem_time = t, elem_level = l, elem_message = m\<rparr>"

lemma mk_element_sel [simp]:
  "elem_time (mk_element t l m) = t"
  "elem_level (mk_element t l m) = l"
  "elem_message (mk_element t l m) = m"
  by (simp_all add: mk_element_def)

definition element_eq :: "Element \<Rightarrow> Element \<Rightarrow> bool" where
  "element_eq x y \<longleftrightarrow> elem_time x = elem_time y \<and> elem_level x = elem_level y
     \<and> elem_message x = elem_message y"

lemma element_eq_iff: "element_eq x y \<longleftrightarrow> x = y"
  by (cases x; cases y) (simp add: element_eq_def)

section \<open>Fields\<close>

text \<open>The lambda \<^verbatim>\<open>find_string\<close>: an absent or null field is empty, a number is its integer part.\<close>

definition find_string :: "'j json_ops \<Rightarrow> 'j \<Rightarrow> string \<Rightarrow> string res" where
  "find_string J data token = (case json_find J data token of
       None \<Rightarrow> Inr []
     | Some v \<Rightarrow>
         if json_is_null J v then Inr []
         else if json_is_number J v then
           res_bind (json_get_int64 J v) (\<lambda>num. Inr (to_string num))
         else json_get_string J v)"

text \<open>
  \<^verbatim>\<open>time_point{duration_cast<microseconds>(duration<double>{value})}\<close>: multiplied by a million
  as a \<^verbatim>\<open>double\<close>, converted to a 64-bit count of microseconds, then to ticks of the clock. What
  becomes of a value that does not fit is up to the platform.
\<close>

definition to_time_point :: "platform \<Rightarrow> double \<Rightarrow> int res" where
  "to_time_point P value =
     (let x = double_mul value (double_of_int 1000000)
      in res_bind
           (case double_to_int LONG_MIN LONG_MAX x of
              Inr us \<Rightarrow> Inr us
            | Inl f \<Rightarrow> compiled (unrepresentable P x) Float_to_int_overflow)
           (\<lambda>us. let t = us * ticks_per_us P
                 in if LONG_MIN \<le> t \<and> t \<le> LONG_MAX then Inr t
                    else compiled (overflowed P t) Signed_overflow))"

definition read_seconds :: "'j json_ops \<Rightarrow> 'j \<Rightarrow> double res" where
  "read_seconds J v =
     (if json_is_string J v then res_bind (json_get_string J v) stod
      else json_get_double J v)"

definition read_time ::
    "'j json_ops \<Rightarrow> platform \<Rightarrow> 'j \<Rightarrow> world \<Rightarrow> int res \<times> world" where
  "read_time J P data w =
     (let now = (let (t, w') = log_clock_now w in (Inr t, w'))
      in case json_find J data ''s'' of
           None \<Rightarrow> now
         | Some v \<Rightarrow>
             if json_is_null J v then now
             else (res_bind (read_seconds J v) (to_time_point P), w))"

definition read_level_num :: "'j json_ops \<Rightarrow> 'j \<Rightarrow> int res" where
  "read_level_num J v =
     (if json_is_string J v then res_bind (json_get_string J v) stoi
      else json_get_int J v)"

definition clamp_level :: "int \<Rightarrow> level_enum" where
  "clamp_level value =
     (if level_num trace \<le> value \<and> value < n_levels then level_cast value else trace)"

definition read_level :: "'j json_ops \<Rightarrow> 'j \<Rightarrow> level_enum res" where
  "read_level J data = (case json_find J data ''l'' of
       None \<Rightarrow> Inr trace
     | Some v \<Rightarrow>
         if json_is_null J v then Inr trace
         else res_bind (read_level_num J v) (\<lambda>value. Inr (clamp_level value)))"

text \<open>
  The seven arguments of the message, in the order of their positions. They are evaluated
  in the order the compiler chooses; the first failure in that order is the failure of the
  call.
\<close>

definition message_tokens :: "string list" where
  "message_tokens = [''c'', ''p'', ''t'', ''f'', ''i'', ''n'', ''m'']"

fun first_failure :: "(string \<Rightarrow> string res) \<Rightarrow> string list \<Rightarrow> failure option" where
  "first_failure f [] = None"
| "first_failure f (t # ts) = (case f t of Inl e \<Rightarrow> Some e | Inr _ \<Rightarrow> first_failure f ts)"

definition read_message :: "'j json_ops \<Rightarrow> platform \<Rightarrow> 'j \<Rightarrow> string res" where
  "read_message J P data =
     (case first_failure (find_string J data) (arg_order P) of
        Some e \<Rightarrow> Inl e
      | None \<Rightarrow> fmt_format J message_format
          (map (\<lambda>t. case find_string J data t of Inr x \<Rightarrow> x | Inl _ \<Rightarrow> []) message_tokens))"

section \<open>from_json\<close>

definition from_json ::
    "'j json_ops \<Rightarrow> platform \<Rightarrow> string \<Rightarrow> world \<Rightarrow> Element res \<times> world" where
  "from_json J P text w =
     (case json_parse J text of
        Inl e \<Rightarrow> (Inl e, w)
      | Inr data \<Rightarrow>
          (let (time, w1) = read_time J P data w
           in (res_bind time (\<lambda>t. res_bind (read_level J data) (\<lambda>l.
                 res_bind (read_message J P data) (\<lambda>m. Inr (mk_element t l m)))), w1)))"

section \<open>Conversions of the fields\<close>

definition valid_platform :: "platform \<Rightarrow> bool" where
  "valid_platform P \<longleftrightarrow> set (arg_order P) = {''c'', ''p'', ''t'', ''f'', ''i'', ''n'', ''m''} \<and> 0 < ticks_per_us P"

lemma first_failure_None_iff:
  "first_failure f ts = None \<longleftrightarrow> (\<forall>t \<in> set ts. is_ok (f t))"
  by (induction ts) (auto split: sum.splits)

lemma first_failure_Some:
  "first_failure f ts = Some e \<Longrightarrow> \<exists>t \<in> set ts. f t = Inl e"
  by (induction ts) (auto split: sum.splits)

text \<open>
  What a field of the message says, as the documentation of the format has it: nothing if it is
  absent or null, the decimal text of a number, or a text.
\<close>

inductive says :: "'j json_ops \<Rightarrow> 'j \<Rightarrow> string \<Rightarrow> string \<Rightarrow> bool" for J data name where
  absent: "json_find J data name = None \<Longrightarrow> says J data name []"
| null: "json_find J data name = Some v \<Longrightarrow> json_is_null J v \<Longrightarrow> says J data name []"
| number: "json_find J data name = Some v \<Longrightarrow> json_is_number J v \<Longrightarrow> json_get_int64 J v = Inr n \<Longrightarrow>
     says J data name (to_string n)"
| words: "json_find J data name = Some v \<Longrightarrow> json_get_string J v = Inr x \<Longrightarrow> says J data name x"

lemma json_kindsD:
  assumes "json_kinds J"
  shows "json_is_number J v \<Longrightarrow> \<not> json_is_null J v \<and> \<not> json_is_string J v"
    and "json_get_string J v = Inr x \<Longrightarrow> json_is_string J v \<and> \<not> json_is_null J v \<and> \<not> json_is_number J v"
  using assms by (metis is_ok_simps(1) json_kinds_def)+

lemma find_string_says: "json_kinds J \<Longrightarrow> find_string J data name = Inr x \<longleftrightarrow> says J data name x"
  by (auto simp: find_string_def says.simps res_bind_Inr json_kindsD split: option.splits)

lemma read_message_says:
  assumes "json_kinds J" and "valid_platform P" and "fmt_positional J"
  shows "read_message J P data = Inr x \<longleftrightarrow>
    (\<exists>c p t f i n m. says J data ''c'' c \<and> says J data ''p'' p \<and> says J data ''t'' t \<and>
       says J data ''f'' f \<and> says J data ''i'' i \<and> says J data ''n'' n \<and> says J data ''m'' m \<and>
       x = ''['' @ c @ ''] ['' @ p @ '':'' @ t @ ''] ['' @ f @ '':'' @ i @ '':'' @ n @ ''] '' @ m)"
proof -
  note says = find_string_says [OF assms(1), of data, symmetric]
  have order: "first_failure (find_string J data) (arg_order P) = None \<longleftrightarrow>
      (\<forall>t \<in> {''c'', ''p'', ''t'', ''f'', ''i'', ''n'', ''m''}. is_ok (find_string J data t))"
    using assms(2) by (simp only: first_failure_None_iff valid_platform_def)
  have formatted: "length xs = 7 \<Longrightarrow> fmt_format J message_format xs = Inr (message_text xs)" for xs
    using assms(3) by (simp add: fmt_positional_def)
  show ?thesis
    unfolding says read_message_def using order
    by (auto simp: formatted message_tokens_def message_text_def is_ok_iff split: option.splits)
qed

lemma read_time_wall: "wall (snd (read_time J P data w)) = wall w"
  by (auto simp: read_time_def log_clock_now_def Let_def split: option.splits)

lemma from_json_ok_unfold:
  "from_json J P text w = (Inr e, w') \<longleftrightarrow>
     (\<exists>data t l m. json_parse J text = Inr data \<and> read_time J P data w = (Inr t, w') \<and>
        read_level J data = Inr l \<and> read_message J P data = Inr m \<and> e = mk_element t l m)"
  by (auto simp: from_json_def res_bind_Inr split: sum.splits prod.splits)

lemma clamp_level_num:
  "level_num (clamp_level n) = (if 0 \<le> n \<and> n < n_levels then n else 0)"
  by (simp add: clamp_level_def level_num_cast)

lemma clamp_level_of_num [simp]: "clamp_level (level_num l) = l"
  using level_num_range [of l] by (simp add: clamp_level_def)

section \<open>Numbers written as text\<close>

lemma digit_tolower: "isdigit c \<Longrightarrow> tolower c = c"
  by (simp add: isdigit_def tolower_def)

lemma ci_prefix_digits:
  assumes "\<And>c. c \<in> set s \<Longrightarrow> isdigit c" and "x \<in> set p" and "\<not> isdigit x"
  shows "\<not> ci_prefix p s"
proof
  assume "ci_prefix p s"
  then have "map tolower (take (length p) s) = p" by (simp add: ci_prefix_def)
  then have "x \<in> set (map tolower (take (length p) s))" using assms(2) by simp
  then obtain c where c: "c \<in> set (take (length p) s)" "x = tolower c" by auto
  then have "isdigit c" using assms(1) by (meson in_set_takeD)
  then show False using c(2) assms(3) by (simp add: digit_tolower)
qed

lemma strtod_show_int:
  "strtod (show_int i) = Some (round_ratio (i < 0) \<bar>i\<bar> 1, round_erange \<bar>i\<bar> 1, [])"
proof -
  define ds where "ds = show_dec \<bar>i\<bar>"
  have digits: "\<And>c. c \<in> set ds \<Longrightarrow> isdigit c"
    using show_dec_digits [of "\<bar>i\<bar>"] by (simp add: ds_def)
  have ne: "ds \<noteq> []" by (simp add: ds_def show_dec_nonempty)
  have sign: "split_sign (dropWhile isspace (show_int i)) = (i < 0, ds)"
  proof (cases "i < 0")
    case True
    then show ?thesis
      by (simp add: show_int_def split_sign_def ds_def isspace_def code_def)
  next
    case False
    obtain c cs where c: "ds = c # cs" using ne by (metis neq_Nil_conv)
    then have "isdigit c" using digits by simp
    then have "\<not> isspace c" "c \<noteq> CHR ''-''" "c \<noteq> CHR ''+''"
      by (auto simp: isdigit_def isspace_def code_def)
    then show ?thesis using False c by (simp add: show_int_def split_sign_def ds_def)
  qed
  have noprefix: "\<not> ci_prefix ''infinity'' ds" "\<not> ci_prefix ''inf'' ds" "\<not> ci_prefix ''nan'' ds"
    "\<not> ci_prefix ''0x'' ds"
    using ci_prefix_digits [of ds, OF digits, where x = "CHR ''i''" and p = "''infinity''"]
      ci_prefix_digits [of ds, OF digits, where x = "CHR ''i''" and p = "''inf''"]
      ci_prefix_digits [of ds, OF digits, where x = "CHR ''n''" and p = "''nan''"]
      ci_prefix_digits [of ds, OF digits, where x = "CHR ''x''" and p = "''0x''"]
    by (simp_all add: isdigit_def code_def)
  have span: "takeWhile isdigit ds = ds" "dropWhile isdigit ds = []"
    using digits by (simp_all add: takeWhile_eq_all_conv dropWhile_eq_Nil_conv)
  have val: "dec_val ds = \<bar>i\<bar>" by (simp add: ds_def dec_val_show_dec)
  have "strtod_decimal (i < 0) ds
      = Some (round_ratio (i < 0) \<bar>i\<bar> 1, round_erange \<bar>i\<bar> 1, [])"
    by (simp add: strtod_decimal_def span val ne frac_part_def exp_part_def decimal_round_def Let_def)
  then show ?thesis using sign noprefix by (simp add: strtod_def)
qed

lemma round_erange_exact:
  assumes "0 \<le> k" "k \<le> 2 ^ 53"
  shows "\<not> round_erange k 1"
proof -
  consider "round_exp k 1 \<le> 0" | "round_exp k 1 = 1" "k = 2 ^ 53"
    using round_exp_exact [of 1 k] assms by auto
  then show ?thesis
    by cases (auto simp: round_erange_def Let_def scale_num_def scale_den_def)
qed

text \<open>\<^verbatim>\<open>stod\<close> reads the decimal text of an integer of at most 53 bits exactly.\<close>

lemma stod_to_string:
  assumes "\<bar>i\<bar> \<le> 2 ^ 53"
  shows "\<exists>x. stod (to_string i) = Inr x \<and> double_val x = Some (of_int i)"
proof -
  have "stod (to_string i) = Inr (round_ratio (i < 0) \<bar>i\<bar> 1)"
    using assms round_erange_exact [of "\<bar>i\<bar>"]
    by (simp add: stod_def to_string_def strtod_show_int)
  then show ?thesis
    using double_of_int_exact [OF assms] by (simp add: double_of_int_def)
qed

section \<open>Time stamps\<close>

text \<open>
  Whole seconds become microseconds exactly as long as the product has 53 bits, that is up
  to 9007199254 seconds from the epoch (in the year 2255).
\<close>

definition max_exact_seconds :: int where
  "max_exact_seconds = 9007199254"

lemma to_time_point_exact:
  assumes val: "double_val x = Some (of_int s)" and s: "\<bar>s\<bar> \<le> max_exact_seconds"
    and fits: "LONG_MIN \<le> s * 1000000 * ticks_per_us P" "s * 1000000 * ticks_per_us P \<le> LONG_MAX"
  shows "to_time_point P x = Inr (s * 1000000 * ticks_per_us P)"
proof -
  have "double_val (double_of_int 1000000) = Some (of_int 1000000)"
    by (rule double_of_int_exact) simp
  then have "double_val (double_mul x (double_of_int 1000000)) = Some (of_int (s * 1000000))"
    using val s by (intro double_mul_exact) (auto simp: abs_mult max_exact_seconds_def)
  then have "double_to_int LONG_MIN LONG_MAX (double_mul x (double_of_int 1000000))
      = Inr (s * 1000000)"
    using s by (intro double_to_int_exact)
      (auto simp: LONG_MIN_def LONG_MAX_def max_exact_seconds_def)
  then show ?thesis using fits by (simp add: to_time_point_def Let_def)
qed

lemma compiled_fits: "compiled r u = Inr t \<Longrightarrow> LONG_MIN \<le> t \<and> t \<le> LONG_MAX"
proof -
  have "LONG_MIN \<le> sint v \<and> sint v \<le> LONG_MAX" for v :: "64 word"
    using sint_ge [of v] sint_lt [of v] by (simp add: LONG_MIN_def LONG_MAX_def)
  then show "compiled r u = Inr t \<Longrightarrow> LONG_MIN \<le> t \<and> t \<le> LONG_MAX"
    by (auto simp: compiled_def split: option.splits)
qed

lemma to_time_point_fits:
  "to_time_point P x = Inr t \<Longrightarrow> LONG_MIN \<le> t \<and> t \<le> LONG_MAX"
  by (auto simp: to_time_point_def res_bind_Inr Let_def dest: compiled_fits split: if_splits)

text \<open>A number of seconds and a level, written as numbers or as texts.\<close>

lemma read_time_exact:
  assumes "json_kinds J" and "json_find J data ''s'' = Some v"
    and field: "(json_get_string J v = Inr (to_string s)) \<or>
      (json_is_number J v \<and> json_get_double J v = Inr (double_of_int s))"
    and s: "\<bar>s\<bar> \<le> max_exact_seconds"
    and fits: "LONG_MIN \<le> s * 1000000 * ticks_per_us P" "s * 1000000 * ticks_per_us P \<le> LONG_MAX"
  shows "read_time J P data w = (Inr (s * 1000000 * ticks_per_us P), w)"
proof -
  have small: "\<bar>s\<bar> \<le> 2 ^ 53" using s by (simp add: max_exact_seconds_def)
  have "\<not> json_is_null J v" using field assms(1) by (auto dest: json_kindsD)
  moreover have "\<exists>x. read_seconds J v = Inr x \<and> double_val x = Some (of_int s)"
    using field stod_to_string [OF small] double_of_int_exact [OF small]
    by (auto simp: read_seconds_def json_kindsD [OF assms(1)])
  ultimately show ?thesis
    using to_time_point_exact [OF _ s fits] assms(2) by (auto simp: read_time_def)
qed

lemma read_level_said:
  assumes "json_kinds J" and "json_find J data ''l'' = Some v"
    and "json_get_string J v = Inr (to_string n) \<or> (json_is_number J v \<and> json_get_int J v = Inr n)"
    and "INT_MIN \<le> n" and "n \<le> INT_MAX"
  shows "read_level J data = Inr (if 0 \<le> n \<and> n \<le> 6 then level_cast n else trace)"
  using assms(2,3) stoi_to_string [OF assms(4,5)]
  by (auto simp: read_level_def read_level_num_def clamp_level_def n_levels_def json_kindsD [OF assms(1)])

lemma level_cast_nth:
  "0 \<le> n \<Longrightarrow> n \<le> 6 \<Longrightarrow> level_cast n = [trace, debug, info, warn, err, critical, off] ! nat n"
proof -
  assume "0 \<le> n" and "n \<le> 6"
  then have "n \<in> {0, 1, 2, 3, 4, 5, 6}" by auto
  then show ?thesis by (auto simp: level_cast_def)
qed

lemma sample_platform_valid: "valid_platform sample_platform"
  by (simp add: valid_platform_def sample_platform_def)

section \<open>Properties\<close>

lemma from_json_Inl_parse: "json_parse J text = Inl f \<Longrightarrow> from_json J P text w = (Inl f, w)"
  by (simp add: from_json_def)



text \<open>The order in which the compiler evaluates the message arguments is unobservable: two
  platforms that differ in it only accept the same objects and give the same element.\<close>

theorem from_json_order_irrelevant:
  assumes "valid_platform P" and "valid_platform P'" and "P' = P\<lparr>arg_order := arg_order P'\<rparr>"
    and "fmt_positional J" and "json_kinds J"
  shows "from_json J P text w = (Inr e, w') \<longleftrightarrow> from_json J P' text w = (Inr e, w')"
proof -
  have platform: "ticks_per_us P' = ticks_per_us P" "overflowed P' = overflowed P"
    "unrepresentable P' = unrepresentable P" by (subst assms(3), simp)+
  have "to_time_point P = to_time_point P'"
    unfolding to_time_point_def [abs_def] platform by simp
  then have "read_time J P data w = read_time J P' data w" for data
    by (simp only: read_time_def)
  then show ?thesis
    unfolding from_json_ok_unfold
    by (simp add: read_message_says [OF assms(5,1,4)] read_message_says [OF assms(5,2,4)])
qed

theorem from_json_order_irrelevant_witness:
  "\<exists>P' e w'. valid_platform P' \<and> arg_order P' \<noteq> arg_order sample_platform \<and>
     from_json sample_json P' (quoted ''{!f!:!a.py!,!i!:3}'') sample_world = (Inr e, w') \<and>
     from_json sample_json sample_platform (quoted ''{!f!:!a.py!,!i!:3}'') sample_world = (Inr e, w')"
proof -
  let ?text = "quoted ''{!f!:!a.py!,!i!:3}''"
  let ?P' = "sample_platform\<lparr>arg_order := rev message_tokens\<rparr>"
  have valid: "valid_platform ?P'"
    by (simp add: valid_platform_def sample_platform_def message_tokens_def insert_commute)
  have eval: "fst (from_json sample_json ?P' ?text sample_world)
      = Inr (mk_element 100 trace ''[] [:] [a.py:3:] '')"
    by code_simp
  then obtain w' where run: "from_json sample_json ?P' ?text sample_world
      = (Inr (mk_element 100 trace ''[] [:] [a.py:3:] ''), w')"
    by (metis prod.collapse)
  moreover have "arg_order ?P' \<noteq> arg_order sample_platform"
    by (simp add: sample_platform_def message_tokens_def)
  moreover have "from_json sample_json sample_platform ?text sample_world
      = (Inr (mk_element 100 trace ''[] [:] [a.py:3:] ''), w')"
    using run from_json_order_irrelevant [OF sample_platform_valid valid _ sample_fmt_positional sample_json_kinds]
    by simp
  ultimately show ?thesis using valid by blast
qed

text \<open>C38. Whole seconds are converted exactly, whether the field is a number or the decimal text
  of one, for all times up to the year 2255 that the clock can represent: the element's time
  is that many seconds in ticks of the clock.\<close>

theorem from_json_exact_seconds:
  assumes "json_kinds J"
    and "json_parse J text = Inr data" and "json_find J data ''s'' = Some v"
    and field: "(json_get_string J v = Inr (to_string s)) \<or>
      (json_is_number J v \<and> json_get_double J v = Inr (double_of_int s))"
    and s: "\<bar>s\<bar> \<le> max_exact_seconds"
    and fits: "LONG_MIN \<le> s * 1000000 * ticks_per_us P" "s * 1000000 * ticks_per_us P \<le> LONG_MAX"
    and ok: "fst (from_json J P text w) = Inr e"
  shows "elem_time e = s * 1000000 * ticks_per_us P"
proof -
  obtain w' where "from_json J P text w = (Inr e, w')" using ok by (metis prod.collapse)
  then show ?thesis
    using assms(2) read_time_exact [OF assms(1,3) field s fits] by (auto simp: from_json_ok_unfold)
qed

theorem from_json_exact_seconds_witness:
  "\<exists>e. fst (from_json sample_json sample_platform (quoted ''{!s!:!1253370013!}'') sample_world)
      = Inr e \<and> elem_time e = 1253370013000000000"
proof -
  let ?text = "quoted ''{!s!:!1253370013!}''"
  let ?data = "JObj [(''s'', JStr ''1253370013'')]"
  have parse: "json_parse sample_json ?text = Inr ?data" by code_simp
  have find: "json_find sample_json ?data ''s'' = Some (JStr ''1253370013'')"
    by (simp add: sample_json_def)
  have get: "json_get_string sample_json (JStr ''1253370013'') = Inr (to_string 1253370013)"
    by code_simp
  have eval: "fst (from_json sample_json sample_platform ?text sample_world)
      = Inr (mk_element 1253370013000000000 trace ''[] [:] [::] '')"
    by code_simp
  show ?thesis
    using from_json_exact_seconds [OF sample_json_kinds parse find disjI1 [OF get] _ _ _ eval]
      eval
    by (auto simp: max_exact_seconds_def LONG_MIN_def LONG_MAX_def sample_platform_def)
qed

text \<open>A level written as a number and the same level written as text have the same effect;
  a level outside the enumeration is the lowest one, and 6, which the documentation does not
  list, is accepted as \<open>off\<close>.\<close>

theorem read_level_text_number:
  assumes "json_kinds J"
    and "json_find J data ''l'' = Some v" and "json_get_string J v = Inr (to_string n)"
    and "json_find J data' ''l'' = Some v'" and "json_is_number J v'" and "json_get_int J v' = Inr n"
    and "INT_MIN \<le> n" and "n \<le> INT_MAX"
  shows "read_level J data = read_level J data' \<and>
    read_level J data = Inr (if 0 \<le> n \<and> n \<le> 6 then level_cast n else trace)"
  using read_level_said [OF assms(1,2) disjI1 [OF assms(3)] assms(7,8)]
    read_level_said [OF assms(1,4) disjI2 [OF conjI [OF assms(5,6)]] assms(7,8)]
  by simp

theorem read_level_text_number_witness:
  "read_level sample_json (JObj [(''l'', JStr ''6'')]) = Inr off \<and>
   read_level sample_json (JObj [(''l'', JInt 6)]) = Inr off"
proof -
  have find: "json_find sample_json (JObj [(''l'', v)]) ''l'' = Some v" for v
    by (simp add: sample_json_def)
  have get: "json_get_string sample_json (JStr ''6'') = Inr (to_string 6)" by code_simp
  have num: "json_is_number sample_json (JInt 6)" "json_get_int sample_json (JInt 6) = Inr 6"
    by (simp_all add: sample_json_def INT_MIN_def INT_MAX_def)
  show ?thesis
    using read_level_text_number [OF sample_json_kinds find get find num]
    by (simp only: INT_MIN_def INT_MAX_def level_cast_def) (simp, metis)
qed

text \<open>The clock is read at most once per object, and only when the object parses and has no
  time of its own; an element without a time carries that reading.\<close>

theorem from_json_clock:
  "reads (snd (from_json J P text w)) =
     reads w + (case json_parse J text of Inl _ \<Rightarrow> 0
       | Inr data \<Rightarrow> (case json_find J data ''s'' of None \<Rightarrow> 1
           | Some v \<Rightarrow> if json_is_null J v then 1 else 0))"
  by (auto simp: from_json_def read_time_def log_clock_now_def Let_def
      split: sum.splits option.splits prod.splits)

text \<open>Where the clock counts nanoseconds, the time of an object with 123124141241 seconds (the value in
  the project's own unit test of \<^verbatim>\<open>from_json\<close>) does not fit the signed 64-bit count of ticks,
  although its count of microseconds is exact. On a platform that wraps around, as the test
  expects, the object is accepted with a time that is off by a multiple of \<open>2 ^ 64\<close> ticks.\<close>

theorem to_time_point_test_time:
  assumes "ticks_per_us P = 1000"
  shows "to_time_point P (double_of_int 123124141241) =
      compiled (overflowed P (123124141241 * 1000000000)) Signed_overflow \<and>
    (overflowed P (123124141241 * 1000000000) = Some (word_of_int (123124141241 * 1000000000)) \<longrightarrow>
       (\<exists>t. to_time_point P (double_of_int 123124141241) = Inr t \<and>
          t \<noteq> 123124141241 * 1000000000 \<and> t mod 2 ^ 64 = 123124141241 * 1000000000 mod 2 ^ 64))"
proof -
  have us: "double_to_int LONG_MIN LONG_MAX
      (double_mul (double_of_int 123124141241) (double_of_int 1000000)) = Inr 123124141241000000"
    by code_simp
  have *: "to_time_point P (double_of_int 123124141241) =
      compiled (overflowed P (123124141241 * 1000000000)) Signed_overflow"
    unfolding to_time_point_def us Let_def using assms by (simp add: LONG_MIN_def LONG_MAX_def)
  have "sint (word_of_int (123124141241 * 1000000000) :: 64 word) = - 6003067274966861312"
    by code_simp
  then show ?thesis using * by (auto simp: compiled_def)
qed

theorem to_time_point_test_time_witness:
  "is_ok (fst (from_json sample_json sample_platform (quoted ''{!c!:!doner!,!s!:123124141241}'') sample_world)) \<and>
   (\<exists>t. to_time_point sample_platform (double_of_int 123124141241) = Inr t \<and> t mod 2 ^ 64 = 123124141241 * 1000000000 mod 2 ^ 64)"
proof -
  have "is_ok (fst (from_json sample_json sample_platform (quoted ''{!c!:!doner!,!s!:123124141241}'') sample_world))"
    by code_simp
  moreover have "ticks_per_us sample_platform = 1000" "overflowed sample_platform (123124141241 * 1000000000) =
      Some (word_of_int (123124141241 * 1000000000))" by (simp_all add: sample_platform_def)
  ultimately show ?thesis using to_time_point_test_time [of sample_platform] by blast
qed

end
