(* ===== verification/Interfaces.thy ===== *)
theory Interfaces
  imports Prelude
begin

text \<open>
  The contracts between the components, as locales. \<open>stream_consumer\<close>: a component that is fed
  a byte stream in chunks and hands out a list of results per chunk; the session relies on it
  for the processor. \<open>pending_queue\<close>: a component into which a batch is pushed and that keeps it
  behind what is pending; the server relies on it for the loggers, whichever of the two
  overloads of \<^verbatim>\<open>push\<close> it calls. \<open>bounded_work\<close>: a component whose steps of work lower a rank;
  the server promises it to the program, which promises it in turn. \<open>hosted_machines\<close>: a
  component that runs any number of machines of one kind, each of which only takes steps of its
  own; the server promises it for its loggers and for its sessions.
\<close>

section \<open>Consumers of a stream\<close>

fun feed_chunks ::
    "('s \<Rightarrow> 'c list \<Rightarrow> ('o list \<times> 's) option) \<Rightarrow> 's \<Rightarrow> 'c list list \<Rightarrow> ('o list \<times> 's) option" where
  "feed_chunks feed s [] = Some ([], s)"
| "feed_chunks feed s (c # cs) =
     (case feed s c of
        None \<Rightarrow> None
      | Some (os, s') \<Rightarrow>
          (case feed_chunks feed s' cs of
             None \<Rightarrow> None
           | Some (os', s'') \<Rightarrow> Some (os @ os', s'')))"

text \<open>
  \<open>idle s\<close>: nothing more can be taken out of what \<open>s\<close> has received. \<open>None\<close> is a failure.
\<close>

locale stream_consumer =
  fixes feed :: "'s \<Rightarrow> 'c list \<Rightarrow> ('o list \<times> 's) option"
    and idle :: "'s \<Rightarrow> bool"
  assumes feed_append:
      "feed s (xs @ ys) =
         (case feed s xs of
            None \<Rightarrow> None
          | Some (os, s') \<Rightarrow>
              (case feed s' ys of None \<Rightarrow> None | Some (os', s'') \<Rightarrow> Some (os @ os', s'')))"
    and feed_idle: "feed s xs = Some (os, s') \<Longrightarrow> idle s'"
    and feed_nil: "idle s \<Longrightarrow> feed s [] = Some ([], s)"
begin

lemma feed_chunks_concat: "idle s \<Longrightarrow> feed_chunks feed s cs = feed s (concat cs)"
proof (induction cs arbitrary: s)
  case Nil
  then show ?case by (simp add: feed_nil)
next
  case (Cons c cs)
  show ?case
  proof (cases "feed s c")
    case None
    then show ?thesis by (simp add: feed_append)
  next
    case (Some os_s')
    then obtain os s' where c: "feed s c = Some (os, s')" by (cases os_s') auto
    then have "idle s'" by (rule feed_idle)
    then show ?thesis using c Cons.IH [of s'] by (simp add: feed_append)
  qed
qed

lemma chunking_irrelevant:
  "idle s \<Longrightarrow> concat cs = concat ds \<Longrightarrow> feed_chunks feed s cs = feed_chunks feed s ds"
  by (simp add: feed_chunks_concat)

lemma feed_chunks_append:
  "idle s \<Longrightarrow> feed_chunks feed s (cs @ ds) =
     (case feed_chunks feed s cs of
        None \<Rightarrow> None
      | Some (os, s') \<Rightarrow>
          (case feed_chunks feed s' ds of
             None \<Rightarrow> None | Some (os', s'') \<Rightarrow> Some (os @ os', s'')))"
  by (auto simp: feed_chunks_concat feed_append feed_idle split: option.splits)

lemma feed_chunks_idle: "idle s \<Longrightarrow> feed_chunks feed s cs = Some (os, s') \<Longrightarrow> idle s'"
  by (auto simp: feed_chunks_concat intro: feed_idle)

end

section \<open>Queues of pending work\<close>

text \<open>
  \<open>pending q\<close> is what has been pushed into \<open>q\<close> and not yet taken, oldest first.
\<close>

fun push_batches :: "('q \<Rightarrow> 'e list \<Rightarrow> 'q) \<Rightarrow> 'q \<Rightarrow> 'e list list \<Rightarrow> 'q" where
  "push_batches push q [] = q"
| "push_batches push q (b # bs) = push_batches push (push q b) bs"

locale pending_queue =
  fixes push :: "'q \<Rightarrow> 'e list \<Rightarrow> 'q" and pending :: "'q \<Rightarrow> 'e list"
  assumes pending_push: "pending (push q es) = pending q @ es"
begin

lemma pending_push_batches: "pending (push_batches push q bs) = pending q @ concat bs"
  by (induction bs arbitrary: q) (simp_all add: pending_push)

lemma pending_map_push: "map pending (map (\<lambda>q. push q es) qs) = map (\<lambda>q. pending q @ es) qs"
  by (simp add: pending_push)

end

section \<open>Work that ends\<close>

text \<open>\<open>ok\<close> are the states the component can be in.\<close>

locale bounded_work =
  fixes work :: "'s \<Rightarrow> 's \<Rightarrow> bool" and rank :: "'s \<Rightarrow> nat" and ok :: "'s \<Rightarrow> bool"
  assumes work_lowers: "ok y \<Longrightarrow> work y z \<Longrightarrow> rank z < rank y"
    and work_ok: "ok y \<Longrightarrow> work y z \<Longrightarrow> ok z"
begin

lemma work_bounded: "ok y \<Longrightarrow> (work ^^ n) y z \<Longrightarrow> ok z \<and> n + rank z \<le> rank y"
proof (induction n arbitrary: z)
  case (Suc n)
  then obtain u where "(work ^^ n) y u" "work u z" by auto
  then show ?case using Suc.IH [of u] Suc.prems(1) work_lowers [of u z] work_ok [of u z] by auto
qed simp

lemma work_keeps: "(\<And>y z. work y z \<Longrightarrow> f z = f y) \<Longrightarrow> (work ^^ n) y z \<Longrightarrow> f z = f y"
proof (induction n arbitrary: z)
  case (Suc n)
  then obtain u where "(work ^^ n) y u" "work u z" by auto
  then show ?case using Suc.IH [of u] Suc.prems(1) by simp
qed simp

lemma work_ends: "ok y \<Longrightarrow> \<exists>n z. (work ^^ n) y z \<and> (\<nexists>u. work z u)"
proof (induction "rank y" arbitrary: y rule: less_induct)
  case less
  show ?case
  proof (cases "\<exists>u. work y u")
    case True
    then obtain u where step: "work y u" by blast
    then obtain n z where "(work ^^ n) u z" "\<nexists>x. work z x"
      using less.hyps [OF work_lowers [OF less.prems step] work_ok [OF less.prems step]] by blast
    then show ?thesis using step by (metis relpowp_Suc_I2)
  next
    case False
    then show ?thesis by (metis relpowp_0_I)
  qed
qed

end

section \<open>Machines that run inside a component\<close>

text \<open>
  \<open>parts y\<close> are the machines of the state \<open>y\<close>, \<open>part_step\<close> is a step of one of them, and
  \<open>fresh\<close> are the states in which a machine begins. One step of the component is any number of
  steps of each machine it has, and may add fresh ones.
\<close>

locale hosted_machines =
  fixes step :: "'c \<Rightarrow> 'c \<Rightarrow> bool" and ok :: "'c \<Rightarrow> bool" and parts :: "'c \<Rightarrow> 'a list"
    and part_step :: "'a \<Rightarrow> 'a \<Rightarrow> bool" and fresh :: "'a \<Rightarrow> bool"
  assumes step_ok: "ok y \<Longrightarrow> step y z \<Longrightarrow> ok z"
    and parts_stay: "ok y \<Longrightarrow> step y z \<Longrightarrow> length (parts y) \<le> length (parts z)"
    and parts_step: "ok y \<Longrightarrow> step y z \<Longrightarrow> i < length (parts y) \<Longrightarrow>
      part_step\<^sup>*\<^sup>* (parts y ! i) (parts z ! i)"
    and parts_fresh: "ok y \<Longrightarrow> step y z \<Longrightarrow> length (parts y) \<le> i \<Longrightarrow> i < length (parts z) \<Longrightarrow>
      fresh (parts z ! i)"
begin

lemma run_ok: "step\<^sup>*\<^sup>* y z \<Longrightarrow> ok y \<Longrightarrow> ok z"
  by (induction rule: rtranclp_induct) (auto intro: step_ok)

lemma parts_run:
  "step\<^sup>*\<^sup>* y z \<Longrightarrow> ok y \<Longrightarrow> i < length (parts y) \<Longrightarrow>
   i < length (parts z) \<and> part_step\<^sup>*\<^sup>* (parts y ! i) (parts z ! i)"
proof (induction rule: rtranclp_induct)
  case (step z z')
  have ok: "ok z" by (rule run_ok [OF step.hyps(1) step.prems(1)])
  show ?case
    using step parts_stay [OF ok step.hyps(2)] parts_step [OF ok step.hyps(2), of i]
    by (auto intro: rtranclp_trans)
qed simp

lemma parts_begin_step:
  assumes "ok y" and "step y z"
    and "\<And>i. i < length (parts y) \<Longrightarrow> \<exists>a. fresh a \<and> part_step\<^sup>*\<^sup>* a (parts y ! i)"
    and "i < length (parts z)"
  shows "\<exists>a. fresh a \<and> part_step\<^sup>*\<^sup>* a (parts z ! i)"
proof (cases "i < length (parts y)")
  case True
  then show ?thesis using assms(3) parts_step [OF assms(1,2)] by (meson rtranclp_trans)
next
  case False
  then show ?thesis using parts_fresh [OF assms(1,2) _ assms(4)] by auto
qed

text \<open>Every machine of a state that is reached has been run from a fresh one.\<close>

lemma parts_begin:
  "step\<^sup>*\<^sup>* y z \<Longrightarrow> ok y \<Longrightarrow>
   (\<And>i. i < length (parts y) \<Longrightarrow> \<exists>a. fresh a \<and> part_step\<^sup>*\<^sup>* a (parts y ! i)) \<Longrightarrow>
   i < length (parts z) \<Longrightarrow> \<exists>a. fresh a \<and> part_step\<^sup>*\<^sup>* a (parts z ! i)"
proof (induction arbitrary: i rule: rtranclp_induct)
  case (step z z')
  have ok: "ok z" by (rule run_ok [OF step.hyps(1) step.prems(1)])
  show ?case
    using parts_begin_step [OF ok step.hyps(2) step.IH [OF step.prems(1,2)] step.prems(3)] by blast
qed blast

end

end
