(* ===== verification/Processor.thy ===== *)
theory Processor
  imports Element Interfaces
begin

text \<open>
  \<^verbatim>\<open>Processor\<close> of \<^verbatim>\<open>src/src/session.h\<close> and \<^verbatim>\<open>src/src/session.cpp\<close>: the bytes received so far
  and not yet consumed (\<open>m_current\<close>), the search for one complete object in them
  (\<open>find_one\<close>), and the call operator that appends a chunk and takes out every complete object
  (\<open>process\<close>). Its specification is \<open>frames\<close>, the cutting of a byte string into objects, and
  the contract \<open>stream_consumer\<close>, by which the cutting of a stream into chunks is immaterial.
\<close>

section \<open>The code\<close>

record Processor =
  m_current :: string

definition new_processor :: Processor where
  "new_processor = \<lparr>m_current = []\<rparr>"

definition start_char :: char where "start_char = CHR ''{''"
definition end_char :: char where "end_char = CHR ''}''"

text \<open>\<^verbatim>\<open>catch (const std::exception& e)\<close>: the text \<^verbatim>\<open>e.what()\<close> of a failure it catches.\<close>

fun caught_std :: "failure \<Rightarrow> string option" where
  "caught_std (Raise e) = what e"
| "caught_std (Undef u) = None"
| "caught_std Terminated = None"

definition find_one ::
    "'j json_ops \<Rightarrow> platform \<Rightarrow> Processor \<Rightarrow> world \<Rightarrow> Element option res \<times> Processor \<times> world" where
  "find_one J P p w =
     (let cur = m_current p; is = std_find start_char cur 0 in
      if is \<noteq> length cur then
        let ie = std_find end_char cur (is + 1) in
        if ie \<noteq> length cur then
          let beyond = ie + 1;
              erased = p\<lparr>m_current := drop beyond cur\<rparr>
          in case from_json J P (take (ie + 1 - is) (drop is cur)) w of
               (Inr element, w1) \<Rightarrow> (Inr (Some element), erased, w1)
             | (Inl f, w1) \<Rightarrow>
                 (case caught_std f of
                    None \<Rightarrow> (Inl f, p, w1)
                  | Some txt \<Rightarrow>
                      let (now, w2) = log_clock_now w1
                      in (res_bind (fmt_format J parse_error_format [txt])
                            (\<lambda>m. Inr (Some (mk_element now critical m))), erased, w2))
        else (Inr None, p, w)
      else (Inr None, p, w))"

text \<open>
  The loop of the call operator, with the elements found so far. An exception that leaves
  \<open>find_one\<close> drops them. Every element found shortens the buffer, so the loop ends.
\<close>

lemma find_one_shorter:
  assumes "find_one J P p w = (Inr (Some e), p', w')"
  shows "length (m_current p') < length (m_current p)"
proof -
  let ?cur = "m_current p"
  let ?ie = "std_find end_char ?cur (std_find start_char ?cur 0 + 1)"
  have "std_find start_char ?cur 0 \<noteq> length ?cur" and "?ie \<noteq> length ?cur"
    and p': "m_current p' = drop (?ie + 1) ?cur"
    using assms
    by (auto simp: find_one_def Let_def split: if_splits prod.splits sum.splits option.splits)
  then have "std_find start_char ?cur 0 + 1 \<le> length ?cur"
    using std_find_le [of 0 ?cur start_char] by linarith
  then have "?ie < length ?cur"
    using std_find_le [of _ ?cur end_char] \<open>?ie \<noteq> length ?cur\<close> by (meson le_neq_implies_less)
  then show ?thesis by (simp add: p')
qed

function collect ::
    "'j json_ops \<Rightarrow> platform \<Rightarrow> Processor \<Rightarrow> world \<Rightarrow> Element list \<Rightarrow>
     Element list res \<times> Processor \<times> world" where
  "collect J P p w elements =
     (case find_one J P p w of
        (Inl f, p', w') \<Rightarrow> (Inl f, p', w')
      | (Inr None, p', w') \<Rightarrow> (Inr elements, p', w')
      | (Inr (Some e), p', w') \<Rightarrow> collect J P p' w' (elements @ [e]))"
  by pat_completeness auto
termination
  by (relation "measure (\<lambda>(J, P, p, w, elements). length (m_current p))")
    (auto intro: find_one_shorter [OF sym])

declare collect.simps [simp del]

definition process ::
    "'j json_ops \<Rightarrow> platform \<Rightarrow> Processor \<Rightarrow> world \<Rightarrow> string \<Rightarrow>
     Element list res \<times> Processor \<times> world" where
  "process J P p w data = collect J P (p\<lparr>m_current := m_current p @ data\<rparr>) w []"

section \<open>Cutting a byte string into objects\<close>

text \<open>
  The first object of a byte string is the text from the first opening brace to the first
  closing brace after it.
\<close>

definition split_frame :: "string \<Rightarrow> (string \<times> string) option" where
  "split_frame s =
     (let junk = takeWhile (\<lambda>c. c \<noteq> start_char) s; tail = drop (length junk) s;
          body = takeWhile (\<lambda>c. c \<noteq> end_char) tail; after = drop (length body) tail
      in if after = [] then None else Some (body @ [end_char], tl after))"

lemma braces_differ [simp]: "start_char \<noteq> end_char" "end_char \<noteq> start_char"
  by (simp_all add: start_char_def end_char_def)

lemma split_frame_complete:
  assumes "start_char \<notin> set junk" and "end_char \<notin> set body"
  shows "split_frame (junk @ start_char # body @ end_char # rest)
    = Some (start_char # body @ [end_char], rest)"
proof -
  have "takeWhile (\<lambda>c. c \<noteq> end_char) (start_char # body @ end_char # rest) = start_char # body"
    using assms(2) by (simp add: takeWhile_neq_append)
  then show ?thesis
    using assms(1) by (simp add: split_frame_def takeWhile_neq_append)
qed

lemma split_frame_no_start: "start_char \<notin> set s \<Longrightarrow> split_frame s = None"
  by (simp add: split_frame_def takeWhile_neq_all)

lemma split_frame_open:
  assumes "start_char \<notin> set junk" and "end_char \<notin> set body"
  shows "split_frame (junk @ start_char # body) = None"
  using assms by (simp add: split_frame_def takeWhile_neq_append takeWhile_neq_all Let_def)

text \<open>The three shapes of a buffer; every proof about it is by these cases.\<close>

lemma buffer_cases [case_names no_start open_object complete]:
  obtains "start_char \<notin> set s"
  | junk body where "s = junk @ start_char # body" "start_char \<notin> set junk" "end_char \<notin> set body"
  | junk body rest where "s = junk @ start_char # body @ end_char # rest"
      "start_char \<notin> set junk" "end_char \<notin> set body"
proof (cases "start_char \<in> set s")
  case False
  then show ?thesis by (rule that(1))
next
  case True
  then obtain junk tail where s: "s = junk @ start_char # tail" "start_char \<notin> set junk"
    by (rule split_first)
  show ?thesis
  proof (cases "end_char \<in> set tail")
    case False
    with s show ?thesis by (rule that(2))
  next
    case True
    then obtain body rest where "tail = body @ end_char # rest" "end_char \<notin> set body"
      by (rule split_first)
    with s show ?thesis by (intro that(3)) simp_all
  qed
qed

lemma split_frame_Some_iff:
  "split_frame s = Some (t, r) \<longleftrightarrow>
     (\<exists>junk body. s = junk @ start_char # body @ end_char # r \<and> start_char \<notin> set junk
        \<and> end_char \<notin> set body \<and> t = start_char # body @ [end_char])"
proof (cases s rule: buffer_cases)
  case no_start
  then show ?thesis by (auto simp: split_frame_no_start)
next
  case (open_object junk body)
  have "\<not> (\<exists>j b. junk @ start_char # body = j @ start_char # b @ end_char # r
      \<and> start_char \<notin> set j)"
    using open_object split_first_unique [of junk start_char body] by fastforce
  then show ?thesis using open_object by (auto simp: split_frame_open)
next
  case (complete junk body rest)
  then show ?thesis
    by (auto simp: split_frame_complete dest!: split_first_unique)
qed

lemma split_frame_append:
  "split_frame s = Some (t, r) \<Longrightarrow> split_frame (s @ x) = Some (t, r @ x)"
  by (auto simp: split_frame_Some_iff)

lemma split_frame_shorter: "split_frame s = Some (t, r) \<Longrightarrow> length r < length s"
  by (auto simp: split_frame_Some_iff)

function frames :: "string \<Rightarrow> string list \<times> string" where
  "frames s = (case split_frame s of
       None \<Rightarrow> ([], s)
     | Some (t, r) \<Rightarrow> (let (ts, rest) = frames r in (t # ts, rest)))"
  by pat_completeness auto
termination
  by (relation "measure length") (auto intro: split_frame_shorter)

declare frames.simps [simp del]

lemma frames_None: "split_frame s = None \<Longrightarrow> frames s = ([], s)"
  by (simp add: frames.simps [of s])

lemma frames_Some:
  "split_frame s = Some (t, r) \<Longrightarrow> frames s = (t # fst (frames r), snd (frames r))"
  by (simp add: frames.simps [of s] split: prod.splits)

lemma frames_rest_incomplete: "split_frame (snd (frames s)) = None"
proof (induction s rule: frames.induct)
  case (1 s)
  then show ?case
    by (cases "split_frame s") (auto simp: frames_None frames_Some)
qed

text \<open>Cutting a longer string starts by cutting the shorter one.\<close>

lemma frames_append:
  "frames (s @ x) =
     (fst (frames s) @ fst (frames (snd (frames s) @ x)), snd (frames (snd (frames s) @ x)))"
proof (induction s rule: frames.induct)
  case (1 s)
  show ?case
  proof (cases "split_frame s")
    case None
    then show ?thesis by (simp add: frames_None)
  next
    case (Some tr)
    then obtain t r where tr: "split_frame s = Some (t, r)" by (cases tr) auto
    then have "split_frame (s @ x) = Some (t, r @ x)" by (rule split_frame_append)
    with tr 1 show ?thesis by (simp add: frames_Some)
  qed
qed

section \<open>The code computes the cutting\<close>

text \<open>
  What becomes of one object: the element it denotes, or the element that reports the error.
\<close>

definition decode :: "'j json_ops \<Rightarrow> platform \<Rightarrow> string \<Rightarrow> world \<Rightarrow> Element res \<times> world" where
  "decode J P t w = (case from_json J P t w of
       (Inr e, w1) \<Rightarrow> (Inr e, w1)
     | (Inl f, w1) \<Rightarrow>
         (case caught_std f of
            None \<Rightarrow> (Inl f, w1)
          | Some txt \<Rightarrow>
              let (now, w2) = log_clock_now w1
              in (res_bind (fmt_format J parse_error_format [txt])
                    (\<lambda>m. Inr (mk_element now critical m)), w2)))"

fun decode_all ::
    "'j json_ops \<Rightarrow> platform \<Rightarrow> string list \<Rightarrow> world \<Rightarrow> Element list res \<times> world" where
  "decode_all J P [] w = (Inr [], w)"
| "decode_all J P (t # ts) w =
     (case decode J P t w of
        (Inl f, w1) \<Rightarrow> (Inl f, w1)
      | (Inr e, w1) \<Rightarrow>
          (let (r, w2) = decode_all J P ts w1 in (res_bind r (\<lambda>es. Inr (e # es)), w2)))"

lemma find_one_none:
  assumes "split_frame (m_current p) = None"
  shows "find_one J P p w = (Inr None, p, w)"
proof (cases "m_current p" rule: buffer_cases)
  case no_start
  then show ?thesis by (simp add: find_one_def std_find_miss)
next
  case (open_object junk body)
  have "std_find start_char (m_current p) 0 = length junk"
    using open_object by (simp add: std_find_hit0)
  moreover have "std_find end_char (m_current p) (length junk + 1) = length (m_current p)"
    using open_object by (intro std_find_miss) auto
  ultimately show ?thesis by (simp add: find_one_def Let_def)
next
  case (complete junk body rest)
  then show ?thesis using assms by (simp add: split_frame_complete)
qed

lemma find_one_frame:
  assumes "split_frame (m_current p) = Some (t, r)"
  shows "find_one J P p w =
    (case from_json J P t w of
       (Inr e, w1) \<Rightarrow> (Inr (Some e), p\<lparr>m_current := r\<rparr>, w1)
     | (Inl f, w1) \<Rightarrow>
         (case caught_std f of
            None \<Rightarrow> (Inl f, p, w1)
          | Some txt \<Rightarrow>
              let (now, w2) = log_clock_now w1
              in (res_bind (fmt_format J parse_error_format [txt])
                    (\<lambda>m. Inr (Some (mk_element now critical m))), p\<lparr>m_current := r\<rparr>, w2)))"
proof -
  obtain junk body where cur: "m_current p = junk @ start_char # body @ end_char # r"
    and j: "start_char \<notin> set junk" and b: "end_char \<notin> set body"
    and t: "t = start_char # body @ [end_char]"
    using assms by (auto simp: split_frame_Some_iff)
  have first: "std_find start_char (m_current p) 0 = length junk"
    using cur j by (simp add: std_find_hit0)
  have last: "std_find end_char (m_current p) (length junk + 1) = length junk + 1 + length body"
    using std_find_hit [OF b, of "junk @ [start_char]" "length junk + 1" r] cur by simp
  have obj: "take (length junk + 1 + length body + 1 - length junk) (drop (length junk) (m_current p)) = t"
    and rest: "drop (length junk + 1 + length body + 1) (m_current p) = r"
    and len: "length junk \<noteq> length (m_current p)" "length junk + 1 + length body \<noteq> length (m_current p)"
    using cur t by simp_all
  show ?thesis unfolding find_one_def Let_def first last obj rest by (simp only: len if_True not_False_eq_True)
qed

lemma find_one_decode_ok:
  assumes "split_frame (m_current p) = Some (t, r)" and "decode J P t w = (Inr e, w')"
  shows "find_one J P p w = (Inr (Some e), p\<lparr>m_current := r\<rparr>, w')"
  using assms(2)
  by (auto simp: find_one_frame [OF assms(1)] decode_def res_bind_Inr Let_def
      split: prod.splits sum.splits option.splits)

lemma find_one_decode_fail:
  assumes "split_frame (m_current p) = Some (t, r)" and "decode J P t w = (Inl f, w')"
  shows "\<exists>p'. find_one J P p w = (Inl f, p', w')"
  using assms(2)
  by (auto simp: find_one_frame [OF assms(1)] decode_def res_bind_Inl Let_def
      split: prod.splits sum.splits option.splits)

lemma collect_ok:
  assumes "decode_all J P (fst (frames (m_current p))) w = (Inr es, w')"
  shows "collect J P p w acc
    = (Inr (acc @ es), p\<lparr>m_current := snd (frames (m_current p))\<rparr>, w')"
  using assms
proof (induction J P p w acc arbitrary: es rule: collect.induct)
  case (1 J P p w acc)
  show ?case
  proof (cases "split_frame (m_current p)")
    case None
    then show ?thesis
      using "1.prems" by (simp add: collect.simps [of J P p] find_one_none frames_None)
  next
    case (Some tr)
    then obtain t r where tr: "split_frame (m_current p) = Some (t, r)" by (cases tr) auto
    with "1.prems" obtain e w1 es' where d: "decode J P t w = (Inr e, w1)"
      and rest: "decode_all J P (fst (frames r)) w1 = (Inr es', w')" and es: "es = e # es'"
      by (auto simp: frames_Some res_bind_Inr split: prod.splits sum.splits)
    have find: "find_one J P p w = (Inr (Some e), p\<lparr>m_current := r\<rparr>, w1)"
      using tr d by (rule find_one_decode_ok)
    show ?thesis
      using "1.IH" [OF find [symmetric] refl refl refl] rest
      by (simp add: collect.simps [of J P p] find frames_Some [OF tr] es)
  qed
qed

lemma collect_fail:
  assumes "decode_all J P (fst (frames (m_current p))) w = (Inl f, w')"
  shows "\<exists>p'. collect J P p w acc = (Inl f, p', w')"
  using assms
proof (induction J P p w acc rule: collect.induct)
  case (1 J P p w acc)
  then obtain t r where tr: "split_frame (m_current p) = Some (t, r)"
    by (cases "split_frame (m_current p)") (auto simp: frames_None)
  show ?case
  proof (cases "decode J P t w")
    case (Pair res w1)
    show ?thesis
    proof (cases res)
      case (Inl g)
      with Pair "1.prems" have "decode J P t w = (Inl f, w')" by (simp add: frames_Some [OF tr])
      then obtain p' where "find_one J P p w = (Inl f, p', w')"
        using find_one_decode_fail [OF tr] by blast
      then show ?thesis by (simp add: collect.simps [of J P p])
    next
      case (Inr e)
      with Pair "1.prems" have rest: "decode_all J P (fst (frames r)) w1 = (Inl f, w')"
        by (auto simp: frames_Some [OF tr] res_bind_Inl split: prod.splits)
      have find: "find_one J P p w = (Inr (Some e), p\<lparr>m_current := r\<rparr>, w1)"
        using tr Pair Inr by (intro find_one_decode_ok) simp_all
      show ?thesis
        using "1.IH" [OF find [symmetric] refl refl refl] rest
        by (simp add: collect.simps [of J P p] find)
    qed
  qed
qed

lemma process_ok:
  assumes "frames (m_current p @ data) = (ts, rest)" and "decode_all J P ts w = (Inr es, w')"
  shows "process J P p w data = (Inr es, p\<lparr>m_current := rest\<rparr>, w')"
  using assms by (simp add: process_def collect_ok)

lemma process_fail:
  assumes "decode_all J P (fst (frames (m_current p @ data))) w = (Inl f, w')"
  shows "\<exists>p'. process J P p w data = (Inl f, p', w')"
  using assms by (simp add: process_def collect_fail)

lemma process_Inr_iff:
  "process J P p w data = (Inr es, p', w') \<longleftrightarrow>
     decode_all J P (fst (frames (m_current p @ data))) w = (Inr es, w') \<and>
     p' = p\<lparr>m_current := snd (frames (m_current p @ data))\<rparr>"
proof (cases "decode_all J P (fst (frames (m_current p @ data))) w")
  case (Pair r w1)
  show ?thesis
  proof (cases r)
    case (Inl f)
    then show ?thesis using Pair process_fail [of J P p data w f w1] by auto
  next
    case (Inr fs)
    then show ?thesis
      using Pair process_ok [of p data _ _ J P w fs w1] by (auto simp: prod_eq_iff)
  qed
qed

lemma decode_all_append:
  "decode_all J P (ts @ us) w = (Inr es, w') \<longleftrightarrow>
     (\<exists>es1 w1 es2. decode_all J P ts w = (Inr es1, w1) \<and>
        decode_all J P us w1 = (Inr es2, w') \<and> es = es1 @ es2)"
proof (induction ts arbitrary: w es)
  case Nil
  then show ?case by simp
next
  case (Cons t ts)
  show ?case
  proof (cases "decode J P t w")
    case (Pair r w1)
    then show ?thesis
      using Cons.IH [of w1] by (cases r) (force simp: res_bind_Inr split: prod.splits)+
  qed
qed

section \<open>The processor consumes a stream\<close>

definition feed_processor ::
    "'j json_ops \<Rightarrow> platform \<Rightarrow> Processor \<times> world \<Rightarrow> string \<Rightarrow>
     (Element list \<times> Processor \<times> world) option" where
  "feed_processor J P s data = (case process J P (fst s) (snd s) data of
       (Inr es, s') \<Rightarrow> Some (es, s')
     | (Inl f, s') \<Rightarrow> None)"

definition processor_idle :: "Processor \<times> world \<Rightarrow> bool" where
  "processor_idle s \<longleftrightarrow> split_frame (m_current (fst s)) = None"

lemma feed_processor_Some_iff:
  "feed_processor J P s data = Some (es, s') \<longleftrightarrow>
     decode_all J P (fst (frames (m_current (fst s) @ data))) (snd s) = (Inr es, snd s') \<and>
     fst s' = (fst s)\<lparr>m_current := snd (frames (m_current (fst s) @ data))\<rparr>"
proof -
  have "feed_processor J P s data = Some (es, s') \<longleftrightarrow>
      process J P (fst s) (snd s) data = (Inr es, fst s', snd s')"
    by (auto simp: feed_processor_def split: prod.splits sum.splits)
  then show ?thesis unfolding process_Inr_iff .
qed

lemma option_eq_iff: "x = y \<longleftrightarrow> (\<forall>a. x = Some a \<longleftrightarrow> y = Some a)"
  by (metis not_Some_eq)

lemma feed_processor_append:
  "feed_processor J P s (xs @ ys) =
     (case feed_processor J P s xs of
        None \<Rightarrow> None
      | Some (os, s') \<Rightarrow>
          (case feed_processor J P s' ys of
             None \<Rightarrow> None | Some (os', s'') \<Rightarrow> Some (os @ os', s'')))"
proof -
  let ?b = "m_current (fst s)"
  have both: "feed_processor J P s (xs @ ys) = Some (es, s2) \<longleftrightarrow>
      (\<exists>os s1 os'. feed_processor J P s xs = Some (os, s1) \<and>
         feed_processor J P s1 ys = Some (os', s2) \<and> es = os @ os')" for es s2
  proof -
    have f: "frames (?b @ xs @ ys) =
        (fst (frames (?b @ xs)) @ fst (frames (snd (frames (?b @ xs)) @ ys)),
         snd (frames (snd (frames (?b @ xs)) @ ys)))"
      using frames_append [of "?b @ xs" ys] by simp
    show ?thesis
      unfolding feed_processor_Some_iff f fst_conv snd_conv decode_all_append
      by (cases s2) force
  qed
  show ?thesis
    by (rule option_eq_iff [THEN iffD2])
      (auto simp: both split: option.splits)
qed

interpretation proc: stream_consumer "feed_processor J P" processor_idle for J P
proof
  show "processor_idle s'" if "feed_processor J P s xs = Some (os, s')" for s xs os s'
    using that by (auto simp: feed_processor_Some_iff processor_idle_def frames_rest_incomplete)
  show "feed_processor J P s [] = Some ([], s)" if "processor_idle s" for s
    using that
    by (cases s) (simp add: feed_processor_Some_iff processor_idle_def frames_None)
qed (rule feed_processor_append)

lemma new_processor_idle: "processor_idle (new_processor, w)"
  by (simp add: processor_idle_def new_processor_def split_frame_no_start)

section \<open>Specification of the cutting\<close>

text \<open>
  \<open>cutting s ts r\<close>: the byte string \<open>s\<close> consists of the objects \<open>ts\<close>, in this order, between
  bytes that belong to no object, and of \<open>r\<close>, which holds no complete object.
\<close>

inductive cutting :: "string \<Rightarrow> string list \<Rightarrow> string \<Rightarrow> bool" where
  cut_none: "start_char \<notin> set s \<Longrightarrow> cutting s [] s"
| cut_open: "start_char \<notin> set junk \<Longrightarrow> end_char \<notin> set body \<Longrightarrow>
    cutting (junk @ start_char # body) [] (junk @ start_char # body)"
| cut_object: "start_char \<notin> set junk \<Longrightarrow> end_char \<notin> set body \<Longrightarrow> cutting s ts r \<Longrightarrow>
    cutting (junk @ start_char # body @ end_char # s) ((start_char # body @ [end_char]) # ts) r"

inductive_cases cut_NilE: "cutting s [] r"
inductive_cases cut_ConsE: "cutting s (t # ts) r"

lemma cut_frames: "cutting s (fst (frames s)) (snd (frames s))"
proof (induction s rule: frames.induct)
  case (1 s)
  show ?case
  proof (cases s rule: buffer_cases)
    case no_start
    then show ?thesis by (simp add: frames_None split_frame_no_start cut_none)
  next
    case (open_object junk body)
    then show ?thesis by (simp add: frames_None split_frame_open cut_open)
  next
    case (complete junk body rest)
    then have f: "split_frame s = Some (start_char # body @ [end_char], rest)"
      by (simp add: split_frame_complete)
    then have "cutting rest (fst (frames rest)) (snd (frames rest))" using "1.IH" by simp
    with complete have "cutting (junk @ start_char # body @ end_char # rest)
        ((start_char # body @ [end_char]) # fst (frames rest)) (snd (frames rest))"
      by (intro cut_object)
    then show ?thesis by (simp only: frames_Some [OF f] fst_conv snd_conv complete(1) [symmetric])
  qed
qed

lemma frames_cut: "cutting s ts r \<Longrightarrow> frames s = (ts, r)"
proof (induction rule: cutting.induct)
  case (cut_none s)
  then show ?case by (simp add: frames_None split_frame_no_start)
next
  case (cut_open junk body)
  then show ?case by (simp add: frames_None split_frame_open)
next
  case (cut_object junk body s ts r)
  then show ?case by (simp add: frames_Some split_frame_complete)
qed

lemma cut_iff: "cutting s ts r \<longleftrightarrow> frames s = (ts, r)"
  using cut_frames [of s] frames_cut [of s ts r] by auto

lemma cut_append: "cutting s ts r \<Longrightarrow> cutting (r @ x) us r' \<Longrightarrow> cutting (s @ x) (ts @ us) r'"
  by (simp add: cut_iff frames_append [of s x])

lemma cutting_wire:
  assumes "\<forall>(sep, body) \<in> set ms. start_char \<notin> set sep \<and> end_char \<notin> set body"
    and "start_char \<notin> set tail"
  shows "cutting (concat (map (\<lambda>(sep, body). sep @ start_char # body @ [end_char]) ms) @ tail)
    (map (\<lambda>(sep, body). start_char # body @ [end_char]) ms) tail"
  using assms(1)
proof (induction ms)
  case Nil
  then show ?case using assms(2) by (simp add: cut_none)
next
  case (Cons m ms)
  then show ?case by (cases m) (simp add: cut_object)
qed

lemma feed_processor_cutting:
  assumes "cutting (m_current (fst s) @ data) ts r"
  shows "feed_processor J P s data =
    (case decode_all J P ts (snd s) of
       (Inr es, w') \<Rightarrow> Some (es, (fst s)\<lparr>m_current := r\<rparr>, w')
     | (Inl f, w') \<Rightarrow> None)"
  using assms
  by (intro option_eq_iff [THEN iffD2])
    (auto simp: cut_iff feed_processor_Some_iff split: prod.splits sum.splits)

lemma feed_new_processor:
  assumes "cutting data ts r"
  shows "feed_processor J P (new_processor, w) data =
    (case decode_all J P ts w of
       (Inr es, w') \<Rightarrow> Some (es, \<lparr>m_current = r\<rparr>, w')
     | (Inl f, w') \<Rightarrow> None)"
  using feed_processor_cutting [of "(new_processor, w)" data ts r J P] assms
  by (simp add: new_processor_def split: sum.splits prod.splits)

lemmas feed_chunks_new_processor = proc.feed_chunks_concat [OF new_processor_idle]

lemma decode_all_length: "decode_all J P ts w = (Inr es, w') \<Longrightarrow> length es = length ts"
  by (induction ts arbitrary: w es) (auto simp: res_bind_Inr split: prod.splits sum.splits)

section \<open>Properties\<close>

text \<open>C6. The call operator computes the cutting of what was buffered and what arrived: it returns
  exactly one element per complete object, in their order, and keeps exactly the bytes after
  the last one.\<close>

theorem process_refines_cutting:
  "process J P p w data = (Inr es, p', w') \<longleftrightarrow>
     (\<exists>ts r. cutting (m_current p @ data) ts r \<and> p' = p\<lparr>m_current := r\<rparr> \<and>
        decode_all J P ts w = (Inr es, w') \<and> length es = length ts)"
proof -
  have "frames s = (ts, r) \<longleftrightarrow> ts = fst (frames s) \<and> r = snd (frames s)" for s ts r
    by (auto simp: prod_eq_iff)
  then show ?thesis unfolding process_Inr_iff cut_iff by (auto dest: decode_all_length)
qed

text \<open>C15. How the transport cuts the stream into chunks is immaterial: feeding a fresh processor the
  chunks one by one gives the same elements, the same clock readings and the same buffer as
  feeding it all bytes at once, and fails in the same cases.\<close>

theorem process_chunks:
  "feed_chunks (feed_processor J P) (new_processor, w) cs =
     feed_processor J P (new_processor, w) (concat cs)"
  by (rule proc.feed_chunks_concat [OF new_processor_idle])

text \<open>C16. A client that sends objects without a closing brace inside them, with anything but an
  opening brace between them, gets each of them decoded, in order and once, however the bytes
  are cut into chunks; nothing but the bytes after the last object stays in the buffer.\<close>

theorem process_roundtrip:
  assumes "\<forall>(sep, body) \<in> set ms. start_char \<notin> set sep \<and> end_char \<notin> set body"
    and "start_char \<notin> set tail"
    and "concat cs = concat (map (\<lambda>(sep, body). sep @ start_char # body @ [end_char]) ms) @ tail"
  shows "feed_chunks (feed_processor J P) (new_processor, w) cs =
    (case decode_all J P (map (\<lambda>(sep, body). start_char # body @ [end_char]) ms) w of
       (Inr es, w') \<Rightarrow> Some (es, \<lparr>m_current = tail\<rparr>, w')
     | (Inl f, w') \<Rightarrow> None)"
proof -
  have "cutting (concat cs) (map (\<lambda>(sep, body). start_char # body @ [end_char]) ms) tail"
    using cutting_wire [OF assms(1,2)] by (simp only: assms(3))
  from feed_new_processor [OF this] show ?thesis by (simp only: feed_chunks_new_processor)
qed

theorem process_roundtrip_witness:
  "\<exists>es. map_option fst (feed_chunks (feed_processor sample_json sample_platform)
       (new_processor, sample_world) [''ab{'', quoted ''!m!:!x!'', ''}c{}d'']) = Some es \<and>
     map elem_message es = [''[] [:] [::] x'', ''[] [:] [::] '']"
proof -
  let ?ms = "[(''ab'', quoted ''!m!:!x!''), (''c'', [])]"
  let ?cs = "[''ab{'', quoted ''!m!:!x!'', ''}c{}d'']"
  have seps: "\<forall>(sep, body) \<in> set ?ms. start_char \<notin> set sep \<and> end_char \<notin> set body" by code_simp
  have tail: "start_char \<notin> set ''d''" by code_simp
  have cs: "concat ?cs
      = concat (map (\<lambda>(sep, body). sep @ start_char # body @ [end_char]) ?ms) @ ''d''"
    by code_simp
  have eval: "fst (decode_all sample_json sample_platform
        (map (\<lambda>(sep, body). start_char # body @ [end_char]) ?ms) sample_world)
      = Inr [mk_element 100 trace ''[] [:] [::] x'', mk_element 101 trace ''[] [:] [::] '']"
    by code_simp
  show ?thesis
    using process_roundtrip [OF seps tail cs, of sample_json sample_platform sample_world] eval
    by (auto split: prod.splits sum.splits)
qed

text \<open>C37. An object that does not parse costs nothing but itself: it is reported by one critical
  element that carries the parser's message and the current time, and the objects after it are
  processed as if it had not been there (but for that clock reading).\<close>

theorem process_isolates_bad_object:
  assumes "fmt_positional J" and "start_char \<notin> set junk" and "end_char \<notin> set body"
    and "json_parse J (start_char # body @ [end_char]) = Inl (Raise ex)" and "what ex = Some msg"
  shows "feed_processor J P (new_processor, w) (junk @ start_char # body @ end_char # rest) =
    (case feed_processor J P (new_processor, snd (log_clock_now w)) rest of
       None \<Rightarrow> None
     | Some (es, s') \<Rightarrow>
         Some (mk_element (wall w (reads w)) critical (''Scriptor Json Parse Error: '' @ msg) # es,
           s'))"
proof -
  have d: "decode J P (start_char # body @ [end_char]) w =
      (Inr (mk_element (wall w (reads w)) critical (''Scriptor Json Parse Error: '' @ msg)),
       snd (log_clock_now w))"
    using assms(1,4,5)
    by (simp add: decode_def from_json_Inl_parse fmt_positional_def log_clock_now_def)
  have c: "cutting (junk @ start_char # body @ end_char # rest)
      ((start_char # body @ [end_char]) # fst (frames rest)) (snd (frames rest))"
    using assms(2,3) cut_frames [of rest] by (rule cut_object)
  show ?thesis
    unfolding feed_new_processor [OF c] feed_new_processor [OF cut_frames [of rest]] decode_all.simps d
    by (auto split: prod.splits sum.splits)
qed

theorem process_isolates_bad_object_witness:
  "\<exists>es. map_option fst (feed_processor sample_json sample_platform (new_processor, sample_world)
       (''{oops}{'' @ quoted ''!m!:!x!'' @ ''}'')) = Some es \<and>
     map elem_level es = [critical, trace] \<and>
     elem_message (hd es) = ''Scriptor Json Parse Error: parse error''"
proof -
  have junk: "start_char \<notin> set []" and body: "end_char \<notin> set ''oops''"
    by (simp_all add: start_char_def end_char_def)
  have bad: "json_parse sample_json (start_char # ''oops'' @ [end_char])
      = Inl (Raise (Library_error ''parse error''))"
    by code_simp
  have eval: "map_option fst (feed_processor sample_json sample_platform
        (new_processor, snd (log_clock_now sample_world)) (''{'' @ quoted ''!m!:!x!'' @ ''}''))
      = Some [mk_element 101 trace ''[] [:] [::] x'']"
    by code_simp
  have "''{oops}{'' @ quoted ''!m!:!x!'' @ ''}''
      = [] @ start_char # ''oops'' @ end_char # ''{'' @ quoted ''!m!:!x!'' @ ''}''"
    by (simp add: start_char_def end_char_def)
  then show ?thesis
    using process_isolates_bad_object [OF sample_fmt_positional junk body bad, of "''parse error''"
        sample_platform sample_world "''{'' @ quoted ''!m!:!x!'' @ ''}''"] eval
    by (auto split: option.splits)
qed

text \<open>The call operator returns, and without an exception, whatever bytes arrive, as long as
  every failure of the conversion of an object is an exception derived from
  \<^verbatim>\<open>std::exception\<close>.\<close>

theorem process_returns:
  assumes "fmt_positional J"
    and "\<forall>t \<in> set (fst (frames (m_current p @ data))). \<forall>w f.
      fst (from_json J P t w) = Inl f \<longrightarrow> caught_std f \<noteq> None"
  shows "\<exists>es p' w'. process J P p w data = (Inr es, p', w')"
proof -
  have step: "\<exists>e w'. decode J P t w = (Inr e, w')"
    if "\<forall>w f. fst (from_json J P t w) = Inl f \<longrightarrow> caught_std f \<noteq> None" for t w
  proof (cases "from_json J P t w")
    case (Pair r w1)
    show ?thesis
    proof (cases r)
      case (Inl f)
      have "caught_std f \<noteq> None" using that [rule_format, of w f] Pair Inl by simp
      then obtain m where "caught_std f = Some m" by blast
      then show ?thesis
        using Pair Inl assms(1) by (simp add: decode_def fmt_positional_def log_clock_now_def)
    qed (use Pair in \<open>simp add: decode_def\<close>)
  qed
  have "\<exists>es w'. decode_all J P ts w = (Inr es, w')"
    if "\<forall>t \<in> set ts. \<forall>w f. fst (from_json J P t w) = Inl f \<longrightarrow> caught_std f \<noteq> None" for ts w
    using that
  proof (induction ts arbitrary: w)
    case (Cons t ts)
    obtain e w1 where e: "decode J P t w = (Inr e, w1)" using step Cons.prems by fastforce
    obtain es w2 where "decode_all J P ts w1 = (Inr es, w2)" using Cons by fastforce
    then show ?case using e by simp
  qed simp
  from this [OF assms(2)] show ?thesis by (metis process_Inr_iff)
qed

theorem process_returns_witness:
  "\<exists>es p' w'. process sample_json sample_platform new_processor sample_world ''x{}y{'' = (Inr es, p', w')"
proof -
  have "fst (frames (m_current new_processor @ ''x{}y{'')) = [''{}'']" by code_simp
  moreover have "json_parse sample_json ''{}'' = Inr (JObj [])" by code_simp
  then have "is_ok (fst (from_json sample_json sample_platform ''{}'' w))" for w
    by (simp add: from_json_def read_time_def log_clock_now_def read_level_def sample_json_def
        read_message_def sample_platform_def find_string_def)
  then have "fst (from_json sample_json sample_platform ''{}'' w) \<noteq> Inl f" for w f
    by (metis is_ok_simps(2))
  ultimately show ?thesis
    by (intro process_returns [OF sample_fmt_positional]) simp
qed

text \<open>Bytes that precede no object are never discarded: a client that sends no opening brace
  makes the buffer grow by every byte it sends, without bound.\<close>

theorem process_retains_junk:
  assumes "start_char \<notin> set (concat cs)"
  shows "feed_chunks (feed_processor J P) (new_processor, w) cs =
    Some ([], \<lparr>m_current = concat cs\<rparr>, w)"
proof -
  have "cutting (concat cs) [] (concat cs)" using assms by (rule cut_none)
  from feed_new_processor [OF this] show ?thesis by (simp add: feed_chunks_new_processor)
qed

theorem process_retains_junk_witness:
  "feed_chunks (feed_processor sample_json sample_platform) (new_processor, sample_world)
     (replicate 3 ''abcd'') = Some ([], \<lparr>m_current = ''abcdabcdabcd''\<rparr>, sample_world)"
  using process_retains_junk [of "replicate 3 ''abcd''" sample_json sample_platform sample_world]
  by (simp add: start_char_def numeral_3_eq_3)

text \<open>A closing brace inside a string of an object ends it: what is parsed is the text up to
  that brace, and the rest of the object stays in the buffer as bytes of no object.\<close>

theorem process_cuts_at_inner_brace:
  assumes "end_char \<notin> set body1" and "start_char \<notin> set body2"
    and "decode J P (start_char # body1 @ [end_char]) w = (Inr e, w')"
  shows "feed_processor J P (new_processor, w) (start_char # body1 @ end_char # body2 @ [end_char])
    = Some ([e], \<lparr>m_current = body2 @ [end_char]\<rparr>, w')"
proof -
  have rest: "cutting (body2 @ [end_char]) [] (body2 @ [end_char])"
    using assms(2) by (intro cut_none) simp
  have "cutting ([] @ start_char # body1 @ end_char # body2 @ [end_char])
      [start_char # body1 @ [end_char]] (body2 @ [end_char])"
    using assms(1) rest by (intro cut_object) simp_all
  then show ?thesis using assms(3) by (simp add: feed_new_processor)
qed

theorem process_cuts_at_inner_brace_witness:
  "\<exists>e s'. feed_processor sample_json sample_platform (new_processor, sample_world)
       (quoted ''{!m!:!f(){}!}'') = Some ([e], s') \<and> elem_level e = critical \<and>
     m_current (fst s') = quoted ''!}''"
proof -
  have b1: "end_char \<notin> set (quoted ''!m!:!f(){'')" and b2: "start_char \<notin> set (quoted ''!'')"
    by code_simp+
  have eval: "fst (decode sample_json sample_platform
        (start_char # quoted ''!m!:!f(){'' @ [end_char]) sample_world)
      = Inr (mk_element 100 critical ''Scriptor Json Parse Error: parse error'')"
    by code_simp
  have eq: "quoted ''{!m!:!f(){}!}''
      = start_char # quoted ''!m!:!f(){'' @ end_char # quoted ''!'' @ [end_char]"
    by code_simp
  obtain w' where d: "decode sample_json sample_platform
      (start_char # quoted ''!m!:!f(){'' @ [end_char]) sample_world
      = (Inr (mk_element 100 critical ''Scriptor Json Parse Error: parse error''), w')"
    using eval by (metis prod.collapse)
  have "quoted ''!}'' = quoted ''!'' @ [end_char]" by code_simp
  then show ?thesis
    unfolding eq process_cuts_at_inner_brace [OF b1 b2 d] by simp
qed

end
