(* ===== verification/Session.thy ===== *)
theory Session
  imports Processor
begin

text \<open>
  \<^verbatim>\<open>Socket\<close> (\<^verbatim>\<open>src/src/socket.h\<close>, \<^verbatim>\<open>src/src/socket.cpp\<close>) and \<^verbatim>\<open>Session\<close>
  (\<^verbatim>\<open>src/src/session.h\<close>, \<^verbatim>\<open>src/src/session.cpp\<close>). The networking library is outside the
  sources: of a connection the model keeps how many reads are outstanding; that one of them
  completes, and with what bytes or error, is an event. A completed read of \<open>n\<close> bytes has
  written them to the front of the buffer it was given, and \<open>n\<close> is at most the size of the
  buffer. The model has the handler of a completion twice: as one step (\<open>on_read\<close>) and, for
  the question which thread may touch the session when, as its start, its decoding of the
  bytes and its end (\<open>session_step\<close>).
\<close>

section \<open>Sockets\<close>

datatype socket_kind = UnixSocket | TcpSocket

record Socket =
  sock_kind :: socket_kind
  outstanding_reads :: nat

definition new_socket :: "socket_kind \<Rightarrow> Socket" where
  "new_socket k = \<lparr>sock_kind = k, outstanding_reads = 0\<rparr>"

text \<open>Both kinds forward the call to the socket of the library they own.\<close>

definition async_read_some :: "Socket \<Rightarrow> Socket" where
  "async_read_some s = s\<lparr>outstanding_reads := outstanding_reads s + 1\<rparr>"

definition read_completed :: "Socket \<Rightarrow> Socket" where
  "read_completed s = s\<lparr>outstanding_reads := outstanding_reads s - 1\<rparr>"

section \<open>Sessions\<close>

record Session =
  m_socket :: Socket
  m_buffer :: string
  m_processor :: Processor

definition buffer_size :: nat where
  "buffer_size = 1024"

text \<open>A new session; the array of the buffer has no initial value, \<open>junk\<close> stands for it.\<close>

definition new_session :: "Socket \<Rightarrow> string \<Rightarrow> Session" where
  "new_session sock junk =
     \<lparr>m_socket = sock, m_buffer = junk, m_processor = new_processor\<rparr>"

definition session_read :: "Session \<Rightarrow> Session" where
  "session_read s = s\<lparr>m_socket := async_read_some (m_socket s)\<rparr>"

text \<open>What the library has done when a read completes, before the handler runs.\<close>

datatype read_result = Read_ok string | Read_error

fun deliver :: "Session \<Rightarrow> read_result \<Rightarrow> Session" where
  "deliver s (Read_ok data) =
     s\<lparr>m_socket := read_completed (m_socket s), m_buffer := data @ drop (length data) (m_buffer s)\<rparr>"
| "deliver s Read_error = s\<lparr>m_socket := read_completed (m_socket s)\<rparr>"

lemma session_read_sel [simp]:
  "m_processor (session_read s) = m_processor s"
  "outstanding_reads (m_socket (session_read s)) = outstanding_reads (m_socket s) + 1"
  by (simp_all add: session_read_def async_read_some_def)

lemma deliver_sel [simp]:
  "m_processor (deliver s ev) = m_processor s"
  "outstanding_reads (m_socket (deliver s ev)) = outstanding_reads (m_socket s) - 1"
  by (cases ev; simp add: read_completed_def)+

text \<open>
  The handler, given the number of bytes read (\<open>None\<close>: an error code). Its result is the calls
  of \<open>m_push\<close> it makes. A failure leaves the handler and ends the thread that runs it.
\<close>

definition handler ::
    "'j json_ops \<Rightarrow> platform \<Rightarrow> Session \<Rightarrow> world \<Rightarrow> nat option \<Rightarrow>
     Element list list res \<times> Session \<times> world" where
  "handler J P s w ev = (case ev of
       None \<Rightarrow> (Inr [], s, w)
     | Some n \<Rightarrow>
         (case process J P (m_processor s) w (take n (m_buffer s)) of
            (Inl f, p', w') \<Rightarrow> (Inl f, s\<lparr>m_processor := p'\<rparr>, w')
          | (Inr elements, p', w') \<Rightarrow>
              (Inr (if elements \<noteq> [] then [elements] else []),
               session_read (s\<lparr>m_processor := p'\<rparr>), w')))"

fun transferred :: "read_result \<Rightarrow> nat option" where
  "transferred (Read_ok data) = Some (length data)"
| "transferred Read_error = None"

definition on_read ::
    "'j json_ops \<Rightarrow> platform \<Rightarrow> Session \<Rightarrow> world \<Rightarrow> read_result \<Rightarrow>
     Element list list res \<times> Session \<times> world" where
  "on_read J P s w ev = handler J P (deliver s ev) w (transferred ev)"

text \<open>A sequence of completed reads of one session, with all the batches it pushes.\<close>

fun session_run ::
    "'j json_ops \<Rightarrow> platform \<Rightarrow> Session \<Rightarrow> world \<Rightarrow> read_result list \<Rightarrow>
     (Element list list \<times> Session \<times> world) option" where
  "session_run J P s w [] = Some ([], s, w)"
| "session_run J P s w (ev # evs) =
     (case on_read J P s w ev of
        (Inl f, s', w') \<Rightarrow> None
      | (Inr bs, s', w') \<Rightarrow>
          map_option (\<lambda>(bs', s'', w''). (bs @ bs', s'', w'')) (session_run J P s' w' evs))"

lemma on_read_ok:
  "on_read J P s w (Read_ok c) =
     (case process J P (m_processor s) w c of
        (Inl f, p', w') \<Rightarrow> (Inl f, (deliver s (Read_ok c))\<lparr>m_processor := p'\<rparr>, w')
      | (Inr es, p', w') \<Rightarrow>
          (Inr (if es \<noteq> [] then [es] else []),
           session_read ((deliver s (Read_ok c))\<lparr>m_processor := p'\<rparr>), w'))"
  by (simp add: on_read_def handler_def split: prod.splits sum.splits)

lemma on_read_error: "on_read J P s w Read_error = (Inr [], deliver s Read_error, w)"
  by (simp add: on_read_def handler_def)

lemma session_run_snoc:
  assumes "session_run J P s w evs = Some (bs, s1, w1)" and "on_read J P s1 w1 ev = (Inr bs', s2, w2)"
  shows "session_run J P s w (evs @ [ev]) = Some (bs @ bs', s2, w2)"
  using assms
  by (induction evs arbitrary: s w bs) (auto split: prod.splits sum.splits)

lemma session_run_feed:
  "map_option (\<lambda>(bs, s', w'). (concat bs, m_processor s', w'))
     (session_run J P s w (map Read_ok cs)) =
     feed_chunks (feed_processor J P) (m_processor s, w) cs"
proof (induction cs arbitrary: s w)
  case Nil
  then show ?case by simp
next
  case (Cons c cs)
  show ?case
  proof (cases "process J P (m_processor s) w c")
    case (fields r p' w')
    show ?thesis
    proof (cases r)
      case (Inl f)
      then show ?thesis using fields by (simp add: on_read_ok feed_processor_def)
    next
      case (Inr es)
      let ?s' = "session_read ((deliver s (Read_ok c))\<lparr>m_processor := p'\<rparr>)"
      have "m_processor ?s' = p'" by (simp add: session_read_def)
      then have IH: "feed_chunks (feed_processor J P) (p', w') cs =
          map_option (\<lambda>(bs, s', w'). (concat bs, m_processor s', w'))
            (session_run J P ?s' w' (map Read_ok cs))"
        using Cons.IH [of ?s' w'] by simp
      have step: "on_read J P s w (Read_ok c) = (Inr (if es \<noteq> [] then [es] else []), ?s', w')"
        and feed: "feed_processor J P (m_processor s, w) c = Some (es, p', w')"
        using fields Inr by (simp_all add: on_read_ok feed_processor_def)
      have run: "session_run J P s w (map Read_ok (c # cs)) =
          map_option (\<lambda>(bs', s'', w''). ((if es \<noteq> [] then [es] else []) @ bs', s'', w''))
            (session_run J P ?s' w' (map Read_ok cs))"
        by (simp only: list.map session_run.simps step sum.case prod.case)
      show ?thesis
        unfolding run feed_chunks.simps feed option.case prod.case IH
        by (cases "session_run J P ?s' w' (map Read_ok cs)") auto
    qed
  qed
qed

lemma session_run_nonempty:
  "session_run J P s w evs = Some (bs, s', w') \<Longrightarrow> [] \<notin> set bs"
proof (induction evs arbitrary: s w bs)
  case Nil
  then show ?case by simp
next
  case (Cons ev evs)
  then show ?case
    by (cases ev) (auto simp: on_read_ok on_read_error split: prod.splits sum.splits if_splits)
qed

section \<open>Who touches the session when\<close>

text \<open>
  The handlers of one session run on any of the threads of the server. Here a handler starts
  (\<open>dispatch\<close>), decodes (\<open>decode\<close>, \<open>crash\<close>) and ends (\<open>finish\<close>, \<open>finish_error\<close>) in separate
  steps, and \<open>running\<close> lists the handlers that have started and not ended, each with the number
  of bytes it was given (\<open>None\<close>: an error code) or the elements it has decoded. The new read is
  requested by the last action of the handler. The clock is shared with the other sessions,
  so that a handler may find any reading of it. \<open>completed\<close> and \<open>batches\<close> are histories.
\<close>

datatype stage = Started "nat option" | Decoded "Element list"

record session_sys =
  sess :: Session
  running :: "stage list"
  completed :: "read_result list"
  batches :: "Element list list"
  crashed :: bool

definition start_session :: "Socket \<Rightarrow> string \<Rightarrow> session_sys" where
  "start_session sock junk =
     \<lparr>sess = session_read (new_session sock junk), running = [], completed = [],
      batches = [], crashed = False\<rparr>"

inductive session_step ::
    "'j json_ops \<Rightarrow> platform \<Rightarrow> session_sys \<Rightarrow> session_sys \<Rightarrow> bool" for J P where
  dispatch: "0 < outstanding_reads (m_socket (sess y)) \<Longrightarrow>
     (\<And>data. ev = Read_ok data \<Longrightarrow> length data \<le> buffer_size) \<Longrightarrow>
     session_step J P y
       (y\<lparr>sess := deliver (sess y) ev, running := running y @ [Started (transferred ev)],
         completed := completed y @ [ev]\<rparr>)"
| finish_error: "running y = hs @ Started None # hs' \<Longrightarrow> session_step J P y (y\<lparr>running := hs @ hs'\<rparr>)"
| decode: "running y = hs @ Started (Some n) # hs' \<Longrightarrow>
     process J P (m_processor (sess y)) w (take n (m_buffer (sess y))) = (Inr es, p', w') \<Longrightarrow>
     session_step J P y
       (y\<lparr>sess := (sess y)\<lparr>m_processor := p'\<rparr>, running := hs @ Decoded es # hs'\<rparr>)"
| crash: "running y = hs @ Started (Some n) # hs' \<Longrightarrow>
     process J P (m_processor (sess y)) w (take n (m_buffer (sess y))) = (Inl f, p', w') \<Longrightarrow>
     session_step J P y
       (y\<lparr>sess := (sess y)\<lparr>m_processor := p'\<rparr>, running := hs @ hs', crashed := True\<rparr>)"
| finish: "running y = hs @ Decoded es # hs' \<Longrightarrow>
     session_step J P y
       (y\<lparr>sess := session_read (sess y), running := hs @ hs',
         batches := batches y @ (if es \<noteq> [] then [es] else [])\<rparr>)"

inductive session_reachable ::
    "'j json_ops \<Rightarrow> platform \<Rightarrow> session_sys \<Rightarrow> session_sys \<Rightarrow> bool" for J P where
  here: "session_reachable J P y y"
| there: "session_reachable J P y z \<Longrightarrow> session_step J P z z' \<Longrightarrow> session_reachable J P y z'"

lemma session_reachable_steps: "session_reachable J P y z \<longleftrightarrow> (session_step J P)\<^sup>*\<^sup>* y z"
proof
  show "session_reachable J P y z \<Longrightarrow> (session_step J P)\<^sup>*\<^sup>* y z"
    by (induction rule: session_reachable.induct) (auto intro: rtranclp.rtrancl_into_rtrancl)
  show "(session_step J P)\<^sup>*\<^sup>* y z \<Longrightarrow> session_reachable J P y z"
    by (induction rule: rtranclp_induct) (auto intro: session_reachable.intros)
qed

definition session_inv :: "session_sys \<Rightarrow> bool" where
  "session_inv y \<longleftrightarrow>
     outstanding_reads (m_socket (sess y)) + length (running y) \<le> 1 \<and>
     length (m_buffer (sess y)) = buffer_size \<and>
     (\<forall>n. Started (Some n) \<in> set (running y) \<longrightarrow> n \<le> buffer_size)"

lemma session_step_inv: "session_step J P y z \<Longrightarrow> session_inv y \<Longrightarrow> session_inv z"
proof (induction rule: session_step.induct)
  case (dispatch y ev)
  then have "running y = []" by (cases "running y") (auto simp: session_inv_def)
  with dispatch show ?case by (cases ev) (auto simp: session_inv_def read_completed_def)
qed (auto simp: session_inv_def session_read_def async_read_some_def)

lemma session_reachable_inv: "session_reachable J P y z \<Longrightarrow> session_inv y \<Longrightarrow> session_inv z"
  by (induction rule: session_reachable.induct) (auto intro: session_step_inv)

lemma start_session_inv:
  "outstanding_reads sock = 0 \<Longrightarrow> length junk = buffer_size \<Longrightarrow>
   session_inv (start_session sock junk)"
  by (simp add: session_inv_def start_session_def session_read_def new_session_def
      async_read_some_def)

section \<open>Handlers are sequential\<close>

text \<open>A sequence of completed reads, each handled at its own reading of the shared clock.\<close>

fun session_run_at ::
    "'j json_ops \<Rightarrow> platform \<Rightarrow> Session \<Rightarrow> (world \<times> read_result) list \<Rightarrow>
     (Element list list \<times> Session) option" where
  "session_run_at J P s [] = Some ([], s)"
| "session_run_at J P s ((w, ev) # evs) =
     (case on_read J P s w ev of
        (Inl f, s', w') \<Rightarrow> None
      | (Inr bs, s', w') \<Rightarrow>
          map_option (\<lambda>(bs', s''). (bs @ bs', s'')) (session_run_at J P s' evs))"

lemma session_run_at_snoc:
  assumes "session_run_at J P s evs = Some (bs, s1)" and "on_read J P s1 w ev = (Inr bs', s2, w2)"
  shows "session_run_at J P s (evs @ [(w, ev)]) = Some (bs @ bs', s2)"
  using assms
  by (induction evs arbitrary: s bs) (auto split: prod.splits sum.splits)

lemma session_run_has_clocks:
  "session_run J P s w evs = Some (bs, s', w') \<Longrightarrow>
   \<exists>ws. length ws = length evs \<and> session_run_at J P s (zip ws evs) = Some (bs, s')"
proof (induction evs arbitrary: s w bs)
  case (Cons ev evs)
  then obtain bs1 s1 w1 bs2 where step: "on_read J P s w ev = (Inr bs1, s1, w1)"
    and rest: "session_run J P s1 w1 evs = Some (bs2, s', w')" and bs: "bs = bs1 @ bs2"
    by (auto split: prod.splits sum.splits)
  then obtain ws where "length ws = length evs" "session_run_at J P s1 (zip ws evs) = Some (bs2, s')"
    using Cons.IH by blast
  then show ?case using step bs by (intro exI [of _ "w # ws"]) simp
qed simp

text \<open>
  Because a handler requests the next read only when it is done, an execution on many threads
  is one of the sequential runs: the reads completed so far, in their order, explain the state,
  and at most one handler is under way.
\<close>

definition explained ::
    "'j json_ops \<Rightarrow> platform \<Rightarrow> Session \<Rightarrow> session_sys \<Rightarrow> (world \<times> read_result) list \<Rightarrow> bool" where
  "explained J P s0 z evs \<longleftrightarrow>
     (\<exists>s. session_run_at J P s0 evs = Some (batches z, s) \<and>
        ((running z = [] \<and> completed z = map snd evs \<and> sess z = s) \<or>
         (\<exists>ev. running z = [Started (transferred ev)] \<and> completed z = map snd evs @ [ev] \<and>
            sess z = deliver s ev) \<or>
         (\<exists>w data es p' w'. process J P (m_processor s) w data = (Inr es, p', w') \<and>
            running z = [Decoded es] \<and> completed z = map snd evs @ [Read_ok data] \<and>
            sess z = (deliver s (Read_ok data))\<lparr>m_processor := p'\<rparr>)))"

lemma transferred_buffer:
  "transferred ev = Some n \<Longrightarrow> \<exists>data. ev = Read_ok data \<and> take n (m_buffer (deliver s ev)) = data"
  by (cases ev) auto

lemma single_running: "hs @ h # hs' = [h'] \<Longrightarrow> hs = [] \<and> hs' = [] \<and> h = h'"
  by (cases hs) auto

lemma session_step_explained:
  assumes "session_step J P z z'" and "session_inv z" and "explained J P s0 z evs"
    and "\<not> crashed z'"
  shows "\<exists>evs'. explained J P s0 z' evs'"
  using assms
proof (induction rule: session_step.induct)
  case (dispatch z ev)
  then have "running z = []" by (cases "running z") (auto simp: session_inv_def)
  with dispatch have "explained J P s0
      (z\<lparr>sess := deliver (sess z) ev, running := running z @ [Started (transferred ev)],
        completed := completed z @ [ev]\<rparr>) evs"
    by (auto simp: explained_def)
  then show ?case by blast
next
  case (finish_error z hs hs')
  then obtain s ev where run: "session_run_at J P s0 evs = Some (batches z, s)"
    and r: "hs = []" "hs' = []" and ev: "None = transferred ev" "sess z = deliver s ev"
      "completed z = map snd evs @ [ev]"
    unfolding explained_def by (auto dest: single_running)
  have "ev = Read_error" using ev(1) by (cases ev) auto
  then have "session_run_at J P s0 (evs @ [(w, ev)]) = Some (batches z @ [], sess z)" for w
    using session_run_at_snoc [OF run] ev(2) by (simp add: on_read_error)
  then show ?case using r ev(3) unfolding explained_def by force
next
  case (decode z hs n hs' w es p' w')
  then obtain s ev where run: "session_run_at J P s0 evs = Some (batches z, s)"
    and r: "hs = []" "hs' = []" and ev: "Some n = transferred ev" "sess z = deliver s ev"
      "completed z = map snd evs @ [ev]"
    unfolding explained_def by (auto dest: single_running)
  obtain data where data: "ev = Read_ok data" "take n (m_buffer (sess z)) = data"
    using transferred_buffer [OF ev(1) [symmetric]] ev(2) by metis
  have "process J P (m_processor s) w data = (Inr es, p', w')"
    using decode(2) data ev(2) by simp
  then have "explained J P s0
      (z\<lparr>sess := (sess z)\<lparr>m_processor := p'\<rparr>, running := hs @ Decoded es # hs'\<rparr>) evs"
    using run r ev(2,3) data(1) by (auto simp: explained_def)
  then show ?case by blast
next
  case (finish z hs es hs')
  then obtain s w data p' w' where run: "session_run_at J P s0 evs = Some (batches z, s)"
    and r: "hs = []" "hs' = []" and p: "process J P (m_processor s) w data = (Inr es, p', w')"
    and z: "sess z = (deliver s (Read_ok data))\<lparr>m_processor := p'\<rparr>"
      "completed z = map snd evs @ [Read_ok data]"
    unfolding explained_def by (auto dest: single_running)
  have "on_read J P s w (Read_ok data) = (Inr (if es \<noteq> [] then [es] else []), session_read (sess z), w')"
    using p z(1) by (simp add: on_read_ok)
  from session_run_at_snoc [OF run this] show ?case using r z(2) unfolding explained_def by force
qed simp

lemma session_step_crashed: "session_step J P y z \<Longrightarrow> crashed y \<Longrightarrow> crashed z"
  by (induction rule: session_step.induct) auto

lemma session_reachable_explained:
  "session_reachable J P y z \<Longrightarrow> session_inv y \<Longrightarrow> running y = [] \<Longrightarrow> batches y = [] \<Longrightarrow>
   completed y = [] \<Longrightarrow> \<not> crashed z \<Longrightarrow> \<exists>evs. explained J P (sess y) z evs"
proof (induction rule: session_reachable.induct)
  case (here y)
  then have "explained J P (sess y) y []" by (simp add: explained_def)
  then show ?case by blast
next
  case (there y z z')
  then have "\<not> crashed z" using session_step_crashed by blast
  with there obtain evs where "explained J P (sess y) z evs" by blast
  with there show ?case by (metis session_step_explained session_reachable_inv)
qed

lemma session_sequential:
  assumes "session_reachable J P (start_session sock junk) z"
    and "outstanding_reads sock = 0" and "length junk = buffer_size"
    and "\<not> crashed z" and "running z = []"
  shows "\<exists>ws. length ws = length (completed z) \<and>
    session_run_at J P (session_read (new_session sock junk)) (zip ws (completed z)) =
      Some (batches z, sess z)"
proof -
  have "running (start_session sock junk) = [] \<and> batches (start_session sock junk) = [] \<and>
      completed (start_session sock junk) = []" by (simp add: start_session_def)
  then obtain evs where "explained J P (sess (start_session sock junk)) z evs"
    using session_reachable_explained [OF assms(1) start_session_inv [OF assms(2,3)]] assms(4) by blast
  then show ?thesis
    using assms(5) zip_map_fst_snd [of evs]
    by (intro exI [of _ "map fst evs"]) (auto simp: explained_def start_session_def)
qed

section \<open>Properties\<close>

text \<open>C5. A session hands on exactly what the processor makes of the stream: the batches it pushes,
  none of them empty, are put together the elements of all bytes read, in order and however
  the reads cut them; and it fails exactly when the processor does.\<close>

theorem session_delivers:
  "case session_run J P (session_read (new_session sock junk)) w (map Read_ok cs) of
     None \<Rightarrow> feed_processor J P (new_processor, w) (concat cs) = None
   | Some (bs, s', w') \<Rightarrow>
       feed_processor J P (new_processor, w) (concat cs) = Some (concat bs, m_processor s', w') \<and>
       [] \<notin> set bs"
proof -
  let ?run = "session_run J P (session_read (new_session sock junk)) w (map Read_ok cs)"
  have "map_option (\<lambda>(bs, s', w'). (concat bs, m_processor s', w')) ?run =
      feed_processor J P (new_processor, w) (concat cs)"
    by (simp add: session_run_feed session_read_def new_session_def feed_chunks_new_processor)
  then show ?thesis
    by (cases ?run) (auto dest: session_run_nonempty)
qed

text \<open>C25. At no time are there two handlers of one session under way, nor a handler and an
  outstanding read that writes into the buffer the handler reads; and no read writes past the
  end of the buffer, nor does a handler read past it. This holds although the handlers run on
  several threads without a lock.\<close>

theorem session_exclusive:
  assumes "session_reachable J P (start_session sock junk) z"
    and "outstanding_reads sock = 0" and "length junk = buffer_size"
  shows "outstanding_reads (m_socket (sess z)) + length (running z) \<le> 1 \<and>
    length (m_buffer (sess z)) = buffer_size \<and>
    (\<forall>n. Started (Some n) \<in> set (running z) \<longrightarrow> n \<le> buffer_size)"
  using session_reachable_inv [OF assms(1) start_session_inv [OF assms(2,3)]]
  by (auto simp: session_inv_def)

theorem session_exclusive_witness:
  "\<exists>z. session_reachable sample_json sample_platform
       (start_session (new_socket UnixSocket) (replicate buffer_size (CHR ''x''))) z \<and>
     running z = [Started (Some 2)] \<and> length (m_buffer (sess z)) = buffer_size \<and>
     outstanding_reads (m_socket (sess z)) + length (running z) \<le> 1"
proof -
  let ?y = "start_session (new_socket UnixSocket) (replicate buffer_size (CHR ''x''))"
  let ?z = "?y\<lparr>sess := deliver (sess ?y) (Read_ok ''{}''),
      running := running ?y @ [Started (transferred (Read_ok ''{}''))],
      completed := completed ?y @ [Read_ok ''{}'']\<rparr>"
  have "session_step sample_json sample_platform ?y ?z"
    by (rule session_step.dispatch)
      (auto simp: start_session_def session_read_def new_session_def async_read_some_def
        buffer_size_def)
  then have reach: "session_reachable sample_json sample_platform ?y ?z"
    by (rule session_reachable.there [OF session_reachable.here])
  have sock: "outstanding_reads (new_socket UnixSocket) = 0" by (simp add: new_socket_def)
  have "running ?z = [Started (Some 2)]" by (simp add: start_session_def)
  then show ?thesis
    using reach session_exclusive [OF reach sock length_replicate] by blast
qed

text \<open>Whatever the threads do, a session without a crash is in the state that a sequential run of
  its handlers on the reads completed so far reaches, each at some reading of the clock, with
  the same batches pushed in the same order.\<close>

theorem session_linearizable:
  assumes "session_reachable J P (start_session sock junk) z"
    and "outstanding_reads sock = 0" and "length junk = buffer_size"
    and "\<not> crashed z" and "running z = []"
  shows "\<exists>ws. length ws = length (completed z) \<and>
    session_run_at J P (session_read (new_session sock junk)) (zip ws (completed z)) =
      Some (batches z, sess z)"
  using assms by (rule session_sequential)

theorem session_linearizable_witness:
  "\<exists>w s. session_run_at sample_json sample_platform
     (session_read (new_session (new_socket TcpSocket) (replicate buffer_size (CHR ''x''))))
     [(w, Read_ok ''{}'')] = Some ([[mk_element 100 trace ''[] [:] [::] '']], s)"
proof -
  let ?step = "session_step sample_json sample_platform"
  let ?y = "start_session (new_socket TcpSocket) (replicate buffer_size (CHR ''x''))"
  let ?d = "?y\<lparr>sess := deliver (sess ?y) (Read_ok ''{}''),
      running := running ?y @ [Started (transferred (Read_ok ''{}''))],
      completed := completed ?y @ [Read_ok ''{}'']\<rparr>"
  let ?es = "[mk_element 100 trace ''[] [:] [::] '']"
  have "fst (process sample_json sample_platform (m_processor (sess ?d)) sample_world
      (take 2 (m_buffer (sess ?d)))) = Inr ?es"
    by code_simp
  then obtain p' w' where h: "process sample_json sample_platform (m_processor (sess ?d)) sample_world
      (take 2 (m_buffer (sess ?d))) = (Inr ?es, p', w')"
    by (metis prod.collapse)
  let ?e = "?d\<lparr>sess := (sess ?d)\<lparr>m_processor := p'\<rparr>, running := [] @ Decoded ?es # []\<rparr>"
  let ?f = "?e\<lparr>sess := session_read (sess ?e), running := [] @ [],
      batches := batches ?e @ (if ?es \<noteq> [] then [?es] else [])\<rparr>"
  have "?step ?y ?d"
    by (rule session_step.dispatch)
      (auto simp: start_session_def session_read_def new_session_def async_read_some_def
        buffer_size_def)
  moreover have "?step ?d ?e"
    by (rule session_step.decode [OF _ h]) (simp add: start_session_def)
  moreover have "?step ?e ?f" by (rule session_step.finish) simp
  ultimately have reach: "session_reachable sample_json sample_platform ?y ?f"
    by (meson session_reachable.intros)
  have sock: "outstanding_reads (new_socket TcpSocket) = 0" by (simp add: new_socket_def)
  obtain ws where "length ws = 1" and "session_run_at sample_json sample_platform
      (session_read (new_session (new_socket TcpSocket) (replicate buffer_size (CHR ''x''))))
      (zip ws [Read_ok ''{}'']) = Some ([?es], sess ?f)"
    using session_linearizable [OF reach sock length_replicate] by (auto simp: start_session_def)
  then show ?thesis by (cases ws) auto
qed

end
