(* ===== verification/Acceptor.thy ===== *)
theory Acceptor
  imports Session "HOL-Library.Word"
begin

text \<open>
  \<^verbatim>\<open>src/src/acceptor.h\<close> and \<^verbatim>\<open>src/src/acceptor.cpp\<close>: the two kinds of acceptors behind one
  interface. Of the acceptor of the networking library the model keeps how many accepts are
  outstanding; that one of them completes, and whether with an error code, is an event.
\<close>

section \<open>Acceptors\<close>

text \<open>The classes, with the endpoint they listen on; addresses are of a type of the library.\<close>

datatype 'a listener =
    UnixAcceptor string
  | TcpAcceptor 'a "16 word"

record 'a Acceptor =
  m_acceptor :: "'a listener"
  outstanding_accepts :: nat

definition new_acceptor :: "'a listener \<Rightarrow> 'a Acceptor" where
  "new_acceptor ep = \<lparr>m_acceptor = ep, outstanding_accepts = 0\<rparr>"

definition async_accept :: "'a Acceptor \<Rightarrow> 'a Acceptor" where
  "async_accept a = a\<lparr>outstanding_accepts := outstanding_accepts a + 1\<rparr>"

definition accept_completed :: "'a Acceptor \<Rightarrow> 'a Acceptor" where
  "accept_completed a = a\<lparr>outstanding_accepts := outstanding_accepts a - 1\<rparr>"

text \<open>
  What the wrapped callback passes on: the error code as it is, and the accepted connection as
  a socket of the kind of the acceptor.
\<close>

fun wrap_socket :: "'a listener \<Rightarrow> Socket" where
  "wrap_socket (UnixAcceptor file) = new_socket UnixSocket"
| "wrap_socket (TcpAcceptor address port) = new_socket TcpSocket"

definition accept_callback :: "'a Acceptor \<Rightarrow> bool \<Rightarrow> (bool \<Rightarrow> Socket \<Rightarrow> 'b) \<Rightarrow> 'b" where
  "accept_callback a ec cb = cb ec (wrap_socket (m_acceptor a))"

lemma acceptor_sel [simp]:
  "m_acceptor (async_accept a) = m_acceptor a"
  "outstanding_accepts (async_accept a) = outstanding_accepts a + 1"
  "m_acceptor (accept_completed a) = m_acceptor a"
  "outstanding_accepts (accept_completed a) = outstanding_accepts a - 1"
  "m_acceptor (new_acceptor ep) = ep"
  "outstanding_accepts (new_acceptor ep) = 0"
  by (simp_all add: async_accept_def accept_completed_def new_acceptor_def)

lemma wrap_socket_idle [simp]: "outstanding_reads (wrap_socket ep) = 0"
  by (cases ep) (simp_all add: new_socket_def)

end
