(* ===== verification/Logger.thy ===== *)
theory Logger
  imports Element Interfaces "HOL-Library.Sublist"
begin

text \<open>
  \<^verbatim>\<open>src/src/logger.h\<close> and \<^verbatim>\<open>src/src/logger.cpp\<close>: a queue of elements, filled by \<^verbatim>\<open>push\<close> and
  emptied into a sink by a thread of its own (\<^verbatim>\<open>worker\<close>). A sink is a parameter (\<open>sink_ops\<close>).
  Everything the code does while it holds the mutex is one step; between two such steps the
  worker writes to the sink one element at a time, while other threads push or start the
  destruction. The fields \<open>pushed\<close>, \<open>log_calls\<close> and \<open>errors\<close> are histories: no step
  depends on them.
\<close>

section \<open>Sinks\<close>

record 's sink_ops =
  should_log :: "'s \<Rightarrow> level_enum \<Rightarrow> bool"
  sink_log :: "'s \<Rightarrow> Element \<Rightarrow> failure option \<times> 's"
  sink_flush :: "'s \<Rightarrow> failure option \<times> 's"

text \<open>
  The documented behaviour of a sink whose level was set to the number \<open>lvl\<close> (any integer: the
  options do not restrict it), and a sink that does not throw.
\<close>

definition sink_level :: "'s sink_ops \<Rightarrow> int \<Rightarrow> bool" where
  "sink_level K lvl \<longleftrightarrow> (\<forall>s l. should_log K s l \<longleftrightarrow> lvl \<le> level_num l)"

definition sink_total :: "'s sink_ops \<Rightarrow> bool" where
  "sink_total K \<longleftrightarrow> (\<forall>s e. fst (sink_log K s e) = None) \<and> (\<forall>s. fst (sink_flush K s) = None)"

section \<open>State\<close>

text \<open>
  Where the worker is: about to evaluate the predicate of \<^verbatim>\<open>m_cv.wait\<close> with the mutex held;
  asleep in \<^verbatim>\<open>wait\<close>; in the loop over a batch, with the elements to go and \<open>count\<close>; returned;
  or ended by a failure that no handler catches, which ends the program.
\<close>

datatype worker_state =
    Checking
  | Asleep
  | Logging "Element list" nat
  | Exited
  | Crashed

text \<open>
  The destructor: not called; has set \<open>m_done\<close>; has called \<^verbatim>\<open>notify_one\<close> and waits in
  \<^verbatim>\<open>join\<close>; has returned.
\<close>

datatype dtor_state = Alive | Marked | Joining | Destroyed

record 's Logger =
  m_sink :: 's
  m_done :: bool
  m_elements :: "Element list"
  worker_at :: worker_state
  dtor_at :: dtor_state
  pushed :: "Element list"
  log_calls :: "Element list"
  errors :: "string list"

definition new_logger :: "'s \<Rightarrow> 's Logger" where
  "new_logger sink =
     \<lparr>m_sink = sink, m_done = False, m_elements = [], worker_at = Checking, dtor_at = Alive,
      pushed = [], log_calls = [], errors = []\<rparr>"

section \<open>Operations\<close>

definition notify_one :: "'s Logger \<Rightarrow> 's Logger" where
  "notify_one l = (if worker_at l = Asleep then l\<lparr>worker_at := Checking\<rparr> else l)"

text \<open>The overload for an lvalue inserts a copy of the range.\<close>

definition push_copy :: "'s Logger \<Rightarrow> Element list \<Rightarrow> 's Logger" where
  "push_copy l elements =
     notify_one (l\<lparr>m_elements := m_elements l @ elements, pushed := pushed l @ elements\<rparr>)"

text \<open>The overload for an rvalue moves the elements, one by one.\<close>

fun emplace_all :: "'s Logger \<Rightarrow> Element list \<Rightarrow> 's Logger" where
  "emplace_all l [] = l"
| "emplace_all l (e # es) =
     emplace_all (l\<lparr>m_elements := m_elements l @ [e], pushed := pushed l @ [e]\<rparr>) es"

definition push_move :: "'s Logger \<Rightarrow> Element list \<Rightarrow> 's Logger" where
  "push_move l elements = notify_one (emplace_all l elements)"

text \<open>
  The handlers of the \<^verbatim>\<open>try\<close> block of \<^verbatim>\<open>worker\<close>: the text for the error stream. Undefined
  behaviour is not caught.
\<close>

fun logger_error :: "failure \<Rightarrow> string option" where
  "logger_error (Raise ex) = Some (case what ex of
       Some txt \<Rightarrow> ''Logger Error: '' @ txt | None \<Rightarrow> ''Logger Error: Unknown'')"
| "logger_error (Undef u) = None"
| "logger_error Terminated = None"

definition fail_batch :: "'s Logger \<Rightarrow> failure \<Rightarrow> 's Logger" where
  "fail_batch l f = (case logger_error f of
       Some txt \<Rightarrow> l\<lparr>worker_at := Checking, errors := errors l @ [txt]\<rparr>
     | None \<Rightarrow> l\<lparr>worker_at := Crashed\<rparr>)"

text \<open>
  One step of the worker. The flush before it returns is outside the \<^verbatim>\<open>try\<close> block.
\<close>

definition check_step :: "'s sink_ops \<Rightarrow> 's Logger \<Rightarrow> 's Logger" where
  "check_step K l =
     (if m_done l then
        (case sink_flush K (m_sink l) of
           (None, s) \<Rightarrow> l\<lparr>m_sink := s, worker_at := Exited\<rparr>
         | (Some f, s) \<Rightarrow> l\<lparr>m_sink := s, worker_at := Crashed\<rparr>)
      else if m_elements l \<noteq> [] then
        l\<lparr>worker_at := Logging (m_elements l) 0, m_elements := []\<rparr>
      else l\<lparr>worker_at := Asleep\<rparr>)"

fun log_step :: "'s sink_ops \<Rightarrow> 's Logger \<Rightarrow> Element list \<Rightarrow> nat \<Rightarrow> 's Logger" where
  "log_step K l [] count =
     (if 0 < count then
        (case sink_flush K (m_sink l) of
           (None, s) \<Rightarrow> l\<lparr>m_sink := s, worker_at := Checking\<rparr>
         | (Some f, s) \<Rightarrow> fail_batch (l\<lparr>m_sink := s\<rparr>) f)
      else l\<lparr>worker_at := Checking\<rparr>)"
| "log_step K l (e # es) count =
     (if \<not> should_log K (m_sink l) (elem_level e) then l\<lparr>worker_at := Logging es count\<rparr>
      else
        (case sink_log K (m_sink l) e of
           (None, s) \<Rightarrow>
             l\<lparr>m_sink := s, worker_at := Logging es (Suc count), log_calls := log_calls l @ [e]\<rparr>
         | (Some f, s) \<Rightarrow> fail_batch (l\<lparr>m_sink := s, log_calls := log_calls l @ [e]\<rparr>) f))"

definition worker_step :: "'s sink_ops \<Rightarrow> 's Logger \<Rightarrow> 's Logger" where
  "worker_step K l = (case worker_at l of
       Checking \<Rightarrow> check_step K l
     | Logging es count \<Rightarrow> log_step K l es count
     | _ \<Rightarrow> l)"

text \<open>
  The steps of the threads that share a logger. \<^verbatim>\<open>wait\<close> may return without a notification
  (\<open>spurious\<close>). The destructor sets \<open>m_done\<close> under the mutex and notifies after releasing it.
\<close>

inductive logger_step :: "'s sink_ops \<Rightarrow> 's Logger \<Rightarrow> 's Logger \<Rightarrow> bool" for K where
  work: "logger_step K l (worker_step K l)"
| spurious: "worker_at l = Asleep \<Longrightarrow> logger_step K l (l\<lparr>worker_at := Checking\<rparr>)"
| push_lvalue: "dtor_at l = Alive \<Longrightarrow> logger_step K l (push_copy l es)"
| push_rvalue: "dtor_at l = Alive \<Longrightarrow> logger_step K l (push_move l es)"
| dtor_mark: "dtor_at l = Alive \<Longrightarrow> logger_step K l (l\<lparr>m_done := True, dtor_at := Marked\<rparr>)"
| dtor_notify: "dtor_at l = Marked \<Longrightarrow> logger_step K l (notify_one (l\<lparr>dtor_at := Joining\<rparr>))"
| dtor_join: "dtor_at l = Joining \<Longrightarrow> worker_at l = Exited \<Longrightarrow>
     logger_step K l (l\<lparr>dtor_at := Destroyed\<rparr>)"

inductive logger_reachable :: "'s sink_ops \<Rightarrow> 's \<Rightarrow> 's Logger \<Rightarrow> bool" for K sink where
  constructed: "logger_reachable K sink (new_logger sink)"
| stepped: "logger_reachable K sink l \<Longrightarrow> logger_step K l l' \<Longrightarrow> logger_reachable K sink l'"

section \<open>The overloads of push\<close>

lemma notify_one_sel [simp]:
  "m_sink (notify_one l) = m_sink l" "m_done (notify_one l) = m_done l"
  "m_elements (notify_one l) = m_elements l" "dtor_at (notify_one l) = dtor_at l"
  "pushed (notify_one l) = pushed l" "log_calls (notify_one l) = log_calls l"
  "errors (notify_one l) = errors l"
  "worker_at (notify_one l) = (if worker_at l = Asleep then Checking else worker_at l)"
  by (simp_all add: notify_one_def)

lemma emplace_all_eq:
  "emplace_all l es = l\<lparr>m_elements := m_elements l @ es, pushed := pushed l @ es\<rparr>"
  by (induction es arbitrary: l) simp_all

lemma push_move_eq_copy: "push_move l es = push_copy l es"
  by (simp add: push_move_def push_copy_def emplace_all_eq)

interpretation lvalue: pending_queue push_copy m_elements
  by unfold_locales (simp add: push_copy_def)

interpretation rvalue: pending_queue push_move m_elements
  by unfold_locales (simp add: push_move_eq_copy push_copy_def)

section \<open>Accounting\<close>

text \<open>What the worker has taken from the queue and not yet looked at.\<close>

fun in_batch :: "worker_state \<Rightarrow> Element list" where
  "in_batch (Logging es count) = es"
| "in_batch _ = []"

definition passes :: "int \<Rightarrow> Element list \<Rightarrow> Element list" where
  "passes lvl es = filter (\<lambda>e. lvl \<le> level_num (elem_level e)) es"

lemma passes_simps [simp]:
  "passes lvl [] = []"
  "passes lvl (es @ fs) = passes lvl es @ passes lvl fs"
  "passes lvl (e # es) = (if lvl \<le> level_num (elem_level e) then e # passes lvl es else passes lvl es)"
  by (simp_all add: passes_def)

definition accounted :: "int \<Rightarrow> 's Logger \<Rightarrow> bool" where
  "accounted lvl l \<longleftrightarrow>
     log_calls l @ passes lvl (in_batch (worker_at l)) @ passes lvl (m_elements l)
       = passes lvl (pushed l)"

definition quiet :: "'s Logger \<Rightarrow> bool" where
  "quiet l \<longleftrightarrow> worker_at l \<noteq> Crashed \<and> errors l = []"

lemma worker_step_accounted:
  assumes "sink_level K lvl" and "sink_total K" and "accounted lvl l" and "quiet l"
  shows "accounted lvl (worker_step K l) \<and> quiet (worker_step K l)"
proof (cases "worker_at l")
  case Checking
  then show ?thesis
    using assms
    by (auto simp: worker_step_def check_step_def accounted_def quiet_def sink_total_def
        split: prod.splits option.splits) (metis fst_conv option.distinct(1))+
next
  case (Logging es count)
  show ?thesis
  proof (cases es)
    case Nil
    then show ?thesis
      using assms Logging
      by (auto simp: worker_step_def accounted_def quiet_def sink_total_def
          split: prod.splits option.splits) (metis fst_conv option.distinct(1))+
  next
    case (Cons e es')
    obtain s where s: "sink_log K (m_sink l) e = (None, s)"
      using assms(2) by (metis prod.collapse sink_total_def)
    show ?thesis
      using assms Logging Cons s
      by (auto simp: worker_step_def accounted_def quiet_def sink_level_def)
  qed
qed (use assms in \<open>auto simp: worker_step_def\<close>)

lemma logger_step_accounted:
  assumes "logger_step K l l'" and "sink_level K lvl" and "sink_total K"
    and "accounted lvl l" and "quiet l"
  shows "accounted lvl l' \<and> quiet l'"
  using assms
proof (induction rule: logger_step.induct)
  case (work l)
  then show ?case by (intro worker_step_accounted)
qed (auto simp: accounted_def quiet_def push_move_eq_copy push_copy_def)

lemma logger_reachable_accounted:
  assumes "logger_reachable K sink l" and "sink_level K lvl" and "sink_total K"
  shows "accounted lvl l \<and> quiet l"
  using assms(1)
proof (induction rule: logger_reachable.induct)
  case constructed
  then show ?case by (simp add: accounted_def quiet_def new_logger_def)
next
  case (stepped l l')
  then show ?case using logger_step_accounted [OF _ assms(2,3)] by blast
qed

section \<open>Wake-ups\<close>

definition wake_inv :: "'s Logger \<Rightarrow> bool" where
  "wake_inv l \<longleftrightarrow>
     (m_done l \<longleftrightarrow> dtor_at l \<noteq> Alive) \<and>
     (worker_at l = Asleep \<longrightarrow> (m_elements l = [] \<and> \<not> m_done l) \<or> dtor_at l = Marked) \<and>
     (worker_at l = Exited \<longrightarrow> m_done l) \<and>
     (dtor_at l = Destroyed \<longrightarrow> worker_at l = Exited)"

lemma fail_batch_sel [simp]:
  "m_done (fail_batch l f) = m_done l" "m_elements (fail_batch l f) = m_elements l"
  "dtor_at (fail_batch l f) = dtor_at l" "pushed (fail_batch l f) = pushed l"
  "log_calls (fail_batch l f) = log_calls l"
  "worker_at (fail_batch l f) = (if logger_error f = None then Crashed else Checking)"
  by (simp_all add: fail_batch_def split: option.splits)

lemma worker_step_wake: "wake_inv l \<Longrightarrow> wake_inv (worker_step K l)"
proof (cases "worker_at l")
  case (Logging es count)
  then show "wake_inv l \<Longrightarrow> wake_inv (worker_step K l)"
    by (cases es) (auto simp: worker_step_def wake_inv_def split: prod.splits option.splits)
qed (auto simp: worker_step_def check_step_def wake_inv_def split: prod.splits option.splits)

lemma logger_step_wake: "logger_step K l l' \<Longrightarrow> wake_inv l \<Longrightarrow> wake_inv l'"
proof (induction rule: logger_step.induct)
  case (work l)
  then show ?case by (rule worker_step_wake)
qed (auto simp: wake_inv_def push_move_eq_copy push_copy_def)

lemma logger_reachable_wake: "logger_reachable K sink l \<Longrightarrow> wake_inv l"
proof (induction rule: logger_reachable.induct)
  case constructed
  then show ?case by (simp add: wake_inv_def new_logger_def)
qed (rule logger_step_wake)

section \<open>Failing sinks\<close>

text \<open>Without any assumption on what the sink throws, the accounting is a subsequence.\<close>

definition in_order :: "int \<Rightarrow> 's Logger \<Rightarrow> bool" where
  "in_order lvl l \<longleftrightarrow>
     subseq (log_calls l @ passes lvl (in_batch (worker_at l)) @ passes lvl (m_elements l))
       (passes lvl (pushed l))"

lemma subseq_drop_middle: "subseq (xs @ ys @ zs) us \<Longrightarrow> subseq (xs @ zs) us"
proof -
  have "subseq (xs @ zs) (xs @ ys @ zs)"
    by (rule list_emb_append_mono) (simp_all add: list_emb_append2)
  then show "subseq (xs @ ys @ zs) us \<Longrightarrow> ?thesis" by (rule subseq_order.trans)
qed

lemma subseq_append_right: "subseq xs (xs @ ys)"
  by (rule prefix_imp_subseq) simp

lemma in_order_fail:
  assumes "worker_at l = Logging (e # es) count" and "lvl \<le> level_num (elem_level e)" and "in_order lvl l"
  shows "in_order lvl (fail_batch (l\<lparr>m_sink := s, log_calls := log_calls l @ [e]\<rparr>) f)"
proof -
  have "subseq ((log_calls l @ [e]) @ passes lvl es @ passes lvl (m_elements l))
      (passes lvl (pushed l))"
    using assms by (simp add: in_order_def)
  then have "subseq ((log_calls l @ [e]) @ passes lvl (m_elements l)) (passes lvl (pushed l))"
    by (rule subseq_drop_middle)
  then show ?thesis by (simp add: in_order_def)
qed

lemma worker_step_in_order:
  assumes "sink_level K lvl" and "in_order lvl l"
  shows "in_order lvl (worker_step K l)"
proof (cases "worker_at l")
  case Checking
  then show ?thesis
    using assms
    by (auto simp: worker_step_def check_step_def in_order_def split: prod.splits option.splits)
next
  case (Logging es count)
  show ?thesis
  proof (cases es)
    case Nil
    then show ?thesis
      using assms Logging
      by (auto simp: worker_step_def in_order_def split: prod.splits option.splits)
  next
    case (Cons e es')
    show ?thesis
    proof (cases "should_log K (m_sink l) (elem_level e)")
      case False
      then show ?thesis
        using assms Logging Cons by (auto simp: worker_step_def in_order_def sink_level_def)
    next
      case True
      then have "lvl \<le> level_num (elem_level e)" using assms(1) by (simp add: sink_level_def)
      then show ?thesis
        using assms Logging Cons True in_order_fail [of l e es' count lvl]
        by (auto simp: worker_step_def in_order_def split: prod.splits option.splits)
    qed
  qed
qed (use assms in \<open>auto simp: worker_step_def\<close>)

lemma push_in_order: "in_order lvl l \<Longrightarrow> in_order lvl (push_copy l es)"
proof -
  let ?xs = "log_calls l @ passes lvl (in_batch (worker_at l)) @ passes lvl (m_elements l)"
  assume "in_order lvl l"
  then have "subseq (?xs @ passes lvl es) (passes lvl (pushed l) @ passes lvl es)"
    by (intro list_emb_append_mono) (simp_all add: in_order_def)
  then show ?thesis by (cases "worker_at l = Asleep") (auto simp: in_order_def push_copy_def)
qed

lemma logger_step_in_order:
  assumes "logger_step K l l'" and "sink_level K lvl" and "in_order lvl l"
  shows "in_order lvl l'"
  using assms
proof (induction rule: logger_step.induct)
  case (work l)
  then show ?case by (intro worker_step_in_order)
qed (auto simp: push_in_order push_move_eq_copy, auto simp: in_order_def)

section \<open>Progress\<close>

text \<open>How many steps the worker has to make until it sleeps, when nobody pushes.\<close>

definition check_rank :: "'s Logger \<Rightarrow> nat" where
  "check_rank l = (if m_elements l = [] then 1 else length (m_elements l) + 3)"

fun drain_rank :: "'s Logger \<Rightarrow> worker_state \<Rightarrow> nat" where
  "drain_rank l Checking = check_rank l"
| "drain_rank l (Logging es count) = length es + 1 + check_rank l"
| "drain_rank l _ = 0"

lemma log_step_total:
  assumes "sink_total K"
  shows "\<exists>l'. log_step K l es count = l' \<and> m_done l' = m_done l \<and> m_elements l' = m_elements l \<and>
    pushed l' = pushed l \<and> dtor_at l' = dtor_at l \<and>
    (case es of [] \<Rightarrow> worker_at l' = Checking | e # es' \<Rightarrow> \<exists>c. worker_at l' = Logging es' c)"
proof (cases es)
  case Nil
  obtain s where "sink_flush K (m_sink l) = (None, s)"
    using assms by (metis prod.collapse sink_total_def)
  then show ?thesis using Nil by simp
next
  case (Cons e es')
  obtain s where "sink_log K (m_sink l) e = (None, s)"
    using assms by (metis prod.collapse sink_total_def)
  then show ?thesis using Cons by simp
qed

lemma drain_step:
  assumes "sink_total K" and "\<not> m_done l" and "worker_at l \<noteq> Exited" "worker_at l \<noteq> Crashed"
    and "drain_rank l (worker_at l) = Suc n"
  shows "drain_rank (worker_step K l) (worker_at (worker_step K l)) = n \<and>
    \<not> m_done (worker_step K l) \<and> worker_at (worker_step K l) \<noteq> Exited \<and>
    worker_at (worker_step K l) \<noteq> Crashed \<and> pushed (worker_step K l) = pushed l"
proof (cases "worker_at l")
  case Checking
  then show ?thesis
    using assms by (auto simp: worker_step_def check_step_def check_rank_def split: if_splits)
next
  case (Logging es count)
  then show ?thesis
    using assms(2,5) log_step_total [OF assms(1), of l es count]
    by (auto simp: worker_step_def check_rank_def split: list.splits)
qed (use assms in auto)

lemma drain_run:
  assumes "sink_total K" and "\<not> m_done l" and "worker_at l \<noteq> Exited" "worker_at l \<noteq> Crashed"
    and "drain_rank l (worker_at l) = n"
  shows "worker_at ((worker_step K ^^ n) l) = Asleep \<and> pushed ((worker_step K ^^ n) l) = pushed l"
  using assms(2-5)
proof (induction n arbitrary: l)
  case 0
  then show ?case by (cases "worker_at l") (auto simp: check_rank_def split: if_splits)
next
  case (Suc n)
  note step = drain_step [OF assms(1) Suc.prems]
  have "(worker_step K ^^ Suc n) l = (worker_step K ^^ n) (worker_step K l)"
    by (simp add: funpow_swap1)
  then show ?case using Suc.IH [of "worker_step K l"] step by simp
qed

lemma logger_reachable_run:
  "logger_reachable K sink l \<Longrightarrow> logger_reachable K sink ((worker_step K ^^ n) l)"
proof (induction n)
  case (Suc n)
  then show ?case by (auto intro: logger_reachable.stepped logger_step.work)
qed simp

fun exit_rank :: "worker_state \<Rightarrow> nat" where
  "exit_rank Checking = 1"
| "exit_rank (Logging es count) = length es + 2"
| "exit_rank _ = 0"

lemma exit_step:
  assumes "sink_total K" and "m_done l" and "exit_rank (worker_at l) = Suc n"
  shows "exit_rank (worker_at (worker_step K l)) = n \<and> m_done (worker_step K l) \<and>
    worker_at (worker_step K l) \<noteq> Asleep \<and> worker_at (worker_step K l) \<noteq> Crashed \<and>
    dtor_at (worker_step K l) = dtor_at l"
proof (cases "worker_at l")
  case Checking
  moreover obtain s where "sink_flush K (m_sink l) = (None, s)"
    using assms(1) by (metis prod.collapse sink_total_def)
  ultimately show ?thesis using assms by (simp add: worker_step_def check_step_def)
next
  case (Logging es count)
  then show ?thesis
    using assms(2,3) log_step_total [OF assms(1), of l es count]
    by (auto simp: worker_step_def split: list.splits)
qed (use assms in auto)

lemma exit_run:
  assumes "sink_total K" and "m_done l" and "worker_at l \<noteq> Asleep" "worker_at l \<noteq> Crashed"
    and "exit_rank (worker_at l) = n"
  shows "worker_at ((worker_step K ^^ n) l) = Exited \<and> dtor_at ((worker_step K ^^ n) l) = dtor_at l"
  using assms(2-5)
proof (induction n arbitrary: l)
  case 0
  then show ?case by (cases "worker_at l") auto
next
  case (Suc n)
  note step = exit_step [OF assms(1) Suc.prems(1,4)]
  have "(worker_step K ^^ Suc n) l = (worker_step K ^^ n) (worker_step K l)"
    by (simp add: funpow_swap1)
  then show ?case using Suc.IH [of "worker_step K l"] step by simp
qed

section \<open>A sink for the witnesses\<close>

text \<open>It keeps what it is given, from level \<open>info\<close> on; the second one rejects one message.\<close>

definition sample_sink :: "Element list sink_ops" where
  "sample_sink = \<lparr>should_log = (\<lambda>s l. info \<le> l), sink_log = (\<lambda>s e. (None, s @ [e])),
     sink_flush = (\<lambda>s. (None, s))\<rparr>"

definition failing_sink :: "Element list sink_ops" where
  "failing_sink = sample_sink\<lparr>sink_log := (\<lambda>s e.
     if elem_message e = ''bad'' then (Some (Raise (Library_error ''disk full'')), s)
     else (None, s @ [e]))\<rparr>"

lemma sample_sink_level: "sink_level sample_sink 2" "sink_level failing_sink 2"
  by (simp_all add: sink_level_def sample_sink_def failing_sink_def less_eq_level_enum_def)

lemma sample_sink_total: "sink_total sample_sink"
  by (simp add: sink_total_def sample_sink_def)

section \<open>Properties\<close>

text \<open>C8. With a sink that does not throw, no element is lost, duplicated or overtaken: at any time
  the elements written, those of the current batch still to come and those in the queue are,
  in this order, exactly the pushed elements that pass the level of the sink.\<close>

theorem logger_accounts_for_all:
  assumes "logger_reachable K sink l" and "sink_level K lvl" and "sink_total K"
  shows "log_calls l @ passes lvl (in_batch (worker_at l)) @ passes lvl (m_elements l)
    = passes lvl (pushed l)"
  using logger_reachable_accounted [OF assms] by (simp add: accounted_def)

theorem logger_accounts_for_all_witness:
  "\<exists>l. logger_reachable sample_sink [] l \<and> pushed l = [mk_element 1 warn ''a'', mk_element 2 trace ''b'']
     \<and> log_calls l @ passes 2 (in_batch (worker_at l)) @ passes 2 (m_elements l)
       = [mk_element 1 warn ''a'']"
proof -
  let ?es = "[mk_element 1 warn ''a'', mk_element 2 trace ''b'']"
  have "logger_step sample_sink (new_logger []) (push_copy (new_logger []) ?es)"
    by (rule logger_step.push_lvalue) (simp add: new_logger_def)
  then have reach: "logger_reachable sample_sink [] (push_copy (new_logger []) ?es)"
    by (rule logger_reachable.stepped [OF logger_reachable.constructed])
  have p: "pushed (push_copy (new_logger []) ?es) = ?es"
    by (simp add: push_copy_def new_logger_def)
  have f: "passes 2 ?es = [mk_element 1 warn ''a'']" by (simp add: less_eq_level_enum_def)
  show ?thesis
    using reach p logger_accounts_for_all [OF reach sample_sink_level(1) sample_sink_total,
        unfolded p f] by blast
qed

text \<open>C28. Whatever the sink throws, the elements handed to it are in the order in which they were
  pushed, each at most once, and only elements that pass its level.\<close>

theorem logger_never_reorders:
  assumes "logger_reachable K sink l" and "sink_level K lvl"
  shows "subseq (log_calls l) (passes lvl (pushed l))"
proof -
  have "in_order lvl l"
    using assms(1)
  proof (induction rule: logger_reachable.induct)
    case constructed
    then show ?case by (simp add: in_order_def new_logger_def)
  next
    case (stepped l l')
    then show ?case using assms(2) by (blast intro: logger_step_in_order)
  qed
  then show ?thesis
    unfolding in_order_def by (rule subseq_order.trans [OF subseq_append_right])
qed

theorem logger_never_reorders_witness:
  "\<exists>l. logger_reachable failing_sink [] l \<and>
     pushed l = [mk_element 1 err ''bad'', mk_element 2 err ''good''] \<and>
     subseq (log_calls l) [mk_element 1 err ''bad'', mk_element 2 err ''good'']"
proof -
  let ?es = "[mk_element 1 err ''bad'', mk_element 2 err ''good'']"
  let ?l = "push_move (new_logger []) ?es"
  have "logger_step failing_sink (new_logger []) ?l"
    by (rule logger_step.push_rvalue) (simp add: new_logger_def)
  then have "logger_reachable failing_sink [] ?l"
    by (rule logger_reachable.stepped [OF logger_reachable.constructed])
  then have reach: "logger_reachable failing_sink [] ((worker_step failing_sink ^^ 2) ?l)"
    by (rule logger_reachable_run)
  have p: "pushed ((worker_step failing_sink ^^ 2) ?l) = ?es"
    by (simp add: numeral_2_eq_2 push_move_eq_copy push_copy_def new_logger_def worker_step_def
        check_step_def failing_sink_def sample_sink_def less_eq_level_enum_def)
  have "passes 2 ?es = ?es" by (simp add: less_eq_level_enum_def)
  then show ?thesis
    using reach p logger_never_reorders [OF reach sample_sink_level(2), unfolded p] by auto
qed

text \<open>C26. A wake-up is never lost: while the worker sleeps, the queue is empty and destruction has not
  begun, or the destructor is about to notify it.\<close>

theorem logger_no_lost_wakeup:
  assumes "logger_reachable K sink l" and "worker_at l = Asleep"
  shows "(m_elements l = [] \<and> \<not> m_done l) \<or> dtor_at l = Marked"
  using logger_reachable_wake [OF assms(1)] assms(2) by (auto simp: wake_inv_def)

theorem logger_no_lost_wakeup_witness:
  "\<exists>l. logger_reachable sample_sink [] l \<and> worker_at l = Asleep \<and> m_elements l = [] \<and> \<not> m_done l"
proof -
  have reach: "logger_reachable sample_sink [] (worker_step sample_sink (new_logger []))"
    by (rule logger_reachable.stepped [OF logger_reachable.constructed logger_step.work])
  moreover have "worker_at (worker_step sample_sink (new_logger [])) = Asleep"
    "dtor_at (worker_step sample_sink (new_logger [])) = Alive"
    by (simp_all add: worker_step_def check_step_def new_logger_def)
  ultimately show ?thesis using logger_no_lost_wakeup [OF reach] by auto
qed

text \<open>Once nobody pushes any more, the worker writes everything that is pending and then sleeps,
  within as many steps as there are elements to go and four.\<close>

theorem logger_drains:
  assumes "logger_reachable K sink l" and "sink_level K lvl" and "sink_total K"
    and "dtor_at l = Alive"
  shows "\<exists>n \<le> length (in_batch (worker_at l)) + length (m_elements l) + 4.
    worker_at ((worker_step K ^^ n) l) = Asleep \<and>
    log_calls ((worker_step K ^^ n) l) = passes lvl (pushed l)"
proof -
  have l: "\<not> m_done l" "worker_at l \<noteq> Exited" "worker_at l \<noteq> Crashed"
    using logger_reachable_wake [OF assms(1)] logger_reachable_accounted [OF assms(1-3)] assms(4)
    by (auto simp: wake_inv_def quiet_def)
  define n where "n = drain_rank l (worker_at l)"
  define l' where "l' = (worker_step K ^^ n) l"
  have n: "n \<le> length (in_batch (worker_at l)) + length (m_elements l) + 4"
    by (cases "worker_at l") (auto simp: n_def check_rank_def)
  have asleep: "worker_at l' = Asleep" "pushed l' = pushed l"
    using drain_run [OF assms(3) l n_def [symmetric]] by (simp_all add: l'_def)
  have reach: "logger_reachable K sink l'"
    unfolding l'_def using assms(1) by (rule logger_reachable_run)
  have "dtor_at l' = dtor_at l"
  proof -
    have "dtor_at (worker_step K k) = dtor_at k" for k
      by (cases "worker_at k"; cases "in_batch (worker_at k)")
        (auto simp: worker_step_def check_step_def split: prod.splits option.splits)
    then have "dtor_at ((worker_step K ^^ m) l) = dtor_at l" for m by (induction m) simp_all
    then show ?thesis by (simp add: l'_def)
  qed
  then have "m_elements l' = []"
    using logger_reachable_wake [OF reach] asleep assms(4) by (simp add: wake_inv_def)
  then have "log_calls l' = passes lvl (pushed l)"
    using logger_reachable_accounted [OF reach assms(2,3)] asleep by (simp add: accounted_def)
  then show ?thesis using n asleep by (auto simp: l'_def)
qed

theorem logger_drains_witness:
  "\<exists>n \<le> 6. log_calls ((worker_step sample_sink ^^ n)
     (push_move (new_logger []) [mk_element 1 err ''x'', mk_element 2 debug ''y'']))
     = [mk_element 1 err ''x'']"
proof -
  let ?l = "push_move (new_logger []) [mk_element 1 err ''x'', mk_element 2 debug ''y'']"
  have step: "logger_step sample_sink (new_logger []) ?l"
    by (rule logger_step.push_rvalue) (simp add: new_logger_def)
  have reach: "logger_reachable sample_sink [] ?l"
    by (rule logger_reachable.stepped [OF logger_reachable.constructed step])
  have l: "dtor_at ?l = Alive" "pushed ?l = [mk_element 1 err ''x'', mk_element 2 debug ''y'']"
    "length (in_batch (worker_at ?l)) + length (m_elements ?l) + 4 = 6"
    by (simp_all add: push_move_eq_copy push_copy_def new_logger_def)
  show ?thesis
    using logger_drains [OF reach sample_sink_level(1) sample_sink_total l(1), unfolded l]
    by (auto simp: less_eq_level_enum_def)
qed

text \<open>The destructor returns: once it has notified the worker, the worker ends within a bounded
  number of steps, however the rest of the batch it is in, so that \<^verbatim>\<open>join\<close> succeeds.\<close>

theorem logger_destructor_returns:
  assumes "logger_reachable K sink l" and "sink_level K lvl" and "sink_total K"
    and "dtor_at l = Joining"
  shows "\<exists>n \<le> length (in_batch (worker_at l)) + 2.
    worker_at ((worker_step K ^^ n) l) = Exited \<and>
    logger_step K ((worker_step K ^^ n) l) (((worker_step K ^^ n) l)\<lparr>dtor_at := Destroyed\<rparr>)"
proof -
  have l: "m_done l" "worker_at l \<noteq> Asleep" "worker_at l \<noteq> Crashed"
    using logger_reachable_wake [OF assms(1)] logger_reachable_accounted [OF assms(1-3)] assms(4)
    by (auto simp: wake_inv_def quiet_def)
  note run = exit_run [OF assms(3) l refl]
  have "exit_rank (worker_at l) \<le> length (in_batch (worker_at l)) + 2"
    by (cases "worker_at l") auto
  then show ?thesis using run assms(4) logger_step.dtor_join by metis
qed

theorem logger_destructor_returns_witness:
  "\<exists>l n. dtor_at l = Joining \<and> logger_reachable sample_sink [] l \<and>
     worker_at ((worker_step sample_sink ^^ n) l) = Exited"
proof -
  let ?l1 = "(new_logger [])\<lparr>m_done := True, dtor_at := Marked\<rparr>"
  let ?l2 = "notify_one (?l1\<lparr>dtor_at := Joining\<rparr>)"
  have "logger_step sample_sink (new_logger []) ?l1"
    by (rule logger_step.dtor_mark) (simp add: new_logger_def)
  moreover have "logger_step sample_sink ?l1 ?l2" by (rule logger_step.dtor_notify) simp
  ultimately have reach: "logger_reachable sample_sink [] ?l2"
    by (meson logger_reachable.intros)
  have "dtor_at ?l2 = Joining" by simp
  then show ?thesis
    using reach logger_destructor_returns [OF reach sample_sink_level(1) sample_sink_total]
    by blast
qed

text \<open>C27. Destruction loses what is still queued, even with a sink that never throws: whatever is
  pushed, there is a run in which the worker returns and the logger is destroyed with none of
  it written.\<close>

theorem logger_shutdown_loses:
  assumes "sink_total K"
  shows "\<exists>l. logger_reachable K sink l \<and> dtor_at l = Destroyed \<and> worker_at l = Exited \<and>
    pushed l = es \<and> log_calls l = []"
proof -
  define l1 where "l1 = push_move (new_logger sink) es"
  define l2 where "l2 = l1\<lparr>m_done := True, dtor_at := Marked\<rparr>"
  define l3 where "l3 = notify_one (l2\<lparr>dtor_at := Joining\<rparr>)"
  define l4 where "l4 = worker_step K l3"
  obtain s where s: "sink_flush K sink = (None, s)"
    using assms by (metis prod.collapse sink_total_def)
  have l1: "m_sink l1 = sink" "worker_at l1 = Checking" "dtor_at l1 = Alive" "pushed l1 = es"
    "log_calls l1 = []"
    by (simp_all add: l1_def push_move_eq_copy push_copy_def new_logger_def)
  have l4: "worker_at l4 = Exited" "dtor_at l4 = Joining" "pushed l4 = es" "log_calls l4 = []"
    using l1 s by (simp_all add: l4_def l3_def l2_def worker_step_def check_step_def)
  have "logger_step K (new_logger sink) l1"
    unfolding l1_def by (rule logger_step.push_rvalue) (simp add: new_logger_def)
  moreover have "logger_step K l1 l2" unfolding l2_def using l1(3) by (rule logger_step.dtor_mark)
  moreover have "logger_step K l2 l3"
    unfolding l3_def by (rule logger_step.dtor_notify) (simp add: l2_def)
  moreover have "logger_step K l3 l4" unfolding l4_def by (rule logger_step.work)
  moreover have "logger_step K l4 (l4\<lparr>dtor_at := Destroyed\<rparr>)"
    using l4(1,2) by (intro logger_step.dtor_join)
  ultimately have "logger_reachable K sink (l4\<lparr>dtor_at := Destroyed\<rparr>)"
    by (meson logger_reachable.intros)
  then show ?thesis using l4 by (intro exI [of _ "l4\<lparr>dtor_at := Destroyed\<rparr>"]) simp
qed

theorem logger_shutdown_loses_witness:
  "\<exists>l. logger_reachable sample_sink [] l \<and> dtor_at l = Destroyed \<and>
     pushed l = [mk_element 1 critical ''last words''] \<and> log_calls l = []"
  using logger_shutdown_loses [OF sample_sink_total, of "[]" "[mk_element 1 critical ''last words'']"]
  by blast

end
