(* ===== verification/Server.thy ===== *)
theory Server
  imports Acceptor Logger
begin

text \<open>
  \<^verbatim>\<open>src/src/server.h\<close> and \<^verbatim>\<open>src/src/server.cpp\<close>: the options, the constructor (acceptors,
  loggers, threads, each step with its failure), the dispatch of a batch to the loggers, the
  acceptance of connections, shutdown and destruction. What the constructor calls outside the
  sources is a parameter (\<open>services\<close>). A constructor step returns the failure it throws, if
  any, with the members as they are at that point; the loop that starts the threads has its local
  thread, whose destructor calls \<^verbatim>\<open>std::terminate\<close> unless it has been joined or moved away. The
  steps of the destructor are in \<open>Server_Run\<close>, with those of the threads.
\<close>

section \<open>Options\<close>

record Options =
  socket_file :: string
  socket_address :: string
  socket_port :: "16 word"
  identity :: string
  n_threads :: "64 word"
  file_sink_filename :: string
  file_sink_max_file_size :: double
  file_sink_max_files :: "64 word"
  file_sink_log_level :: int
  systemd_sink_use :: bool
  systemd_sink_log_level :: int
  syslog_sink_use :: bool
  syslog_sink_log_level :: int
  eventlog_sink_use :: bool
  eventlog_sink_log_level :: int

definition default_options :: "platform \<Rightarrow> Options" where
  "default_options P =
     \<lparr>socket_file = [], socket_address = [], socket_port = 12345, identity = ''scriptor'',
      n_threads = of_nat (hardware_concurrency P), file_sink_filename = [],
      file_sink_max_file_size = double_of_int 10, file_sink_max_files = 3,
      file_sink_log_level = level_num trace,
      systemd_sink_use = False, systemd_sink_log_level = level_num trace,
      syslog_sink_use = False, syslog_sink_log_level = level_num trace,
      eventlog_sink_use = False, eventlog_sink_log_level = level_num trace\<rparr>"

section \<open>Services\<close>

text \<open>The sinks of the logging library the constructor creates, and the platform macros.\<close>

datatype sink_spec =
    rotating_file_sink string "64 word" "64 word"
  | systemd_sink string
  | syslog_sink string
  | win_eventlog_sink string
  | stdout_sink

datatype os = Linux | Windows | Other_os

text \<open>
  \<open>address_from_string\<close> and \<open>open_listener\<close> are the networking library's, \<open>make_sink\<close> the
  logging library's; \<open>start_logger_thread\<close>, \<open>start_io_thread\<close>: the start of a thread, when so
  many loggers or threads exist; \<open>store_io_thread\<close>: the growth of the vector of threads.
\<close>

record ('a, 's) services =
  address_from_string :: "string \<Rightarrow> 'a res"
  open_listener :: "'a listener \<Rightarrow> failure option"
  make_sink :: "sink_spec \<Rightarrow> 's res"
  start_logger_thread :: "nat \<Rightarrow> failure option"
  start_io_thread :: "nat \<Rightarrow> failure option"
  store_io_thread :: "nat \<Rightarrow> failure option"

section \<open>State\<close>

text \<open>A logger with the configuration of its sink. Threads are known by whether they are joinable.\<close>

record 's slot =
  slot_spec :: sink_spec
  slot_level :: int
  slot_pattern :: "string option"
  slot_logger :: "'s Logger"

record ('a, 's) Server =
  concurrency_hint :: int
  ioc_stopped :: bool
  m_acceptors :: "'a Acceptor list"
  m_ioc_threads :: "bool list"
  m_loggers :: "'s slot list"

section \<open>Operations\<close>

definition server_accept :: "('a, 's) Server \<Rightarrow> ('a, 's) Server" where
  "server_accept v = v\<lparr>m_acceptors := map async_accept (m_acceptors v)\<rparr>"

definition server_shutdown :: "('a, 's) Server \<Rightarrow> ('a, 's) Server" where
  "server_shutdown v =
     v\<lparr>ioc_stopped := True,
       m_ioc_threads := map (\<lambda>joinable. if joinable then False else joinable) (m_ioc_threads v)\<rparr>"

text \<open>The constructor, step by step. A step that throws ends it.\<close>

definition ctor_then ::
    "('v \<Rightarrow> failure option \<times> 'v) \<Rightarrow> ('v \<Rightarrow> failure option \<times> 'v) \<Rightarrow> 'v \<Rightarrow> failure option \<times> 'v" where
  "ctor_then f g v = (case f v of (None, v') \<Rightarrow> g v' | (Some e, v') \<Rightarrow> (Some e, v'))"

definition add_acceptor ::
    "('a, 's) services \<Rightarrow> 'a listener \<Rightarrow> ('a, 's) Server \<Rightarrow> failure option \<times> ('a, 's) Server" where
  "add_acceptor S ep v = (case open_listener S ep of
       Some f \<Rightarrow> (Some f, v)
     | None \<Rightarrow> (None, v\<lparr>m_acceptors := m_acceptors v @ [new_acceptor ep]\<rparr>))"

definition setup_unix ::
    "('a, 's) services \<Rightarrow> Options \<Rightarrow> ('a, 's) Server \<Rightarrow> failure option \<times> ('a, 's) Server" where
  "setup_unix S opt v =
     (if socket_file opt \<noteq> [] then add_acceptor S (UnixAcceptor (socket_file opt)) v
      else (None, v))"

definition setup_tcp ::
    "('a, 's) services \<Rightarrow> Options \<Rightarrow> ('a, 's) Server \<Rightarrow> failure option \<times> ('a, 's) Server" where
  "setup_tcp S opt v =
     (if socket_address opt \<noteq> [] then
        (case address_from_string S (socket_address opt) of
           Inl f \<Rightarrow> (Some f, v)
         | Inr address \<Rightarrow> add_acceptor S (TcpAcceptor address (socket_port opt)) v)
      else (None, v))"

definition require_acceptor :: "('a, 's) Server \<Rightarrow> failure option \<times> ('a, 's) Server" where
  "require_acceptor v =
     (if m_acceptors v = [] then
        (Some (Raise (Runtime_error ''Must provide socket_file and/or socket_address!'')), v)
      else (None, v))"

definition add_logger ::
    "('a, 's) services \<Rightarrow> sink_spec \<Rightarrow> int \<Rightarrow> string option \<Rightarrow> ('a, 's) Server \<Rightarrow>
     failure option \<times> ('a, 's) Server" where
  "add_logger S spec lvl pat v = (case make_sink S spec of
       Inl f \<Rightarrow> (Some f, v)
     | Inr sink \<Rightarrow>
         (case start_logger_thread S (length (m_loggers v)) of
            Some f \<Rightarrow> (Some f, v)
          | None \<Rightarrow> (None, v\<lparr>m_loggers := m_loggers v @
              [\<lparr>slot_spec = spec, slot_level = lvl, slot_pattern = pat,
                slot_logger = new_logger sink\<rparr>]\<rparr>)))"

definition pattern :: string where
  "pattern = ''[%Y-%m-%dT%H:%M:%S.%f] [%l] %v''"

definition max_file_bytes :: "Options \<Rightarrow> int res" where
  "max_file_bytes opt =
     double_to_int 0 (2 ^ 64 - 1)
       (double_mul (file_sink_max_file_size opt) (double_of_int 1000000))"

definition setup_file ::
    "('a, 's) services \<Rightarrow> Options \<Rightarrow> ('a, 's) Server \<Rightarrow> failure option \<times> ('a, 's) Server" where
  "setup_file S opt v =
     (if file_sink_filename opt \<noteq> [] then
        (case max_file_bytes opt of
           Inl f \<Rightarrow> (Some f, v)
         | Inr bytes \<Rightarrow>
             add_logger S
               (rotating_file_sink (file_sink_filename opt) (of_int bytes) (file_sink_max_files opt))
               (file_sink_log_level opt) (Some pattern) v)
      else (None, v))"

definition setup_systemd ::
    "os \<Rightarrow> ('a, 's) services \<Rightarrow> Options \<Rightarrow> ('a, 's) Server \<Rightarrow> failure option \<times> ('a, 's) Server" where
  "setup_systemd sys S opt v =
     (if sys = Linux \<and> systemd_sink_use opt then
        add_logger S (systemd_sink (identity opt)) (systemd_sink_log_level opt) None v
      else (None, v))"

definition setup_syslog ::
    "os \<Rightarrow> ('a, 's) services \<Rightarrow> Options \<Rightarrow> ('a, 's) Server \<Rightarrow> failure option \<times> ('a, 's) Server" where
  "setup_syslog sys S opt v =
     (if sys = Linux \<and> syslog_sink_use opt then
        add_logger S (syslog_sink (identity opt)) (syslog_sink_log_level opt) None v
      else (None, v))"

definition setup_eventlog ::
    "os \<Rightarrow> ('a, 's) services \<Rightarrow> Options \<Rightarrow> ('a, 's) Server \<Rightarrow> failure option \<times> ('a, 's) Server" where
  "setup_eventlog sys S opt v =
     (if sys = Windows \<and> eventlog_sink_use opt then
        add_logger S (win_eventlog_sink (identity opt)) (eventlog_sink_log_level opt) None v
      else (None, v))"

definition setup_console ::
    "('a, 's) services \<Rightarrow> ('a, 's) Server \<Rightarrow> failure option \<times> ('a, 's) Server" where
  "setup_console S v =
     (if m_loggers v = [] then add_logger S stdout_sink (level_num trace) (Some pattern) v
      else (None, v))"

text \<open>
  A local \<^verbatim>\<open>std::thread\<close> (known by whether it is joinable) at the end of its scope, left with the
  failure \<open>f\<close> if there is one: the destructor of a joinable thread calls \<^verbatim>\<open>std::terminate\<close>.
\<close>

definition leave_scope :: "bool \<Rightarrow> failure option \<Rightarrow> failure option" where
  "leave_scope thread f = (if thread then Some Terminated else f)"

definition thread_join :: "bool \<Rightarrow> bool" where
  "thread_join thread = False"

text \<open>
  The loop that starts the threads, and its body. The local variable \<open>thread\<close> is not joinable, then
  it is the started thread, then it has been moved into the vector. When the thread cannot be
  stored it is still in the variable, and is joined.
\<close>

definition start_thread ::
    "('a, 's) services \<Rightarrow> ('a, 's) Server \<Rightarrow> failure option \<times> ('a, 's) Server" where
  "start_thread S v =
     (let thread = False
      in case start_io_thread S (length (m_ioc_threads v)) of
           Some f \<Rightarrow> (leave_scope thread (Some f), server_shutdown v)
         | None \<Rightarrow>
             (let thread = True
              in case store_io_thread S (length (m_ioc_threads v)) of
                   Some f \<Rightarrow>
                     (let v' = server_shutdown v; thread = thread_join thread
                      in (leave_scope thread (Some f), v'))
                 | None \<Rightarrow>
                     (let v' = v\<lparr>m_ioc_threads := m_ioc_threads v @ [thread]\<rparr>; thread = False
                      in (leave_scope thread None, v'))))"

lemma start_thread_None:
  "start_thread S v = (None, v') \<Longrightarrow> v' = v\<lparr>m_ioc_threads := m_ioc_threads v @ [True]\<rparr>"
  by (auto simp: start_thread_def leave_scope_def Let_def split: option.splits if_splits)

function start_threads ::
    "('a, 's) services \<Rightarrow> 64 word \<Rightarrow> ('a, 's) Server \<Rightarrow> failure option \<times> ('a, 's) Server" where
  "start_threads S n v =
     (if length (m_ioc_threads v) < unat n then
        (case start_thread S v of
           (Some f, v') \<Rightarrow> (Some f, v')
         | (None, v') \<Rightarrow> start_threads S n v')
      else (None, v))"
  by pat_completeness auto
termination
  by (relation "measure (\<lambda>(S, n, v). unat n - length (m_ioc_threads v))")
    (auto dest!: start_thread_None [OF sym])

declare start_threads.simps [simp del]

definition empty_server :: "Options \<Rightarrow> ('a, 's) Server" where
  "empty_server opt =
     \<lparr>concurrency_hint = sint (ucast (n_threads opt) :: 32 word), ioc_stopped = False,
      m_acceptors = [], m_ioc_threads = [], m_loggers = []\<rparr>"

definition server_ctor ::
    "os \<Rightarrow> ('a, 's) services \<Rightarrow> Options \<Rightarrow> failure option \<times> ('a, 's) Server" where
  "server_ctor sys S opt =
     ctor_then (setup_unix S opt) (ctor_then (setup_tcp S opt) (ctor_then require_acceptor
       (ctor_then (setup_file S opt) (ctor_then (setup_systemd sys S opt)
         (ctor_then (setup_syslog sys S opt) (ctor_then (setup_eventlog sys S opt)
           (ctor_then (setup_console S)
             (\<lambda>v. start_threads S (n_threads opt) (server_accept v)))))))))
       (empty_server opt)"

text \<open>
  \<^verbatim>\<open>Server{opt}\<close>: when the constructor throws, the members are destroyed, the vector of threads
  among them. (The loggers among them, whose threads run, are destroyed by the steps of
  \<open>Logger\<close>; \<open>Program\<close> has what becomes of that.)
\<close>

definition new_server ::
    "os \<Rightarrow> ('a, 's) services \<Rightarrow> Options \<Rightarrow> failure option \<times> ('a, 's) Server" where
  "new_server sys S opt = (case server_ctor sys S opt of
       (None, v) \<Rightarrow> (None, v)
     | (Some f, v) \<Rightarrow> (foldr leave_scope (m_ioc_threads v) (Some f), v))"

section \<open>Dispatch of a batch\<close>

definition slot_push_move :: "'s slot \<Rightarrow> Element list \<Rightarrow> 's slot" where
  "slot_push_move l es = l\<lparr>slot_logger := push_move (slot_logger l) es\<rparr>"

definition slot_push_copy :: "'s slot \<Rightarrow> Element list \<Rightarrow> 's slot" where
  "slot_push_copy l es = l\<lparr>slot_logger := push_copy (slot_logger l) es\<rparr>"

text \<open>The callback a session is given: to the only logger by moving, to several by copying.\<close>

definition server_push :: "'s slot list \<Rightarrow> Element list \<Rightarrow> 's slot list" where
  "server_push ls elements =
     (if length ls = 1 then slot_push_move (hd ls) elements # tl ls
      else map (\<lambda>logger. slot_push_copy logger elements) ls)"

section \<open>What the constructor builds\<close>

lemma leave_scope_simps [simp]: "leave_scope False f = f" "leave_scope True f = Some Terminated"
  by (simp_all add: leave_scope_def)

lemma leave_scopes_Some: "\<exists>g. foldr leave_scope ts (Some f) = Some g"
  by (induction ts) (auto simp: leave_scope_def)

lemma leave_scopes_joined: "True \<notin> set ts \<Longrightarrow> foldr leave_scope ts f = f"
  by (induction ts) auto

lemma new_server_None: "new_server sys S opt = (None, v) \<longleftrightarrow> server_ctor sys S opt = (None, v)"
proof -
  obtain r u where c: "server_ctor sys S opt = (r, u)" by fastforce
  show ?thesis
    using leave_scopes_Some [of "m_ioc_threads u"] by (cases r) (auto simp: new_server_def c)
qed

lemma ctor_then_None:
  "ctor_then f g v = (None, v') \<longleftrightarrow> (\<exists>u. f v = (None, u) \<and> g u = (None, v'))"
  by (auto simp: ctor_then_def split: prod.splits option.splits)

lemma ctor_then_Some:
  "ctor_then f g v = (Some e, v') \<longleftrightarrow>
     f v = (Some e, v') \<or> (\<exists>u. f v = (None, u) \<and> g u = (Some e, v'))"
  by (auto simp: ctor_then_def split: prod.splits option.splits)

text \<open>The acceptors and sinks that the options ask for.\<close>

definition wanted_listeners :: "('a, 's) services \<Rightarrow> Options \<Rightarrow> 'a listener list" where
  "wanted_listeners S opt =
     (if socket_file opt \<noteq> [] then [UnixAcceptor (socket_file opt)] else []) @
     (case address_from_string S (socket_address opt) of
        Inr address \<Rightarrow>
          (if socket_address opt \<noteq> [] then [TcpAcceptor address (socket_port opt)] else [])
      | Inl f \<Rightarrow> [])"

definition optional_sinks :: "os \<Rightarrow> Options \<Rightarrow> (sink_spec \<times> int \<times> string option) list" where
  "optional_sinks sys opt =
     (case max_file_bytes opt of
        Inr bytes \<Rightarrow>
          (if file_sink_filename opt \<noteq> [] then
             [(rotating_file_sink (file_sink_filename opt) (of_int bytes) (file_sink_max_files opt),
               file_sink_log_level opt, Some pattern)] else [])
      | Inl f \<Rightarrow> []) @
     (if sys = Linux \<and> systemd_sink_use opt then
        [(systemd_sink (identity opt), systemd_sink_log_level opt, None)] else []) @
     (if sys = Linux \<and> syslog_sink_use opt then
        [(syslog_sink (identity opt), syslog_sink_log_level opt, None)] else []) @
     (if sys = Windows \<and> eventlog_sink_use opt then
        [(win_eventlog_sink (identity opt), eventlog_sink_log_level opt, None)] else [])"

definition wanted_sinks :: "os \<Rightarrow> Options \<Rightarrow> (sink_spec \<times> int \<times> string option) list" where
  "wanted_sinks sys opt =
     (if optional_sinks sys opt = [] then [(stdout_sink, level_num trace, Some pattern)]
      else optional_sinks sys opt)"

definition slot_config :: "'s slot \<Rightarrow> sink_spec \<times> int \<times> string option" where
  "slot_config l = (slot_spec l, slot_level l, slot_pattern l)"

text \<open>
  \<open>built eps sinks opt v\<close>: the members after the constructor has set up these acceptors and
  these loggers, and no thread yet.
\<close>

definition built ::
    "'a listener list \<Rightarrow> (sink_spec \<times> int \<times> string option) list \<Rightarrow> ('a, 's) Server \<Rightarrow> bool" where
  "built eps sinks v \<longleftrightarrow>
     m_acceptors v = map new_acceptor eps \<and> map slot_config (m_loggers v) = sinks \<and>
     (\<forall>l \<in> set (m_loggers v). slot_logger l = new_logger (m_sink (slot_logger l))) \<and>
     m_ioc_threads v = [] \<and> \<not> ioc_stopped v"

lemma add_acceptor_built:
  "add_acceptor S ep v = (r, v') \<Longrightarrow> built eps sinks v \<Longrightarrow>
     built (if r = None then eps @ [ep] else eps) sinks v'"
  by (cases "open_listener S ep"; cases r) (auto simp: add_acceptor_def built_def)

lemma add_logger_built:
  "add_logger S spec lvl pat v = (r, v') \<Longrightarrow> built eps sinks v \<Longrightarrow>
     built eps (if r = None then sinks @ [(spec, lvl, pat)] else sinks) v'"
  by (cases "make_sink S spec"; cases "start_logger_thread S (length (m_loggers v))"; cases r)
    (auto simp: add_logger_def built_def slot_config_def new_logger_def)

lemma empty_server_built: "built [] [] (empty_server opt)"
  by (simp add: built_def empty_server_def)

lemma built_loggers: "built eps sinks v \<Longrightarrow> m_loggers v = [] \<longleftrightarrow> sinks = []"
  by (auto simp: built_def)

lemma built_acceptors: "built eps sinks v \<Longrightarrow> m_acceptors v = [] \<longleftrightarrow> eps = []"
  by (auto simp: built_def)

lemmas setup_defs = setup_unix_def setup_tcp_def require_acceptor_def setup_file_def
  setup_systemd_def setup_syslog_def setup_eventlog_def setup_console_def

lemma add_threads:
  "add_acceptor S ep v = (r, v') \<Longrightarrow> m_ioc_threads v' = m_ioc_threads v"
  "add_logger S spec lvl pat v = (r, v') \<Longrightarrow> m_ioc_threads v' = m_ioc_threads v"
  by (auto simp: add_acceptor_def add_logger_def split: option.splits sum.splits)

lemma setup_threads:
  "setup_unix S opt v = (r, v') \<Longrightarrow> m_ioc_threads v' = m_ioc_threads v"
  "setup_tcp S opt v = (r, v') \<Longrightarrow> m_ioc_threads v' = m_ioc_threads v"
  "require_acceptor v = (r, v') \<Longrightarrow> m_ioc_threads v' = m_ioc_threads v"
  "setup_file S opt v = (r, v') \<Longrightarrow> m_ioc_threads v' = m_ioc_threads v"
  "setup_systemd sys S opt v = (r, v') \<Longrightarrow> m_ioc_threads v' = m_ioc_threads v"
  "setup_syslog sys S opt v = (r, v') \<Longrightarrow> m_ioc_threads v' = m_ioc_threads v"
  "setup_eventlog sys S opt v = (r, v') \<Longrightarrow> m_ioc_threads v' = m_ioc_threads v"
  "setup_console S v = (r, v') \<Longrightarrow> m_ioc_threads v' = m_ioc_threads v"
  by (auto simp: setup_defs add_threads split: if_splits sum.splits)

text \<open>What a step adds when it does not throw.\<close>

lemma setup_acceptors_built:
  assumes "setup_unix S opt (empty_server opt) = (None, v1)" and "setup_tcp S opt v1 = (None, v2)"
  shows "built (wanted_listeners S opt) [] v2"
proof -
  have "built (if socket_file opt \<noteq> [] then [UnixAcceptor (socket_file opt)] else []) [] v1"
    using assms(1) add_acceptor_built [OF _ empty_server_built]
    by (fastforce simp: setup_unix_def empty_server_built split: if_splits)
  note built = this add_acceptor_built [OF _ this]
  show ?thesis
    using assms(2) built
    by (fastforce simp: setup_tcp_def wanted_listeners_def split: if_splits sum.splits)
qed

lemma setup_sinks_stages:
  obtains f d y e where "optional_sinks sys opt = f @ d @ y @ e"
    and "\<And>eps v v'. built eps [] v \<Longrightarrow> setup_file S opt v = (None, v') \<Longrightarrow> built eps f v'"
    and "\<And>eps s v v'. built eps s v \<Longrightarrow> setup_systemd sys S opt v = (None, v') \<Longrightarrow> built eps (s @ d) v'"
    and "\<And>eps s v v'. built eps s v \<Longrightarrow> setup_syslog sys S opt v = (None, v') \<Longrightarrow> built eps (s @ y) v'"
    and "\<And>eps s v v'. built eps s v \<Longrightarrow> setup_eventlog sys S opt v = (None, v') \<Longrightarrow> built eps (s @ e) v'"
proof -
  note add = add_logger_built [where r = None, simplified]
  define f where "f = (case max_file_bytes opt of Inr bytes \<Rightarrow>
          (if file_sink_filename opt \<noteq> [] then
             [(rotating_file_sink (file_sink_filename opt) (of_int bytes) (file_sink_max_files opt),
               file_sink_log_level opt, Some pattern)] else [])
      | Inl f \<Rightarrow> [])"
  define d where "d = (if sys = Linux \<and> systemd_sink_use opt then
        [(systemd_sink (identity opt), systemd_sink_log_level opt, None :: string option)] else [])"
  define y where "y = (if sys = Linux \<and> syslog_sink_use opt then
        [(syslog_sink (identity opt), syslog_sink_log_level opt, None :: string option)] else [])"
  define e where "e = (if sys = Windows \<and> eventlog_sink_use opt then
        [(win_eventlog_sink (identity opt), eventlog_sink_log_level opt, None :: string option)] else [])"
  show thesis
  proof (rule that)
    show "optional_sinks sys opt = f @ d @ y @ e" by (simp only: optional_sinks_def f_def d_def y_def e_def)
    show "built eps f v'" if "built eps [] v" "setup_file S opt v = (None, v')" for eps v v'
      using that(2) that(1) add [OF _ that(1)] by (fastforce simp: setup_file_def f_def split: if_splits sum.splits)
    show "built eps (s @ d) v'" if "built eps s v" "setup_systemd sys S opt v = (None, v')" for eps s v v'
      using that add [OF _ that(1)] by (fastforce simp: setup_systemd_def d_def split: if_splits)
    show "built eps (s @ y) v'" if "built eps s v" "setup_syslog sys S opt v = (None, v')" for eps s v v'
      using that add [OF _ that(1)] by (fastforce simp: setup_syslog_def y_def split: if_splits)
    show "built eps (s @ e) v'" if "built eps s v" "setup_eventlog sys S opt v = (None, v')" for eps s v v'
      using that add [OF _ that(1)] by (fastforce simp: setup_eventlog_def e_def split: if_splits)
  qed
qed

lemma setup_console_built:
  assumes "built eps (optional_sinks sys opt) v" and "setup_console S v = (None, v')"
  shows "built eps (wanted_sinks sys opt) v'"
proof (cases "m_loggers v = []")
  case True
  then have "optional_sinks sys opt = []" using built_loggers [OF assms(1)] by simp
  then show ?thesis
    using assms True add_logger_built [OF _ assms(1), where r = None] by (auto simp: setup_console_def wanted_sinks_def)
next
  case False
  then have "optional_sinks sys opt \<noteq> []" using built_loggers [OF assms(1)] by simp
  then show ?thesis using assms False by (auto simp: setup_console_def wanted_sinks_def)
qed

lemma setup_sinks_built:
  assumes "built eps [] v" and "setup_file S opt v = (None, v1)"
    and "setup_systemd sys S opt v1 = (None, v2)" and "setup_syslog sys S opt v2 = (None, v3)"
    and "setup_eventlog sys S opt v3 = (None, v4)" and "setup_console S v4 = (None, v5)"
  shows "built eps (wanted_sinks sys opt) v5"
proof -
  obtain f d y e where o: "optional_sinks sys opt = f @ d @ y @ e"
    and st: "\<And>eps v v'. built eps [] v \<Longrightarrow> setup_file S opt v = (None, v') \<Longrightarrow> built eps f v'"
    "\<And>eps s v v'. built eps s v \<Longrightarrow> setup_systemd sys S opt v = (None, v') \<Longrightarrow> built eps (s @ d) v'"
    "\<And>eps s v v'. built eps s v \<Longrightarrow> setup_syslog sys S opt v = (None, v') \<Longrightarrow> built eps (s @ y) v'"
    "\<And>eps s v v'. built eps s v \<Longrightarrow> setup_eventlog sys S opt v = (None, v') \<Longrightarrow> built eps (s @ e) v'"
    by (rule setup_sinks_stages [of sys opt S]) blast
  have "built eps (((f @ d) @ y) @ e) v4"
    using st(4) [OF st(3) [OF st(2) [OF st(1) [OF assms(1,2)] assms(3)] assms(4)] assms(5)] .
  then show ?thesis using setup_console_built [OF _ assms(6), of eps sys opt] o by simp
qed

text \<open>The threads.\<close>

lemma server_shutdown_sel [simp]:
  "m_acceptors (server_shutdown v) = m_acceptors v" "m_loggers (server_shutdown v) = m_loggers v"
  "ioc_stopped (server_shutdown v)" "True \<notin> set (m_ioc_threads (server_shutdown v))"
  "length (m_ioc_threads (server_shutdown v)) = length (m_ioc_threads v)"
  by (auto simp: server_shutdown_def)

lemma start_threads_result:
  assumes "start_threads S n v = (r, v')" and "set (m_ioc_threads v) \<subseteq> {True}"
    and "length (m_ioc_threads v) \<le> unat n"
  shows "m_acceptors v' = m_acceptors v \<and> m_loggers v' = m_loggers v \<and>
    (if r = None then m_ioc_threads v' = replicate (unat n) True \<and> ioc_stopped v' = ioc_stopped v
     else ioc_stopped v' \<and> True \<notin> set (m_ioc_threads v'))"
  using assms
proof (induction S n v rule: start_threads.induct)
  case (1 S n v)
  let ?k = "length (m_ioc_threads v)"
  consider (filled) "?k = unat n"
    | (fail) "?k < unat n" "r \<noteq> None" "v' = server_shutdown v"
    | (go) "?k < unat n" "start_thread S v = (None, v\<lparr>m_ioc_threads := m_ioc_threads v @ [True]\<rparr>)"
        "start_threads S n (v\<lparr>m_ioc_threads := m_ioc_threads v @ [True]\<rparr>) = (r, v')"
  proof (cases "?k < unat n")
    case True
    obtain q u where one: "start_thread S v = (q, u)" by fastforce
    show thesis
    proof (cases q)
      case None
      then have "u = v\<lparr>m_ioc_threads := m_ioc_threads v @ [True]\<rparr>" using one start_thread_None by blast
      then show thesis using that(3) True one None "1.prems"(1) by (simp add: start_threads.simps [of S n v])
    next
      case (Some f)
      then have "u = server_shutdown v"
        using one by (auto simp: start_thread_def Let_def split: option.splits)
      then show thesis using that(2) True one Some "1.prems"(1) by (auto simp: start_threads.simps [of S n v])
    qed
  next
    case False
    then show thesis using that(1) "1.prems"(3) by simp
  qed
  then show ?case
  proof cases
    case filled
    then have "m_ioc_threads v = replicate (unat n) True"
      using "1.prems"(2) by (intro replicate_eqI) auto
    then show ?thesis
      using filled "1.prems"(1) by (auto simp: start_threads.simps [of S n v])
  next
    case fail
    then show ?thesis by auto
  next
    case go
    then show ?thesis using "1.IH" [OF go(1) go(2) [symmetric] refl go(3)] "1.prems"(2) by simp
  qed
qed


lemma new_server_steps:
  assumes "new_server sys S opt = (None, v)"
  shows "\<exists>u. built (wanted_listeners S opt) (wanted_sinks sys opt) u \<and> wanted_listeners S opt \<noteq> [] \<and>
    start_threads S (n_threads opt) (server_accept u) = (None, v)"
proof -
  obtain v1 v2 v3 v4 v5 v6 v7 v8 where
    s: "setup_unix S opt (empty_server opt) = (None, v1)" "setup_tcp S opt v1 = (None, v2)"
    "require_acceptor v2 = (None, v3)" "setup_file S opt v3 = (None, v4)"
    "setup_systemd sys S opt v4 = (None, v5)" "setup_syslog sys S opt v5 = (None, v6)"
    "setup_eventlog sys S opt v6 = (None, v7)" "setup_console S v7 = (None, v8)"
    and t: "start_threads S (n_threads opt) (server_accept v8) = (None, v)"
    using assms unfolding new_server_None server_ctor_def ctor_then_None by blast
  have b: "built (wanted_listeners S opt) [] v2" using s(1,2) by (rule setup_acceptors_built)
  have "m_acceptors v2 \<noteq> []" "v3 = v2" using s(3) by (auto simp: require_acceptor_def split: if_splits)
  then show ?thesis using setup_sinks_built [OF b, of S opt v4] s(4-8) b t built_acceptors [OF b] by blast
qed

text \<open>Reaching every logger, and the order of several batches, by the contract of the queue.\<close>

lemma slot_push_sel [simp]:
  "slot_spec (slot_push_move l es) = slot_spec l" "slot_level (slot_push_move l es) = slot_level l"
  "slot_pattern (slot_push_move l es) = slot_pattern l"
  "slot_logger (slot_push_move l es) = push_move (slot_logger l) es"
  "slot_spec (slot_push_copy l es) = slot_spec l" "slot_level (slot_push_copy l es) = slot_level l"
  "slot_pattern (slot_push_copy l es) = slot_pattern l"
  "slot_logger (slot_push_copy l es) = push_copy (slot_logger l) es"
  by (simp_all add: slot_push_move_def slot_push_copy_def)

lemma length_server_push [simp]: "length (server_push ls es) = length ls"
  by (cases ls) (auto simp: server_push_def)

lemma server_push_nth:
  "k < length ls \<Longrightarrow> slot_logger (server_push ls es ! k) = push_copy (slot_logger (ls ! k)) es"
  by (cases ls; cases k) (auto simp: server_push_def push_move_eq_copy)

lemma server_push_batches_nth:
  "k < length ls \<Longrightarrow> slot_logger (push_batches server_push ls bs ! k) =
     push_batches push_copy (slot_logger (ls ! k)) bs"
  by (induction bs arbitrary: ls) (simp_all add: server_push_nth)

lemma length_server_push_batches [simp]:
  "length (push_batches server_push ls bs) = length ls"
  by (induction bs arbitrary: ls) simp_all

section \<open>Services for the witnesses\<close>

text \<open>Every service works; the second one can store two threads only.\<close>

definition sample_services :: "(string, Element list) services" where
  "sample_services = \<lparr>address_from_string = Inr, open_listener = (\<lambda>ep. None),
     make_sink = (\<lambda>spec. Inr []), start_logger_thread = (\<lambda>n. None),
     start_io_thread = (\<lambda>n. None), store_io_thread = (\<lambda>n. None)\<rparr>"

definition two_threads :: "(string, Element list) services" where
  "two_threads = sample_services\<lparr>store_io_thread := (\<lambda>n.
     if n < 2 then None else Some (Raise (Library_error ''bad_alloc'')))\<rparr>"

definition sample_options :: Options where
  "sample_options = (default_options sample_platform)\<lparr>socket_file := ''/tmp/log.sock'',
     socket_address := ''127.0.0.1'', n_threads := 3, syslog_sink_use := True\<rparr>"

definition sample_server :: "(string, Element list) Server" where
  "sample_server = \<lparr>concurrency_hint = 3, ioc_stopped = False,
     m_acceptors = [\<lparr>m_acceptor = UnixAcceptor ''/tmp/log.sock'', outstanding_accepts = 1\<rparr>,
       \<lparr>m_acceptor = TcpAcceptor ''127.0.0.1'' 12345, outstanding_accepts = 1\<rparr>],
     m_ioc_threads = [True, True, True],
     m_loggers = [\<lparr>slot_spec = syslog_sink ''scriptor'', slot_level = 0, slot_pattern = None,
       slot_logger = new_logger []\<rparr>]\<rparr>"

lemma new_sample_server: "new_server Linux sample_services sample_options = (None, sample_server)"
  by (simp add: new_server_def server_ctor_def ctor_then_def setup_defs add_acceptor_def add_logger_def
      sample_services_def sample_options_def default_options_def empty_server_def
      start_threads.simps start_thread_def server_accept_def sample_server_def new_acceptor_def async_accept_def)

lemma new_server_members:
  assumes "new_server sys S opt = (None, v)"
  shows "map m_acceptor (m_acceptors v) = wanted_listeners S opt" and "m_acceptors v \<noteq> []"
    and "\<forall>a \<in> set (m_acceptors v). outstanding_accepts a = 1"
    and "map slot_config (m_loggers v) = wanted_sinks sys opt" and "m_loggers v \<noteq> []"
    and "\<forall>l \<in> set (m_loggers v). slot_logger l = new_logger (m_sink (slot_logger l))"
    and "m_ioc_threads v = replicate (unat (n_threads opt)) True" and "\<not> ioc_stopped v"
proof -
  obtain u where b: "built (wanted_listeners S opt) (wanted_sinks sys opt) u"
    and ne: "wanted_listeners S opt \<noteq> []"
    and t: "start_threads S (n_threads opt) (server_accept u) = (None, v)"
    using new_server_steps [OF assms] by blast
  have v: "m_acceptors v = map async_accept (m_acceptors u)" "m_loggers v = m_loggers u"
    "m_ioc_threads v = replicate (unat (n_threads opt)) True" "\<not> ioc_stopped v"
    using start_threads_result [OF t] b by (auto simp: server_accept_def built_def)
  have "wanted_sinks sys opt \<noteq> []" by (simp add: wanted_sinks_def)
  then show "map m_acceptor (m_acceptors v) = wanted_listeners S opt" "m_acceptors v \<noteq> []"
    "\<forall>a \<in> set (m_acceptors v). outstanding_accepts a = 1"
    "map slot_config (m_loggers v) = wanted_sinks sys opt" "m_loggers v \<noteq> []"
    "\<forall>l \<in> set (m_loggers v). slot_logger l = new_logger (m_sink (slot_logger l))"
    "m_ioc_threads v = replicate (unat (n_threads opt)) True" "\<not> ioc_stopped v"
    using b ne v by (auto simp: built_def comp_def)
qed

section \<open>A constructor that throws\<close>

text \<open>What the services and the code itself can throw in the constructor.\<close>

definition constructor_failures :: "('a, 's) services \<Rightarrow> Options \<Rightarrow> failure set" where
  "constructor_failures S opt =
     {f. address_from_string S (socket_address opt) = Inl f} \<union> {f. \<exists>ep. open_listener S ep = Some f} \<union>
     {Raise (Runtime_error ''Must provide socket_file and/or socket_address!'')} \<union>
     {f. max_file_bytes opt = Inl f} \<union> {f. \<exists>spec. make_sink S spec = Inl f} \<union>
     {f. \<exists>k. start_logger_thread S k = Some f} \<union> {f. \<exists>k. start_io_thread S k = Some f} \<union>
     {f. \<exists>k. store_io_thread S k = Some f}"

lemma setup_failures:
  "setup_unix S opt v = (Some f, v') \<Longrightarrow> f \<in> constructor_failures S opt \<and> v' = v"
  "setup_tcp S opt v = (Some f, v') \<Longrightarrow> f \<in> constructor_failures S opt \<and> v' = v"
  "require_acceptor v = (Some f, v') \<Longrightarrow> f \<in> constructor_failures S opt \<and> v' = v"
  "setup_file S opt v = (Some f, v') \<Longrightarrow> f \<in> constructor_failures S opt \<and> v' = v"
  "setup_systemd sys S opt v = (Some f, v') \<Longrightarrow> f \<in> constructor_failures S opt \<and> v' = v"
  "setup_syslog sys S opt v = (Some f, v') \<Longrightarrow> f \<in> constructor_failures S opt \<and> v' = v"
  "setup_eventlog sys S opt v = (Some f, v') \<Longrightarrow> f \<in> constructor_failures S opt \<and> v' = v"
  "setup_console S v = (Some f, v') \<Longrightarrow> f \<in> constructor_failures S opt \<and> v' = v"
  by (auto simp: setup_defs add_acceptor_def add_logger_def constructor_failures_def
      split: if_splits sum.splits option.splits)

lemma start_threads_failures:
  "start_threads S n v = (Some f, v') \<Longrightarrow> f \<in> constructor_failures S opt"
proof (induction S n v rule: start_threads.induct)
  case (1 S n v)
  obtain q u where one: "start_thread S v = (q, u)" by fastforce
  have n: "length (m_ioc_threads v) < unat n"
    using "1.prems" by (cases "length (m_ioc_threads v) < unat n") (auto simp: start_threads.simps [of S n v])
  show ?case
  proof (cases q)
    case None
    then show ?thesis
      using "1.IH" [OF n one [symmetric] None] "1.prems" n one by (simp add: start_threads.simps [of S n v])
  next
    case (Some g)
    then have "g = f" using "1.prems" n one by (simp add: start_threads.simps [of S n v])
    then show ?thesis
      using one Some
      by (auto simp: start_thread_def thread_join_def constructor_failures_def Let_def split: option.splits)
  qed
qed

text \<open>The loggers are set up one after the other.\<close>

lemma setup_loggers:
  "setup_unix S opt v = (r, v') \<Longrightarrow> m_loggers v' = m_loggers v"
  "setup_tcp S opt v = (r, v') \<Longrightarrow> m_loggers v' = m_loggers v"
  "require_acceptor v = (r, v') \<Longrightarrow> m_loggers v' = m_loggers v"
  by (auto simp: setup_defs add_acceptor_def split: if_splits sum.splits option.splits)

text \<open>The steps that set up the loggers, and where one of them throws.\<close>

lemma setup_sinks_failed:
  assumes "built eps [] v"
    and "setup_file S opt v = (Some f, v') \<or>
      (\<exists>v1. setup_file S opt v = (None, v1) \<and> (setup_systemd sys S opt v1 = (Some f, v') \<or>
      (\<exists>v2. setup_systemd sys S opt v1 = (None, v2) \<and> (setup_syslog sys S opt v2 = (Some f, v') \<or>
      (\<exists>v3. setup_syslog sys S opt v2 = (None, v3) \<and> (setup_eventlog sys S opt v3 = (Some f, v') \<or>
      (\<exists>v4. setup_eventlog sys S opt v3 = (None, v4) \<and> setup_console S v4 = (Some f, v'))))))))"
  shows "f \<in> constructor_failures S opt \<and> (\<exists>k. built eps (take k (wanted_sinks sys opt)) v')"
proof -
  obtain x d y e where o: "optional_sinks sys opt = x @ d @ y @ e"
    and st: "\<And>eps v v'. built eps [] v \<Longrightarrow> setup_file S opt v = (None, v') \<Longrightarrow> built eps x v'"
    "\<And>eps s v v'. built eps s v \<Longrightarrow> setup_systemd sys S opt v = (None, v') \<Longrightarrow> built eps (s @ d) v'"
    "\<And>eps s v v'. built eps s v \<Longrightarrow> setup_syslog sys S opt v = (None, v') \<Longrightarrow> built eps (s @ y) v'"
    "\<And>eps s v v'. built eps s v \<Longrightarrow> setup_eventlog sys S opt v = (None, v') \<Longrightarrow> built eps (s @ e) v'"
    by (rule setup_sinks_stages [of sys opt S]) blast
  have first: "\<exists>k. built eps (take k (wanted_sinks sys opt)) u"
    if "built eps s u" "optional_sinks sys opt = s @ t" for s t u
    using that by (cases "s = []") (auto simp: wanted_sinks_def intro: exI [of _ "length s"] exI [of _ 0])
  show ?thesis
    using assms(2)
  proof (elim disjE exE conjE)
    fix v1 v2 v3 v4
    assume 1: "setup_file S opt v = (None, v1)"
    note b1 = st(1) [OF assms(1) 1]
    show ?thesis if "setup_systemd sys S opt v1 = (Some f, v')"
      using setup_failures(5) [OF that] first [OF b1 o] by simp
    assume 2: "setup_systemd sys S opt v1 = (None, v2)"
    note b2 = st(2) [OF b1 2]
    show ?thesis if "setup_syslog sys S opt v2 = (Some f, v')"
      using setup_failures(6) [OF that] first [OF b2, of "y @ e"] o by simp
    assume 3: "setup_syslog sys S opt v2 = (None, v3)"
    note b3 = st(3) [OF b2 3]
    show ?thesis if "setup_eventlog sys S opt v3 = (Some f, v')"
      using setup_failures(7) [OF that] first [OF b3, of e] o by simp
    assume 4: "setup_eventlog sys S opt v3 = (None, v4)"
    note b4 = st(4) [OF b3 4]
    show ?thesis if "setup_console S v4 = (Some f, v')"
      using setup_failures(8) [OF that] first [OF b4, of "[]"] o by simp
  qed (use setup_failures(4) first [OF assms(1)] in blast)
qed

lemma new_server_failed:
  assumes "new_server sys S opt = (Some f, v)"
  shows "f \<in> constructor_failures S opt \<and> True \<notin> set (m_ioc_threads v) \<and>
    (\<exists>k. map slot_config (m_loggers v) = take k (wanted_sinks sys opt)) \<and>
    (\<forall>l \<in> set (m_loggers v). slot_logger l = new_logger (m_sink (slot_logger l)))"
proof -
  obtain r u where c: "server_ctor sys S opt = (r, u)" by fastforce
  obtain g where g: "r = Some g" "u = v" "Some f = foldr leave_scope (m_ioc_threads v) (Some g)"
    using assms by (cases r) (auto simp: new_server_def c)
  have ctor: "server_ctor sys S opt = (Some g, v)" using c g by simp
  consider (acceptor) "g \<in> constructor_failures S opt" "m_loggers v = []" "m_ioc_threads v = []"
    | (sinks) "g \<in> constructor_failures S opt \<and> (\<exists>k. built (wanted_listeners S opt) (take k (wanted_sinks sys opt)) v)"
    | (threads) v8 where "built (wanted_listeners S opt) (wanted_sinks sys opt) v8"
        "start_threads S (n_threads opt) (server_accept v8) = (Some g, v)"
    using ctor unfolding server_ctor_def ctor_then_Some
  proof (elim disjE exE conjE)
    note empty = empty_server_def [of opt]
    assume 1: "setup_unix S opt (empty_server opt) = (Some g, v)"
    then show thesis using that(1) setup_failures(1) [OF 1] by (simp add: empty)
  next
    fix v1 assume 1: "setup_unix S opt (empty_server opt) = (None, v1)" and 2: "setup_tcp S opt v1 = (Some g, v)"
    then show thesis
      using that(1) setup_failures(2) [OF 2] setup_loggers(1) [OF 1] setup_threads(1) [OF 1] by (simp add: empty_server_def)
  next
    fix v1 v2 assume 1: "setup_unix S opt (empty_server opt) = (None, v1)"
      and 2: "setup_tcp S opt v1 = (None, v2)" and 3: "require_acceptor v2 = (Some g, v)"
    then show thesis
      using that(1) setup_failures(3) [OF 3] setup_acceptors_built [OF 1 2] by (simp add: built_def)
  next
    fix v1 v2 v3
    assume 1: "setup_unix S opt (empty_server opt) = (None, v1)"
      and 2: "setup_tcp S opt v1 = (None, v2)" and 3: "require_acceptor v2 = (None, v3)"
    have b: "built (wanted_listeners S opt) [] v3"
      using 3 setup_acceptors_built [OF 1 2] by (auto simp: require_acceptor_def split: if_splits)
    note failed = that(2) [OF setup_sinks_failed [OF b]]
    show thesis if "setup_file S opt v3 = (Some g, v)" using failed that by blast
    fix v4 assume 4: "setup_file S opt v3 = (None, v4)"
    show thesis if "setup_systemd sys S opt v4 = (Some g, v)" using failed 4 that by blast
    fix v5 assume 5: "setup_systemd sys S opt v4 = (None, v5)"
    show thesis if "setup_syslog sys S opt v5 = (Some g, v)" using failed 4 5 that by blast
    fix v6 assume 6: "setup_syslog sys S opt v5 = (None, v6)"
    show thesis if "setup_eventlog sys S opt v6 = (Some g, v)" using failed 4 5 6 that by blast
    fix v7 assume 7: "setup_eventlog sys S opt v6 = (None, v7)"
    show thesis if "setup_console S v7 = (Some g, v)" using failed 4 5 6 7 that by blast
    fix v8 assume 8: "setup_console S v7 = (None, v8)"
    show thesis if "start_threads S (n_threads opt) (server_accept v8) = (Some g, v)"
      using that(1) setup_sinks_built [OF b 4 5 6 7 8] \<open>\<And>v8. _ v8 \<Longrightarrow> _ v8 \<Longrightarrow> thesis\<close> by blast
  qed
  then have "g \<in> constructor_failures S opt \<and> True \<notin> set (m_ioc_threads v) \<and>
    (\<exists>k. map slot_config (m_loggers v) = take k (wanted_sinks sys opt)) \<and>
    (\<forall>l \<in> set (m_loggers v). slot_logger l = new_logger (m_sink (slot_logger l)))"
  proof cases
    case acceptor
    then show ?thesis by (auto intro: exI [of _ 0])
  next
    case sinks
    then show ?thesis by (auto simp: built_def)
  next
    case threads
    then show ?thesis
      using start_threads_result [OF threads(2)] start_threads_failures [OF threads(2)]
      by (auto simp: built_def server_accept_def intro: exI [of _ "length (wanted_sinks sys opt)"])
  qed
  then show ?thesis using g(3) leave_scopes_joined by force
qed

section \<open>Properties\<close>

text \<open>C22. A server that is constructed has exactly the acceptors and sinks the options ask for, in
  this order and with their levels (the console sink, if there is no other), at least one of
  each; every acceptor has one accept outstanding, every logger is new, and as many threads run
  as the options say.\<close>

theorem new_server_builds:
  assumes "new_server sys S opt = (None, v)"
  shows "map m_acceptor (m_acceptors v) = wanted_listeners S opt \<and> m_acceptors v \<noteq> [] \<and>
    (\<forall>a \<in> set (m_acceptors v). outstanding_accepts a = 1) \<and>
    map slot_config (m_loggers v) = wanted_sinks sys opt \<and> m_loggers v \<noteq> [] \<and>
    (\<forall>l \<in> set (m_loggers v). slot_logger l = new_logger (m_sink (slot_logger l))) \<and>
    m_ioc_threads v = replicate (unat (n_threads opt)) True \<and> \<not> ioc_stopped v"
  using new_server_members [OF assms] by blast

theorem new_server_builds_witness:
  "\<exists>v. new_server Linux sample_services sample_options = (None, v) \<and>
     map m_acceptor (m_acceptors v) =
       [UnixAcceptor ''/tmp/log.sock'', TcpAcceptor ''127.0.0.1'' 12345] \<and>
     map slot_config (m_loggers v) = [(syslog_sink ''scriptor'', 0, None)] \<and>
     length (m_ioc_threads v) = 3"
proof -
  show ?thesis
    using new_sample_server new_server_builds [OF new_sample_server]
    by (auto simp: wanted_listeners_def wanted_sinks_def optional_sinks_def sample_services_def
        sample_options_def default_options_def split: sum.splits)
qed

text \<open>C35. When the constructor throws, what leaves it is the failure of the step that could not be done,
  and never a call of \<^verbatim>\<open>std::terminate\<close>: every thread that has been started, the one that could
  not be stored included, has been joined when its object is destroyed. Of the loggers there
  remain those that were constructed completely, a first part of the sinks asked for.\<close>

theorem new_server_joins_threads:
  assumes "new_server sys S opt = (Some f, v)"
  shows "f \<in> constructor_failures S opt \<and> True \<notin> set (m_ioc_threads v) \<and>
    (\<exists>k. map slot_config (m_loggers v) = take k (wanted_sinks sys opt)) \<and>
    (\<forall>l \<in> set (m_loggers v). slot_logger l = new_logger (m_sink (slot_logger l)))"
  using new_server_failed [OF assms] by blast

theorem new_server_joins_threads_witness:
  "\<exists>v. new_server Linux two_threads sample_options =
       (Some (Raise (Library_error ''bad_alloc'')), v) \<and>
     length (m_ioc_threads v) = 2 \<and> True \<notin> set (m_ioc_threads v)"
proof -
  let ?r = "new_server Linux two_threads sample_options"
  have r: "fst ?r = Some (Raise (Library_error ''bad_alloc''))"
    "length (m_ioc_threads (snd ?r)) = 2"
    by (simp_all add: new_server_def server_ctor_def ctor_then_def setup_defs add_acceptor_def add_logger_def
        sample_services_def two_threads_def sample_options_def default_options_def
        empty_server_def start_threads.simps start_thread_def thread_join_def server_shutdown_def
        server_accept_def)
  then show ?thesis
    using new_server_joins_threads [of Linux two_threads sample_options _ "snd ?r"]
    by (metis prod.collapse)
qed

text \<open>Without a socket file and a socket address the constructor throws, before it has opened a
  socket, created a sink or started a thread.\<close>

theorem new_server_requires_socket:
  assumes "socket_file opt = []" and "socket_address opt = []"
  shows "new_server sys S opt =
    (Some (Raise (Runtime_error ''Must provide socket_file and/or socket_address!'')),
     empty_server opt)"
  using assms by (simp add: new_server_def server_ctor_def ctor_then_def setup_defs empty_server_def)

theorem new_server_requires_socket_witness:
  "fst (new_server Linux sample_services (default_options sample_platform)) =
     Some (Raise (Runtime_error ''Must provide socket_file and/or socket_address!''))"
  by (subst new_server_requires_socket) (simp_all add: default_options_def)

text \<open>A batch reaches every logger, and a sequence of batches reaches every logger whole and in
  order, whether the elements are moved to the only logger or copied to several.\<close>

theorem server_push_reaches_every_logger:
  assumes "k < length ls"
  shows "m_elements (slot_logger (push_batches server_push ls bs ! k)) =
    m_elements (slot_logger (ls ! k)) @ concat bs"
  using assms by (simp add: server_push_batches_nth lvalue.pending_push_batches)

theorem server_push_reaches_every_logger_witness:
  "m_elements (slot_logger (push_batches server_push
      [\<lparr>slot_spec = stdout_sink, slot_level = 0, slot_pattern = None, slot_logger = new_logger []\<rparr>,
       \<lparr>slot_spec = syslog_sink ''a'', slot_level = 4, slot_pattern = None,
        slot_logger = new_logger []\<rparr>]
      [[mk_element 1 info ''x''], [mk_element 2 warn ''y'', mk_element 3 err ''z'']] ! 1)) =
   [mk_element 1 info ''x'', mk_element 2 warn ''y'', mk_element 3 err ''z'']"
  by (subst server_push_reaches_every_logger) (simp_all add: new_logger_def)


end
