(* ===== verification/Server_Run.thy ===== *)
theory Server_Run
  imports Server
begin

text \<open>
  The server at work (\<^verbatim>\<open>src/src/server.cpp\<close> with the handlers of
  \<^verbatim>\<open>src/src/session.cpp\<close>): the threads of the server run the completion handlers of the
  acceptors and of all sessions at once, the workers of the loggers run beside them, and the
  destructor stops them in its order. A handler that touches shared state in several places is
  several steps here: the callback of an accept starts and ends in two steps, a session
  handler decodes, then pushes to one logger after the other, then requests the next read.
  The steps start when the constructor has returned; handlers that run while it is still starting
  threads find fewer threads, and are among the steps here.
  \<open>read_failed\<close>, \<open>dispatched\<close>, \<open>received\<close>, \<open>deliveries\<close> and \<open>accepts_done\<close> are histories.
\<close>

section \<open>State\<close>

text \<open>What a session handler still has to do: the batch, and how many loggers have got it.\<close>

datatype work = Waiting | Dispatching "Element list" nat

record conn =
  conn_session :: Session
  conn_work :: work
  read_failed :: bool
  received :: "string list"
  dispatched :: "Element list list"

text \<open>The destructor: not called; \<^verbatim>\<open>m_ioc.stop()\<close> done; in \<^verbatim>\<open>m_loggers.clear()\<close> at the \<open>k\<close>-th.\<close>

datatype phase = Serving | Stopping | Clearing nat

record ('a, 's) server_sys =
  server :: "('a, 's) Server"
  conns :: "conn list"
  accepting :: "(nat \<times> bool) list"
  server_clock :: world
  server_phase :: phase
  aborted :: bool
  accepts_done :: nat
  deliveries :: "(nat \<times> nat \<times> Element list) list"

definition start_sys :: "('a, 's) Server \<Rightarrow> world \<Rightarrow> ('a, 's) server_sys" where
  "start_sys v w =
     \<lparr>server = v, conns = [], accepting = [], server_clock = w, server_phase = Serving,
      aborted = False, accepts_done = 0, deliveries = []\<rparr>"

section \<open>Handlers\<close>

text \<open>A thread can start a handler if the context is not stopped and not all threads are busy.\<close>

definition busy :: "('a, 's) server_sys \<Rightarrow> nat" where
  "busy y = length (accepting y) + length (filter (\<lambda>c. conn_work c \<noteq> Waiting) (conns y))"

definition io_ready :: "('a, 's) server_sys \<Rightarrow> bool" where
  "io_ready y \<longleftrightarrow> \<not> ioc_stopped (server y) \<and> busy y < length (m_ioc_threads (server y))"

definition accept_start :: "nat \<Rightarrow> bool \<Rightarrow> ('a, 's) server_sys \<Rightarrow> ('a, 's) server_sys" where
  "accept_start j ec y =
     y\<lparr>server := (server y)\<lparr>m_acceptors :=
         (m_acceptors (server y))[j := accept_completed (m_acceptors (server y) ! j)]\<rparr>,
       accepting := accepting y @ [(j, ec)]\<rparr>"

text \<open>
  The callback of \<^verbatim>\<open>Server::accept\<close>: a session for the new connection, then an accept on every
  acceptor. \<open>junk\<close> is the content of the new buffer.
\<close>

definition on_accept ::
    "string \<Rightarrow> bool \<Rightarrow> Socket \<Rightarrow> ('a, 's) server_sys \<Rightarrow> ('a, 's) server_sys" where
  "on_accept junk ec sock y =
     y\<lparr>conns := conns y @ (if \<not> ec then
           [\<lparr>conn_session = session_read (new_session sock junk), conn_work = Waiting,
             read_failed = False, received = [], dispatched = []\<rparr>] else []),
       server := server_accept (server y),
       accepts_done := accepts_done y + 1\<rparr>"

definition set_conn :: "nat \<Rightarrow> conn \<Rightarrow> ('a, 's) server_sys \<Rightarrow> ('a, 's) server_sys" where
  "set_conn i c y = y\<lparr>conns := (conns y)[i := c]\<rparr>"

text \<open>The handler of a read up to the call of \<^verbatim>\<open>m_push\<close>; without elements it goes on to read.\<close>

definition read_start ::
    "'j json_ops \<Rightarrow> platform \<Rightarrow> nat \<Rightarrow> read_result \<Rightarrow> ('a, 's) server_sys \<Rightarrow>
     ('a, 's) server_sys" where
  "read_start J P i ev y =
     (let c = conns y ! i; s = deliver (conn_session c) ev
      in case transferred ev of
           None \<Rightarrow> set_conn i (c\<lparr>conn_session := s, read_failed := True\<rparr>) y
         | Some n \<Rightarrow>
             (case process J P (m_processor s) (server_clock y) (take n (m_buffer s)) of
                (Inl f, p', w') \<Rightarrow> y\<lparr>aborted := True, server_clock := w'\<rparr>
              | (Inr es, p', w') \<Rightarrow>
                  set_conn i (c\<lparr>received := received c @ [take n (m_buffer s)],
                      conn_session := (if es \<noteq> [] then s\<lparr>m_processor := p'\<rparr>
                        else session_read (s\<lparr>m_processor := p'\<rparr>)),
                      conn_work := (if es \<noteq> [] then Dispatching es 0 else Waiting)\<rparr>)
                    (y\<lparr>server_clock := w'\<rparr>)))"

definition set_logger ::
    "nat \<Rightarrow> 's Logger \<Rightarrow> ('a, 's) server_sys \<Rightarrow> ('a, 's) server_sys" where
  "set_logger k l y =
     y\<lparr>server := (server y)\<lparr>m_loggers :=
         (m_loggers (server y))[k := (m_loggers (server y) ! k)\<lparr>slot_logger := l\<rparr>]\<rparr>\<rparr>"

definition logger_at :: "('a, 's) server_sys \<Rightarrow> nat \<Rightarrow> 's Logger" where
  "logger_at y k = slot_logger (m_loggers (server y) ! k)"

text \<open>One call of \<^verbatim>\<open>push\<close> by the callback, and the end of the handler.\<close>

definition push_one :: "nat \<Rightarrow> Element list \<Rightarrow> nat \<Rightarrow> ('a, 's) server_sys \<Rightarrow> ('a, 's) server_sys" where
  "push_one i es k y =
     (set_logger k ((if length (m_loggers (server y)) = 1 then push_move else push_copy)
          (logger_at y k) es)
        (set_conn i ((conns y ! i)\<lparr>conn_work := Dispatching es (Suc k)\<rparr>) y))
       \<lparr>deliveries := deliveries y @ [(i, k, es)]\<rparr>"

definition read_finish :: "nat \<Rightarrow> Element list \<Rightarrow> ('a, 's) server_sys \<Rightarrow> ('a, 's) server_sys" where
  "read_finish i es y =
     set_conn i ((conns y ! i)\<lparr>conn_work := Waiting,
         conn_session := session_read (conn_session (conns y ! i)),
         dispatched := dispatched (conns y ! i) @ [es]\<rparr>) y"

section \<open>Steps\<close>

text \<open>
  \<open>ops spec lvl\<close> are the operations of a sink whose level has been set to \<open>lvl\<close>. The workers
  take steps of the logger machine that are not pushes or the destructor's.
\<close>

inductive server_step ::
    "'j json_ops \<Rightarrow> platform \<Rightarrow> (sink_spec \<Rightarrow> int \<Rightarrow> 's sink_ops) \<Rightarrow>
     ('a, 's) server_sys \<Rightarrow> ('a, 's) server_sys \<Rightarrow> bool" for J P ops where
  accepted: "io_ready y \<Longrightarrow> j < length (m_acceptors (server y)) \<Longrightarrow>
     0 < outstanding_accepts (m_acceptors (server y) ! j) \<Longrightarrow>
     server_step J P ops y (accept_start j ec y)"
| accept_finished: "accepting y = hs @ (j, ec) # hs' \<Longrightarrow> length junk = buffer_size \<Longrightarrow>
     server_step J P ops y
       (accept_callback (m_acceptors (server y) ! j) ec
          (\<lambda>ec sock. on_accept junk ec sock (y\<lparr>accepting := hs @ hs'\<rparr>)))"
| read_completes: "io_ready y \<Longrightarrow> i < length (conns y) \<Longrightarrow>
     0 < outstanding_reads (m_socket (conn_session (conns y ! i))) \<Longrightarrow>
     (\<And>data. ev = Read_ok data \<Longrightarrow> length data \<le> buffer_size) \<Longrightarrow>
     server_step J P ops y (read_start J P i ev y)"
| pushes: "i < length (conns y) \<Longrightarrow> conn_work (conns y ! i) = Dispatching es k \<Longrightarrow>
     k < length (m_loggers (server y)) \<Longrightarrow> server_step J P ops y (push_one i es k y)"
| read_finished: "i < length (conns y) \<Longrightarrow> conn_work (conns y ! i) = Dispatching es k \<Longrightarrow>
     k = length (m_loggers (server y)) \<Longrightarrow> server_step J P ops y (read_finish i es y)"
| works: "k < length (m_loggers (server y)) \<Longrightarrow> slot = m_loggers (server y) ! k \<Longrightarrow>
     server_step J P ops y
       (set_logger k (worker_step (ops (slot_spec slot) (slot_level slot)) (slot_logger slot)) y)"
| wakes: "k < length (m_loggers (server y)) \<Longrightarrow> worker_at (logger_at y k) = Asleep \<Longrightarrow>
     server_step J P ops y (set_logger k ((logger_at y k)\<lparr>worker_at := Checking\<rparr>) y)"
| stops: "server_phase y = Serving \<Longrightarrow>
     server_step J P ops y
       (y\<lparr>server := (server y)\<lparr>ioc_stopped := True\<rparr>, server_phase := Stopping\<rparr>)"
| joins: "server_phase y = Stopping \<Longrightarrow> busy y = 0 \<Longrightarrow>
     server_step J P ops y (y\<lparr>server := server_shutdown (server y), server_phase := Clearing 0\<rparr>)"
| marks: "server_phase y = Clearing k \<Longrightarrow> k < length (m_loggers (server y)) \<Longrightarrow>
     dtor_at (logger_at y k) = Alive \<Longrightarrow>
     server_step J P ops y
       (set_logger k ((logger_at y k)\<lparr>m_done := True, dtor_at := Marked\<rparr>) y)"
| notifies: "server_phase y = Clearing k \<Longrightarrow> k < length (m_loggers (server y)) \<Longrightarrow>
     dtor_at (logger_at y k) = Marked \<Longrightarrow>
     server_step J P ops y
       (set_logger k (notify_one ((logger_at y k)\<lparr>dtor_at := Joining\<rparr>)) y)"
| clears: "server_phase y = Clearing k \<Longrightarrow> k < length (m_loggers (server y)) \<Longrightarrow>
     dtor_at (logger_at y k) = Joining \<Longrightarrow> worker_at (logger_at y k) = Exited \<Longrightarrow>
     server_step J P ops y
       ((set_logger k ((logger_at y k)\<lparr>dtor_at := Destroyed\<rparr>) y)\<lparr>server_phase := Clearing (Suc k)\<rparr>)"

text \<open>
  A failure that leaves a handler (\<open>aborted\<close>) or the function of a worker thread (\<open>Crashed\<close>)
  ends the program: no thread of it takes another step.
\<close>

definition worker_crashed :: "('a, 's) server_sys \<Rightarrow> bool" where
  "worker_crashed y \<longleftrightarrow> (\<exists>slot \<in> set (m_loggers (server y)). worker_at (slot_logger slot) = Crashed)"

definition terminated :: "('a, 's) server_sys \<Rightarrow> bool" where
  "terminated y \<longleftrightarrow> aborted y \<or> worker_crashed y"

inductive server_reachable ::
    "'j json_ops \<Rightarrow> platform \<Rightarrow> (sink_spec \<Rightarrow> int \<Rightarrow> 's sink_ops) \<Rightarrow>
     ('a, 's) server_sys \<Rightarrow> ('a, 's) server_sys \<Rightarrow> bool" for J P ops where
  started: "server_reachable J P ops y y"
| goes_on: "server_reachable J P ops y z \<Longrightarrow> \<not> terminated z \<Longrightarrow> server_step J P ops z z' \<Longrightarrow>
     server_reachable J P ops y z'"

inductive_cases server_stepE: "server_step J P ops y z"

section \<open>What a step leaves alone\<close>

lemma set_conn_sel [simp]:
  "server (set_conn i c y) = server y" "conns (set_conn i c y) = (conns y)[i := c]"
  "accepting (set_conn i c y) = accepting y" "server_clock (set_conn i c y) = server_clock y"
  "server_phase (set_conn i c y) = server_phase y" "aborted (set_conn i c y) = aborted y"
  "accepts_done (set_conn i c y) = accepts_done y" "deliveries (set_conn i c y) = deliveries y"
  by (simp_all add: set_conn_def)

lemma set_logger_sel [simp]:
  "conns (set_logger k l y) = conns y" "accepting (set_logger k l y) = accepting y"
  "server_clock (set_logger k l y) = server_clock y"
  "server_phase (set_logger k l y) = server_phase y" "aborted (set_logger k l y) = aborted y"
  "accepts_done (set_logger k l y) = accepts_done y" "deliveries (set_logger k l y) = deliveries y"
  "m_acceptors (server (set_logger k l y)) = m_acceptors (server y)"
  "ioc_stopped (server (set_logger k l y)) = ioc_stopped (server y)"
  "m_ioc_threads (server (set_logger k l y)) = m_ioc_threads (server y)"
  "length (m_loggers (server (set_logger k l y))) = length (m_loggers (server y))"
  by (simp_all add: set_logger_def)

lemma slot_set_logger:
  "j < length (m_loggers (server y)) \<Longrightarrow>
     slot_spec (m_loggers (server (set_logger k l y)) ! j) = slot_spec (m_loggers (server y) ! j) \<and>
     slot_level (m_loggers (server (set_logger k l y)) ! j) = slot_level (m_loggers (server y) ! j)"
  by (cases "j = k") (simp_all add: set_logger_def)

lemma logger_at_set_logger:
  "j < length (m_loggers (server y)) \<Longrightarrow>
     logger_at (set_logger k l y) j = (if j = k then l else logger_at y j)"
  by (cases "j = k") (simp_all add: set_logger_def logger_at_def)

lemma accept_start_sel [simp]:
  "conns (accept_start j ec y) = conns y"
  "accepting (accept_start j ec y) = accepting y @ [(j, ec)]"
  "server_phase (accept_start j ec y) = server_phase y"
  "accepts_done (accept_start j ec y) = accepts_done y"
  "deliveries (accept_start j ec y) = deliveries y"
  "m_loggers (server (accept_start j ec y)) = m_loggers (server y)"
  "ioc_stopped (server (accept_start j ec y)) = ioc_stopped (server y)"
  "m_ioc_threads (server (accept_start j ec y)) = m_ioc_threads (server y)"
  by (simp_all add: accept_start_def)

lemma on_accept_sel [simp]:
  "accepting (on_accept junk ec sock y) = accepting y"
  "server_phase (on_accept junk ec sock y) = server_phase y"
  "accepts_done (on_accept junk ec sock y) = accepts_done y + 1"
  "deliveries (on_accept junk ec sock y) = deliveries y"
  "m_acceptors (server (on_accept junk ec sock y)) = map async_accept (m_acceptors (server y))"
  "m_loggers (server (on_accept junk ec sock y)) = m_loggers (server y)"
  "ioc_stopped (server (on_accept junk ec sock y)) = ioc_stopped (server y)"
  "m_ioc_threads (server (on_accept junk ec sock y)) = m_ioc_threads (server y)"
  by (simp_all add: on_accept_def server_accept_def)

text \<open>The three outcomes of the first part of a read handler.\<close>

lemma read_start_cases [consumes 1, case_names error_code failed decoded]:
  assumes "read_start J P i ev y = z"
  obtains "ev = Read_error"
      "z = set_conn i ((conns y ! i)\<lparr>conn_session := deliver (conn_session (conns y ! i)) ev,
           read_failed := True\<rparr>) y"
  | w' where "z = y\<lparr>aborted := True, server_clock := w'\<rparr>"
  | data es p' w' s where "ev = Read_ok data"
      "process J P (m_processor (conn_session (conns y ! i))) (server_clock y) data = (Inr es, p', w')"
      "s = (deliver (conn_session (conns y ! i)) ev)\<lparr>m_processor := p'\<rparr>"
      "z = set_conn i ((conns y ! i)\<lparr>received := received (conns y ! i) @ [data],
           conn_session := (if es \<noteq> [] then s else session_read s),
           conn_work := (if es \<noteq> [] then Dispatching es 0 else Waiting)\<rparr>) (y\<lparr>server_clock := w'\<rparr>)"
proof (cases ev)
  case Read_error
  then show ?thesis using assms that(1) by (simp add: read_start_def Let_def)
next
  case (Read_ok data)
  show ?thesis
  proof (cases "process J P (m_processor (conn_session (conns y ! i))) (server_clock y) data")
    case (fields r p' w')
    show ?thesis
    proof (cases r)
      case (Inl f)
      then show ?thesis
        using assms that(2) [of w'] Read_ok fields by (simp add: read_start_def Let_def)
    next
      case (Inr es)
      have z: "z = set_conn i ((conns y ! i)\<lparr>received := received (conns y ! i) @ [data],
          conn_session := (if es \<noteq> []
            then (deliver (conn_session (conns y ! i)) ev)\<lparr>m_processor := p'\<rparr>
            else session_read ((deliver (conn_session (conns y ! i)) ev)\<lparr>m_processor := p'\<rparr>)),
          conn_work := (if es \<noteq> [] then Dispatching es 0 else Waiting)\<rparr>) (y\<lparr>server_clock := w'\<rparr>)"
        using assms Read_ok fields Inr by (cases "es = []") (auto simp: read_start_def Let_def)
      show ?thesis by (rule that(3) [OF Read_ok fields [unfolded Inr] refl z])
    qed
  qed
qed

lemma read_start_sel [simp]:
  "server (read_start J P i ev y) = server y"
  "accepting (read_start J P i ev y) = accepting y"
  "server_phase (read_start J P i ev y) = server_phase y"
  "accepts_done (read_start J P i ev y) = accepts_done y"
  "deliveries (read_start J P i ev y) = deliveries y"
  "length (conns (read_start J P i ev y)) = length (conns y)"
  by (cases rule: read_start_cases [OF refl [of "read_start J P i ev y"]], simp_all)+

lemma push_one_sel [simp]:
  "conns (push_one i es k y) = (conns y)[i := (conns y ! i)\<lparr>conn_work := Dispatching es (Suc k)\<rparr>]"
  "accepting (push_one i es k y) = accepting y"
  "server_phase (push_one i es k y) = server_phase y"
  "accepts_done (push_one i es k y) = accepts_done y"
  "deliveries (push_one i es k y) = deliveries y @ [(i, k, es)]"
  "m_acceptors (server (push_one i es k y)) = m_acceptors (server y)"
  "ioc_stopped (server (push_one i es k y)) = ioc_stopped (server y)"
  "m_ioc_threads (server (push_one i es k y)) = m_ioc_threads (server y)"
  "length (m_loggers (server (push_one i es k y))) = length (m_loggers (server y))"
  by (simp_all add: push_one_def)

lemma logger_at_push_one:
  "j < length (m_loggers (server y)) \<Longrightarrow>
     logger_at (push_one i es k y) j =
       (if j = k then push_copy (logger_at y k) es else logger_at y j)"
proof (cases "j = k")
qed (simp_all add: push_one_def push_move_eq_copy set_logger_def set_conn_def logger_at_def)

lemma read_finish_sel [simp]:
  "server (read_finish i es y) = server y" "accepting (read_finish i es y) = accepting y"
  "server_phase (read_finish i es y) = server_phase y"
  "accepts_done (read_finish i es y) = accepts_done y"
  "deliveries (read_finish i es y) = deliveries y"
  "length (conns (read_finish i es y)) = length (conns y)"
  by (simp_all add: read_finish_def)

lemma worker_crashed_same: "m_loggers (server z) = m_loggers (server y) \<Longrightarrow> worker_crashed z \<longleftrightarrow> worker_crashed y"
  by (simp add: worker_crashed_def)

lemma terminated_same:
  "m_loggers (server z) = m_loggers (server y) \<Longrightarrow> aborted z = aborted y \<Longrightarrow>
   terminated z \<longleftrightarrow> terminated y"
  by (simp add: terminated_def worker_crashed_def)

lemma terminated_accept_start [simp]: "terminated (accept_start j ec y) \<longleftrightarrow> terminated y"
  by (rule terminated_same) (simp_all add: accept_start_def)

lemma worker_crashed_set_logger:
  assumes "\<not> worker_crashed y" and "worker_at l \<noteq> Crashed"
  shows "\<not> worker_crashed (set_logger k l y)"
  using assms set_update_subset_insert [of "m_loggers (server y)" k]
  unfolding worker_crashed_def set_logger_def by fastforce

lemma new_server_not_terminated:
  assumes "new_server sys S opt = (None, v)"
  shows "\<not> terminated (start_sys v w)"
proof -
  have "worker_at (slot_logger l) \<noteq> Crashed" if "l \<in> set (m_loggers v)" for l
    using new_server_members(6) [OF assms] that
    by (metis Logger.select_convs(4) new_logger_def worker_state.distinct(7))
  then show ?thesis by (simp add: terminated_def worker_crashed_def start_sys_def)
qed


section \<open>Accepts\<close>

text \<open>
  Every callback requests an accept on every acceptor, so that the number of accepts that are
  outstanding or under way grows with each one, unless there is one acceptor only.
\<close>

definition total_accepts :: "('a, 's) server_sys \<Rightarrow> nat" where
  "total_accepts y = sum_list (map outstanding_accepts (m_acceptors (server y))) + length (accepting y)"

lemma sum_list_async_accept:
  "sum_list (map outstanding_accepts (map async_accept as)) =
     sum_list (map outstanding_accepts as) + length as"
  by (induction as) simp_all

lemma sum_list_accept_completed:
  "j < length as \<Longrightarrow> 0 < outstanding_accepts (as ! j) \<Longrightarrow>
     Suc (sum_list (map outstanding_accepts (as[j := accept_completed (as ! j)]))) =
     sum_list (map outstanding_accepts as)"
proof (induction as arbitrary: j)
  case (Cons a as)
  then show ?case by (cases j) auto
qed simp

definition accept_inv :: "nat \<Rightarrow> ('a, 's) server_sys \<Rightarrow> bool" where
  "accept_inv k y \<longleftrightarrow> length (m_acceptors (server y)) = k \<and>
     total_accepts y = k + accepts_done y * (k - 1)"

lemma accept_inv_frame:
  "m_acceptors (server z) = m_acceptors (server y) \<Longrightarrow> accepting z = accepting y \<Longrightarrow>
   accepts_done z = accepts_done y \<Longrightarrow> accept_inv k y \<Longrightarrow> accept_inv k z"
  by (simp add: accept_inv_def total_accepts_def)

lemma server_step_accept_inv:
  assumes "server_step J P ops y z" and "0 < k" and "accept_inv k y"
  shows "accept_inv k z"
  using assms
proof (induction rule: server_step.induct)
  case (accepted y j ec)
  then show ?case
    using sum_list_accept_completed [OF accepted(2,3)]
    by (simp add: accept_inv_def total_accepts_def accept_start_def)
next
  case (accept_finished y hs j ec hs' junk)
  then show ?case
    by (cases k)
      (auto simp: accept_inv_def total_accepts_def accept_callback_def
        sum_list_async_accept [unfolded map_map] algebra_simps)
qed (auto intro: accept_inv_frame simp: server_shutdown_def)

lemma server_reachable_accept_inv:
  "server_reachable J P ops y z \<Longrightarrow> 0 < k \<Longrightarrow> accept_inv k y \<Longrightarrow> accept_inv k z"
  by (induction rule: server_reachable.induct) (auto intro: server_step_accept_inv)

lemma new_server_accept_inv:
  assumes "new_server sys S opt = (None, v)"
  shows "accept_inv (length (m_acceptors v)) (start_sys v w) \<and> 0 < length (m_acceptors v)"
proof -
  obtain u where b: "built (wanted_listeners S opt) (wanted_sinks sys opt) u"
    and ne: "wanted_listeners S opt \<noteq> []"
    and t: "start_threads S (n_threads opt) (server_accept u) = (None, v)"
    using new_server_steps [OF assms] by blast
  have "m_acceptors v = map async_accept (map new_acceptor (wanted_listeners S opt))"
    using start_threads_result [OF t] b by (auto simp: server_accept_def built_def)
  moreover have "sum_list (map outstanding_accepts (map new_acceptor eps)) = 0" for eps :: "'a listener list"
    by (induction eps) simp_all
  ultimately show ?thesis
    using ne by (simp add: accept_inv_def total_accepts_def start_sys_def
        sum_list_async_accept del: map_map)
qed


section \<open>Producers stop before consumers\<close>

definition alive_from :: "nat \<Rightarrow> ('a, 's) server_sys \<Rightarrow> bool" where
  "alive_from k y \<longleftrightarrow> (\<forall>j. k \<le> j \<and> j < length (m_loggers (server y)) \<longrightarrow> dtor_at (logger_at y j) = Alive)"

definition phase_inv :: "('a, 's) server_sys \<Rightarrow> bool" where
  "phase_inv y \<longleftrightarrow> (ioc_stopped (server y) \<longleftrightarrow> server_phase y \<noteq> Serving) \<and>
     (case server_phase y of Clearing k \<Rightarrow> busy y = 0 \<and> alive_from (Suc k) y | _ \<Rightarrow> alive_from 0 y)"

lemma busy_0: "busy y = 0 \<longleftrightarrow> accepting y = [] \<and> (\<forall>i < length (conns y). conn_work (conns y ! i) = Waiting)"
  by (auto simp: busy_def filter_empty_conv all_set_conv_all_nth)

lemma worker_step_dtor [simp]: "dtor_at (worker_step K l) = dtor_at l"
proof (cases "worker_at l")
  case (Logging es count)
  then show ?thesis by (cases es) (auto simp: worker_step_def split: prod.splits option.splits)
qed (auto simp: worker_step_def check_step_def split: prod.splits option.splits)

lemma push_copy_dtor [simp]: "dtor_at (push_copy l es) = dtor_at l"
  by (simp add: push_copy_def)

lemma alive_from_same:
  "(\<And>j. j < length (m_loggers (server y)) \<Longrightarrow> dtor_at (logger_at z j) = dtor_at (logger_at y j)) \<Longrightarrow>
   length (m_loggers (server z)) = length (m_loggers (server y)) \<Longrightarrow>
   alive_from k z \<longleftrightarrow> alive_from k y"
  by (simp add: alive_from_def)

lemma logger_at_same [simp]:
  "logger_at (accept_start j ec y) k = logger_at y k"
  "logger_at (on_accept junk ec sock y) k = logger_at y k"
  "logger_at (read_start J P i ev y) k = logger_at y k"
  "logger_at (read_finish i es y) k = logger_at y k"
  "logger_at (y\<lparr>accepting := hs\<rparr>) k = logger_at y k"
  "logger_at (y\<lparr>server := v\<rparr>) k = slot_logger (m_loggers v ! k)"
  "logger_at (y\<lparr>server_phase := p\<rparr>) k = logger_at y k"
  by (simp_all add: logger_at_def)

lemma alive_from_weaken: "alive_from k y \<Longrightarrow> k \<le> k' \<Longrightarrow> alive_from k' y"
  by (auto simp: alive_from_def)

text \<open>A step outside the destructor keeps what the destructor has done.\<close>

lemma phase_inv_frame:
  assumes "phase_inv y" and "server_phase z = server_phase y"
    and "ioc_stopped (server z) = ioc_stopped (server y)"
    and "\<And>j. j < length (m_loggers (server y)) \<Longrightarrow> dtor_at (logger_at z j) = dtor_at (logger_at y j)"
    and "length (m_loggers (server z)) = length (m_loggers (server y))"
    and "busy y = 0 \<Longrightarrow> ioc_stopped (server y) \<Longrightarrow> busy z = 0"
  shows "phase_inv z"
proof -
  have "alive_from k z \<longleftrightarrow> alive_from k y" for k using assms(4,5) by (rule alive_from_same)
  then show ?thesis using assms(1-3,6) by (auto simp: phase_inv_def split: phase.splits)
qed

lemma busy_set_logger [simp]:
  "busy (set_logger k l y) = busy y" "busy (y\<lparr>server_phase := p\<rparr>) = busy y"
  by (simp_all add: busy_def)

lemma server_step_phase_inv:
  assumes "server_step J P ops y z" and "phase_inv y"
  shows "phase_inv z"
  using assms
proof (induction rule: server_step.induct)
  case (accepted y j ec)
  then show ?case
    by (intro phase_inv_frame [OF accepted(4)]) (auto simp: io_ready_def)
next
  case (accept_finished y hs j ec hs' junk)
  then show ?case
    by (intro phase_inv_frame [OF accept_finished(3)])
      (auto simp: accept_callback_def busy_0)
next
  case (read_completes y i ev)
  then show ?case
    by (intro phase_inv_frame [OF read_completes(5)]) (auto simp: io_ready_def)
next
  case (pushes i y es k)
  then show ?case
    by (intro phase_inv_frame [OF pushes(4)]) (auto simp: logger_at_push_one busy_0)
next
  case (read_finished i y es k)
  then show ?case
    by (intro phase_inv_frame [OF read_finished(4)]) (auto simp: busy_0)
next
  case (works k y slot)
  then show ?case
    by (intro phase_inv_frame [OF works(3)])
      (auto simp: logger_at_set_logger, simp_all add: logger_at_def)
next
  case (wakes k y)
  then show ?case
    by (intro phase_inv_frame [OF wakes(3)]) (auto simp: logger_at_set_logger)
next
  case (stops y)
  then show ?case by (simp add: phase_inv_def alive_from_def logger_at_def)
next
  case (joins y)
  then show ?case
    by (simp add: phase_inv_def alive_from_def logger_at_def busy_def)
next
  case (marks y k)
  then show ?case
    by (auto simp: phase_inv_def alive_from_def logger_at_set_logger)
next
  case (notifies y k)
  then show ?case
    by (auto simp: phase_inv_def alive_from_def logger_at_set_logger)
next
  case (clears y k)
  then show ?case
    by (auto simp: phase_inv_def alive_from_def logger_at_set_logger)
qed

lemma server_reachable_phase_inv:
  "server_reachable J P ops y z \<Longrightarrow> phase_inv y \<Longrightarrow> phase_inv z"
  by (induction rule: server_reachable.induct) (auto intro: server_step_phase_inv)

lemma phase_inv_pushing:
  assumes "phase_inv y" and "i < length (conns y)" and "conn_work (conns y ! i) \<noteq> Waiting"
    and "k < length (m_loggers (server y))"
  shows "dtor_at (logger_at y k) = Alive"
proof -
  have "busy y \<noteq> 0" using assms(2,3) by (auto simp: busy_0)
  then show ?thesis using assms(1,4) by (auto simp: phase_inv_def alive_from_def split: phase.splits)
qed


section \<open>Every logger follows the logger machine\<close>

definition slot_ops :: "(sink_spec \<Rightarrow> int \<Rightarrow> 's sink_ops) \<Rightarrow> 's slot \<Rightarrow> 's sink_ops" where
  "slot_ops ops slot = ops (slot_spec slot) (slot_level slot)"

definition loggers_inv :: "(sink_spec \<Rightarrow> int \<Rightarrow> 's sink_ops) \<Rightarrow> ('a, 's) server_sys \<Rightarrow> bool" where
  "loggers_inv ops y \<longleftrightarrow> (\<forall>slot \<in> set (m_loggers (server y)).
     \<exists>sink. logger_reachable (slot_ops ops slot) sink (slot_logger slot))"

text \<open>A slot as a machine: the steps of its logger, with the sink it was given.\<close>

definition slot_step :: "(sink_spec \<Rightarrow> int \<Rightarrow> 's sink_ops) \<Rightarrow> 's slot \<Rightarrow> 's slot \<Rightarrow> bool" where
  "slot_step ops s s' \<longleftrightarrow>
     (\<exists>l. logger_step (slot_ops ops s) (slot_logger s) l \<and> s' = s\<lparr>slot_logger := l\<rparr>)"

definition slot_fresh :: "'s slot \<Rightarrow> bool" where
  "slot_fresh s \<longleftrightarrow> (\<exists>sink. slot_logger s = new_logger sink)"

lemma slot_ops_slot_logger [simp]: "slot_ops ops (s\<lparr>slot_logger := l\<rparr>) = slot_ops ops s"
  by (simp add: slot_ops_def)

lemma slot_steps_reachable:
  "(slot_step ops)\<^sup>*\<^sup>* a s \<Longrightarrow> slot_logger a = new_logger sink \<Longrightarrow>
   logger_reachable (slot_ops ops s) sink (slot_logger s)"
  by (induction rule: rtranclp_induct) (auto simp: slot_step_def intro: logger_reachable.intros)

lemma logger_reachable_slot_steps:
  "logger_reachable (slot_ops ops s) sink l \<Longrightarrow>
   (slot_step ops)\<^sup>*\<^sup>* (s\<lparr>slot_logger := new_logger sink\<rparr>) (s\<lparr>slot_logger := l\<rparr>)"
proof (induction rule: logger_reachable.induct)
  case (stepped l l')
  then have "slot_step ops (s\<lparr>slot_logger := l\<rparr>) (s\<lparr>slot_logger := l'\<rparr>)"
    by (auto simp: slot_step_def)
  with stepped.IH show ?case by (rule rtranclp.rtrancl_into_rtrancl)
qed simp

lemma loggers_inv_iff:
  "loggers_inv ops y \<longleftrightarrow> (\<forall>k < length (m_loggers (server y)).
     \<exists>a. slot_fresh a \<and> (slot_step ops)\<^sup>*\<^sup>* a (m_loggers (server y) ! k))"
proof -
  have "(\<exists>sink. logger_reachable (slot_ops ops s) sink (slot_logger s)) \<longleftrightarrow>
      (\<exists>a. slot_fresh a \<and> (slot_step ops)\<^sup>*\<^sup>* a s)" for s :: "'a slot"
    using slot_steps_reachable [of ops _ s] logger_reachable_slot_steps [of ops s _ "slot_logger s"]
    unfolding slot_fresh_def by force
  then show ?thesis by (simp add: loggers_inv_def all_set_conv_all_nth)
qed

text \<open>A logger of which nothing but the logger itself changes.\<close>

lemma slot_steps_set_logger:
  assumes "logger_step (slot_ops ops (m_loggers (server y) ! k)) (logger_at y k) l"
    and "j < length (m_loggers (server y))"
  shows "(slot_step ops)\<^sup>*\<^sup>* (m_loggers (server y) ! j) (m_loggers (server (set_logger k l y)) ! j)"
proof (cases "j = k")
  case True
  then have "slot_step ops (m_loggers (server y) ! j) (m_loggers (server (set_logger k l y)) ! j)"
    using assms by (auto simp: slot_step_def set_logger_def logger_at_def)
  then show ?thesis by blast
qed (simp add: set_logger_def)

lemma slot_steps_same:
  "m_loggers (server z) = m_loggers (server y) \<Longrightarrow>
   (slot_step ops)\<^sup>*\<^sup>* (m_loggers (server y) ! j) (m_loggers (server z) ! j)"
  by simp

lemma push_one_set_logger:
  "m_loggers (server (push_one i es k y)) =
     m_loggers (server (set_logger k (push_copy (logger_at y k) es) y))"
  by (simp add: push_one_def set_logger_def push_move_eq_copy)

lemma server_step_slots:
  assumes "server_step J P ops y z" and "phase_inv y" and "j < length (m_loggers (server y))"
  shows "(slot_step ops)\<^sup>*\<^sup>* (m_loggers (server y) ! j) (m_loggers (server z) ! j)"
  using assms
proof (induction rule: server_step.induct)
  case (pushes i y es k)
  then have "dtor_at (logger_at y k) = Alive" by (auto intro: phase_inv_pushing)
  then show ?case
    unfolding push_one_set_logger using pushes
    by (intro slot_steps_set_logger logger_step.push_lvalue) simp_all
next
  case (works k y slot)
  then show ?case
    by (intro slot_steps_set_logger) (simp_all add: slot_ops_def logger_at_def logger_step.work)
next
  case (wakes k y)
  then show ?case by (intro slot_steps_set_logger logger_step.spurious) simp_all
next
  case (marks y k)
  then show ?case by (intro slot_steps_set_logger logger_step.dtor_mark) simp_all
next
  case (notifies y k)
  then show ?case by (intro slot_steps_set_logger logger_step.dtor_notify) simp_all
next
  case (clears y k)
  then have "(slot_step ops)\<^sup>*\<^sup>* (m_loggers (server y) ! j)
      (m_loggers (server (set_logger k ((logger_at y k)\<lparr>dtor_at := Destroyed\<rparr>) y)) ! j)"
    by (intro slot_steps_set_logger logger_step.dtor_join) simp_all
  then show ?case by simp
qed (auto intro!: slot_steps_same simp: accept_callback_def)

lemma server_step_loggers [simp]:
  "server_step J P ops y z \<Longrightarrow> length (m_loggers (server z)) = length (m_loggers (server y))"
  by (induction rule: server_step.induct) (simp_all add: accept_callback_def)

text \<open>The loggers are machines the server hosts; it never adds one.\<close>

interpretation hosted_loggers: hosted_machines "server_step J P ops" phase_inv
    "\<lambda>y. m_loggers (server y)" "slot_step ops" slot_fresh
  for J :: "'j json_ops" and P ops
  by unfold_locales (auto intro: server_step_phase_inv server_step_slots)

lemma server_step_loggers_inv:
  "server_step J P ops y z \<Longrightarrow> phase_inv y \<Longrightarrow> loggers_inv ops y \<Longrightarrow> loggers_inv ops z"
  unfolding loggers_inv_iff using hosted_loggers.parts_begin_step by blast

lemma server_reachable_steps: "server_reachable J P ops y z \<Longrightarrow> (server_step J P ops)\<^sup>*\<^sup>* y z"
  by (induction rule: server_reachable.induct) (auto intro: rtranclp.rtrancl_into_rtrancl)

lemma server_reachable_loggers_inv:
  "server_reachable J P ops y z \<Longrightarrow> phase_inv y \<Longrightarrow> loggers_inv ops y \<Longrightarrow> loggers_inv ops z"
  unfolding loggers_inv_iff using hosted_loggers.parts_begin [OF server_reachable_steps] by blast

lemma new_server_invs:
  assumes "new_server sys S opt = (None, v)"
  shows "phase_inv (start_sys v w)" and "loggers_inv ops (start_sys v w)"
    and "\<forall>slot \<in> set (m_loggers v). pushed (slot_logger slot) = []"
proof -
  obtain u where b: "built (wanted_listeners S opt) (wanted_sinks sys opt) u"
    and t: "start_threads S (n_threads opt) (server_accept u) = (None, v)"
    using new_server_steps [OF assms] by blast
  have l: "m_loggers v = m_loggers u" "\<not> ioc_stopped v"
    using start_threads_result [OF t] b by (auto simp: server_accept_def built_def)
  have new: "slot_logger slot = new_logger (m_sink (slot_logger slot))"
    if "slot \<in> set (m_loggers v)" for slot
    using b that l(1) by (auto simp: built_def)
  have alive: "dtor_at (slot_logger slot) = Alive" if "slot \<in> set (m_loggers v)" for slot
    by (subst new [OF that]) (simp add: new_logger_def)
  show "phase_inv (start_sys v w)"
    using alive l(2) by (auto simp: phase_inv_def start_sys_def alive_from_def logger_at_def)
  show "loggers_inv ops (start_sys v w)"
    using new logger_reachable.constructed
    by (metis loggers_inv_def select_convs(1) server_sys.select_convs(1) start_sys_def)
  show "\<forall>slot \<in> set (m_loggers v). pushed (slot_logger slot) = []"
    using new by (metis (no_types, lifting) Logger.select_convs(6) new_logger_def)
qed


section \<open>From the stream to the loggers\<close>

text \<open>\<open>e\<close> is what becomes of the object \<open>t\<close>, at some reading of the clock.\<close>

definition decodes :: "'j json_ops \<Rightarrow> platform \<Rightarrow> string \<Rightarrow> Element \<Rightarrow> bool" where
  "decodes J P t e \<longleftrightarrow> (\<exists>w w'. decode J P t w = (Inr e, w'))"

lemma decode_all_decodes:
  "decode_all J P ts w = (Inr es, w') \<Longrightarrow> list_all2 (decodes J P) ts es"
proof (induction ts arbitrary: w es)
  case (Cons t ts)
  then show ?case
    by (auto simp: decodes_def res_bind_Inr split: prod.splits sum.splits)
qed simp

text \<open>What a connection has in hand, and what of it has reached the loggers.\<close>

fun in_hand :: "work \<Rightarrow> Element list" where
  "in_hand Waiting = []"
| "in_hand (Dispatching es k) = es"

fun reached :: "work \<Rightarrow> nat \<Rightarrow> Element list list" where
  "reached Waiting k = []"
| "reached (Dispatching es m) k = (if k < m then [es] else [])"

definition conn_inv :: "'j json_ops \<Rightarrow> platform \<Rightarrow> conn \<Rightarrow> bool" where
  "conn_inv J P c \<longleftrightarrow>
     list_all2 (decodes J P) (fst (frames (concat (received c))))
       (concat (dispatched c) @ in_hand (conn_work c)) \<and>
     m_current (m_processor (conn_session c)) = snd (frames (concat (received c))) \<and>
     outstanding_reads (m_socket (conn_session c)) =
       (if conn_work c = Waiting \<and> \<not> read_failed c then 1 else 0) \<and>
     (read_failed c \<longrightarrow> conn_work c = Waiting)"

definition conns_inv :: "'j json_ops \<Rightarrow> platform \<Rightarrow> ('a, 's) server_sys \<Rightarrow> bool" where
  "conns_inv J P y \<longleftrightarrow> (\<forall>c \<in> set (conns y). conn_inv J P c)"

definition sent :: "('a, 's) server_sys \<Rightarrow> nat \<Rightarrow> nat \<Rightarrow> Element list list" where
  "sent y i k = map (\<lambda>(i', k', es). es) (filter (\<lambda>(i', k', es). i' = i \<and> k' = k) (deliveries y))"

definition arrived :: "('a, 's) server_sys \<Rightarrow> nat \<Rightarrow> Element list" where
  "arrived y k = concat (map (\<lambda>(i', k', es). es) (filter (\<lambda>(i', k', es). k' = k) (deliveries y)))"

lemma conns_invI:
  assumes "conns_inv J P y" and "i < length (conns y)" and "conn_inv J P (conns y ! i) \<Longrightarrow> conn_inv J P c"
  shows "\<forall>c' \<in> set ((conns y)[i := c]). conn_inv J P c'"
  using assms set_update_subset_insert [of "conns y" i c] nth_mem [OF assms(2)]
  unfolding conns_inv_def by blast

lemma conn_inv_read:
  assumes "conn_inv J P c" and "0 < outstanding_reads (m_socket (conn_session c))"
    and "process J P (m_processor (conn_session c)) w data = (Inr es, p', w')"
    and "s = (deliver (conn_session c) ev)\<lparr>m_processor := p'\<rparr>"
  shows "conn_inv J P (c\<lparr>received := received c @ [data],
    conn_session := (if es \<noteq> [] then s else session_read s),
    conn_work := (if es \<noteq> [] then Dispatching es 0 else Waiting)\<rparr>)"
proof -
  let ?r = "snd (frames (concat (received c)))"
  have idle: "conn_work c = Waiting" and cur: "m_current (m_processor (conn_session c)) = ?r"
    and old: "list_all2 (decodes J P) (fst (frames (concat (received c)))) (concat (dispatched c))"
    and one: "outstanding_reads (m_socket (conn_session c)) = 1" and ok: "\<not> read_failed c"
    using assms(1,2) by (cases "conn_work c"; auto simp: conn_inv_def split: if_splits)+
  have dec: "decode_all J P (fst (frames (?r @ data))) w = (Inr es, w')"
    and p': "m_current p' = snd (frames (?r @ data))"
    using assms(3) cur by (auto simp: process_Inr_iff)
  have "list_all2 (decodes J P) (fst (frames (concat (received c) @ data))) (concat (dispatched c) @ es)"
    unfolding frames_append [of "concat (received c)"] fst_conv
    using old decode_all_decodes [OF dec] by (rule list_all2_appendI)
  moreover have "m_current p' = snd (frames (concat (received c) @ data))"
    unfolding frames_append [of "concat (received c)"] snd_conv by (rule p')
  ultimately show ?thesis using one ok by (cases "es = []") (auto simp: conn_inv_def assms(4))
qed

lemma conn_inv_new:
  "outstanding_reads sock = 0 \<Longrightarrow> conn_inv J P \<lparr>conn_session = session_read (new_session sock junk),
     conn_work = Waiting, read_failed = False, received = [], dispatched = []\<rparr>"
  by (simp add: conn_inv_def new_session_def new_processor_def frames_None split_frame_no_start)

lemma conn_inv_push:
  "conn_inv J P c \<Longrightarrow> conn_work c = Dispatching es k \<Longrightarrow>
   conn_inv J P (c\<lparr>conn_work := Dispatching es (Suc k)\<rparr>)"
  by (simp add: conn_inv_def)

lemma conn_inv_finish:
  "conn_inv J P c \<Longrightarrow> conn_work c = Dispatching es k \<Longrightarrow>
   conn_inv J P (c\<lparr>conn_work := Waiting, conn_session := session_read (conn_session c),
     dispatched := dispatched c @ [es]\<rparr>)"
  by (simp add: conn_inv_def)

lemma conns_inv_same: "conns z = conns y \<Longrightarrow> conns_inv J P y \<Longrightarrow> conns_inv J P z"
  by (simp add: conns_inv_def)

lemma server_step_conns_inv:
  assumes "server_step J P ops y z" and "conns_inv J P y"
  shows "conns_inv J P z"
  using assms
proof (induction rule: server_step.induct)
  case (accept_finished y hs j ec hs' junk)
  then show ?case
    by (simp add: conns_inv_def accept_callback_def on_accept_def conn_inv_new ball_Un)
next
  case (read_completes y i ev)
  note inv = conns_invI [OF read_completes(5,2)]
  show ?case
  proof (cases rule: read_start_cases [OF refl [of "read_start J P i ev y"]])
    case 1
    have c: "conn_inv J P (conns y ! i) \<Longrightarrow>
        conn_inv J P ((conns y ! i)\<lparr>conn_session := deliver (conn_session (conns y ! i)) ev,
          read_failed := True\<rparr>)"
      using read_completes(3) by (auto simp: conn_inv_def split: if_splits)
    show ?thesis unfolding conns_inv_def 1(2) set_conn_sel using c by (rule inv)
  next
    case (2 w')
    then show ?thesis using read_completes(5) by (simp add: conns_inv_def)
  next
    case (3 data es p' w' s)
    then show ?thesis
      using inv [OF conn_inv_read [OF _ read_completes(3) 3(2,3)]]
      by (simp add: conns_inv_def)
  qed
next
  case (pushes i y es k)
  show ?case
    unfolding conns_inv_def push_one_sel
    using conn_inv_push [OF _ pushes(2)] by (rule conns_invI [OF pushes(4,1)])
next
  case (read_finished i y es k)
  show ?case
    unfolding conns_inv_def read_finish_def set_conn_sel
    using conn_inv_finish [OF _ read_finished(2)] by (rule conns_invI [OF read_finished(4,1)])
qed (auto intro: conns_inv_same)


definition arrived_inv :: "('a, 's) server_sys \<Rightarrow> bool" where
  "arrived_inv y \<longleftrightarrow> (\<forall>k < length (m_loggers (server y)). pushed (logger_at y k) = arrived y k)"

lemma worker_step_pushed [simp]: "pushed (worker_step K l) = pushed l"
proof (cases "worker_at l")
  case (Logging es count)
  then show ?thesis by (cases es) (auto simp: worker_step_def split: prod.splits option.splits)
qed (auto simp: worker_step_def check_step_def split: prod.splits option.splits)

lemma arrived_inv_frame:
  assumes "arrived_inv y" and "deliveries z = deliveries y"
    and "length (m_loggers (server z)) = length (m_loggers (server y))"
    and "\<And>j. j < length (m_loggers (server y)) \<Longrightarrow> pushed (logger_at z j) = pushed (logger_at y j)"
  shows "arrived_inv z"
  using assms by (simp add: arrived_inv_def arrived_def)

lemma logger_at_works:
  "slot = m_loggers (server y) ! k \<Longrightarrow> slot_logger slot = logger_at y k"
  by (simp add: logger_at_def)

lemma server_step_arrived_inv:
  assumes "server_step J P ops y z" and "arrived_inv y"
  shows "arrived_inv z"
  using assms
proof (induction rule: server_step.induct)
  case (accepted y j ec)
  show ?case by (rule arrived_inv_frame [OF accepted(4)]) simp_all
next
  case (accept_finished y hs j ec hs' junk)
  show ?case by (rule arrived_inv_frame [OF accept_finished(3)]) (simp_all add: accept_callback_def)
next
  case (read_completes y i ev)
  show ?case by (rule arrived_inv_frame [OF read_completes(5)]) simp_all
next
  case (pushes i y es k)
  then show ?case
    by (auto simp: arrived_inv_def logger_at_push_one arrived_def push_copy_def)
next
  case (read_finished i y es k)
  show ?case by (rule arrived_inv_frame [OF read_finished(4)]) simp_all
next
  case (works k y slot)
  show ?case
    by (rule arrived_inv_frame [OF works(3)])
      (simp_all add: logger_at_set_logger logger_at_works [OF works(2)])
next
  case (wakes k y)
  show ?case
    by (rule arrived_inv_frame [OF wakes(3)]) (simp_all add: logger_at_set_logger)
next
  case (stops y)
  show ?case by (rule arrived_inv_frame [OF stops(2)]) (simp_all add: logger_at_def)
next
  case (joins y)
  show ?case by (rule arrived_inv_frame [OF joins(3)]) (simp_all add: logger_at_def)
next
  case (marks y k)
  show ?case by (rule arrived_inv_frame [OF marks(4)]) (simp_all add: logger_at_set_logger)
next
  case (notifies y k)
  show ?case by (rule arrived_inv_frame [OF notifies(4)]) (simp_all add: logger_at_set_logger)
next
  case (clears y k)
  show ?case by (rule arrived_inv_frame [OF clears(5)]) (simp_all add: logger_at_set_logger)
qed

text \<open>Per connection and logger: the batches that have arrived, none missing, none twice.\<close>

definition conn_sent :: "('a, 's) server_sys \<Rightarrow> nat \<Rightarrow> nat \<Rightarrow> Element list list" where
  "conn_sent y i k =
     (if i < length (conns y)
      then dispatched (conns y ! i) @ reached (conn_work (conns y ! i)) k else [])"

definition sent_inv :: "('a, 's) server_sys \<Rightarrow> bool" where
  "sent_inv y \<longleftrightarrow>
     (\<forall>i k. k < length (m_loggers (server y)) \<longrightarrow> sent y i k = conn_sent y i k) \<and>
     (\<forall>i es m. i < length (conns y) \<longrightarrow> conn_work (conns y ! i) = Dispatching es m \<longrightarrow>
        m \<le> length (m_loggers (server y)))"

lemma sent_inv_frame:
  assumes "sent_inv y" and "deliveries z = deliveries y"
    and "length (m_loggers (server z)) = length (m_loggers (server y))" and "conns z = conns y"
  shows "sent_inv z"
  using assms by (simp add: sent_inv_def sent_def conn_sent_def)

text \<open>A connection is replaced by one with the same account.\<close>

lemma sent_inv_set_conn:
  assumes "sent_inv y" and "i < length (conns y)" and "conns z = (conns y)[i := c]"
    and "length (m_loggers (server z)) = length (m_loggers (server y))"
    and "deliveries z = deliveries y"
    and "\<And>k. k < length (m_loggers (server y)) \<Longrightarrow>
      dispatched c @ reached (conn_work c) k =
      dispatched (conns y ! i) @ reached (conn_work (conns y ! i)) k"
    and "\<And>es m. conn_work c = Dispatching es m \<Longrightarrow> m \<le> length (m_loggers (server y))"
  shows "sent_inv z"
proof -
  have nth: "conns z ! i' = (if i' = i then c else conns y ! i')" for i'
    using assms(2,3) by simp
  have "sent z i' k = conn_sent z i' k" if "k < length (m_loggers (server z))" for i' k
    using assms(1,4-6) that nth [of i'] assms(3)
    by (auto simp: sent_inv_def sent_def conn_sent_def)
  moreover have "m \<le> length (m_loggers (server z))"
    if "i' < length (conns z)" and "conn_work (conns z ! i') = Dispatching es m" for i' es m
    using assms(1,3,4,7) that nth [of i'] by (auto simp: sent_inv_def split: if_splits)
  ultimately show ?thesis by (simp add: sent_inv_def)
qed

lemma sent_inv_push:
  assumes "sent_inv y" and "i < length (conns y)" and "conn_work (conns y ! i) = Dispatching es k"
    and "k < length (m_loggers (server y))"
  shows "sent_inv (push_one i es k y)"
proof -
  have nth: "conns (push_one i es k y) ! i' =
      (if i' = i then (conns y ! i)\<lparr>conn_work := Dispatching es (Suc k)\<rparr> else conns y ! i')" for i'
    using assms(2) by simp
  have "sent (push_one i es k y) i' k' = conn_sent (push_one i es k y) i' k'"
    if "k' < length (m_loggers (server y))" for i' k'
  proof -
    have old: "sent y i' k' = conn_sent y i' k'" using assms(1) that by (simp add: sent_inv_def)
    have new: "sent (push_one i es k y) i' k' = sent y i' k' @ (if i' = i \<and> k' = k then [es] else [])"
      by (auto simp: sent_def)
    show ?thesis
    proof (cases "i' = i")
      case True
      then show ?thesis
        unfolding new old using assms(2,3) by (auto simp: conn_sent_def nth simp del: push_one_sel(1))
          (simp_all add: push_one_sel(1))
    next
      case False
      then show ?thesis unfolding new old by (simp add: conn_sent_def)
    qed
  qed
  moreover have "m \<le> length (m_loggers (server y))"
    if "i' < length (conns y)" "conn_work (conns (push_one i es k y) ! i') = Dispatching es' m"
    for i' es' m
    using assms(1,4) that unfolding nth by (auto simp: sent_inv_def split: if_splits)
  ultimately show ?thesis unfolding sent_inv_def by simp
qed


lemma sent_frame:
  assumes "sent_inv y" and "\<forall>d \<in> set (deliveries y). fst d < length (conns y)"
    and "deliveries z = deliveries y"
    and "length (m_loggers (server z)) = length (m_loggers (server y))" and "conns z = conns y"
  shows "sent_inv z \<and> (\<forall>d \<in> set (deliveries z). fst d < length (conns z))"
  using assms sent_inv_frame [OF assms(1,3-5)] by simp

lemma server_step_sent_inv:
  assumes "server_step J P ops y z" and "conns_inv J P y" and "sent_inv y"
    and "\<forall>d \<in> set (deliveries y). fst d < length (conns y)"
  shows "sent_inv z \<and> (\<forall>d \<in> set (deliveries z). fst d < length (conns z))"
  using assms
proof (induction rule: server_step.induct)
  case (accept_finished y hs j ec hs' junk)
  let ?z = "accept_callback (m_acceptors (server y) ! j) ec
      (\<lambda>ec sock. on_accept junk ec sock (y\<lparr>accepting := hs @ hs'\<rparr>))"
  have conns: "\<exists>cs. conns ?z = conns y @ cs \<and> (\<forall>c \<in> set cs. conn_work c = Waiting \<and> dispatched c = [])"
    by (auto simp: accept_callback_def on_accept_def)
  then obtain cs where cs: "conns ?z = conns y @ cs"
    and new: "\<forall>c \<in> set cs. conn_work c = Waiting \<and> dispatched c = []" by blast
  have "sent ?z i k = conn_sent ?z i k" if k: "k < length (m_loggers (server y))" for i k
  proof -
    have "sent ?z i k = conn_sent y i k"
      using accept_finished(4) k by (simp add: sent_inv_def sent_def accept_callback_def)
    moreover have "conn_sent y i k = conn_sent ?z i k"
      using new nth_mem [of "i - length (conns y)" cs]
      by (auto simp: conn_sent_def cs nth_append)
    ultimately show ?thesis by simp
  qed
  moreover have "m \<le> length (m_loggers (server y))"
    if "i < length (conns ?z)" "conn_work (conns ?z ! i) = Dispatching es m" for i es m
    using accept_finished(4) that new nth_mem [of "i - length (conns y)" cs]
    by (cases "i < length (conns y)") (auto simp: sent_inv_def cs nth_append)
  ultimately have "sent_inv ?z" unfolding sent_inv_def by (simp add: accept_callback_def)
  then show ?case using accept_finished(5) cs by (auto simp: accept_callback_def)
next
  case (read_completes y i ev)
  have waiting: "conn_work (conns y ! i) = Waiting"
    using read_completes(2,3,5) nth_mem [OF read_completes(2)]
    by (auto simp: conns_inv_def conn_inv_def split: if_splits)
  have "sent_inv (read_start J P i ev y)"
  proof (cases rule: read_start_cases [OF refl [of "read_start J P i ev y"]])
    case 1
    show ?thesis
      by (rule sent_inv_set_conn [OF read_completes(6,2), of _
            "(conns y ! i)\<lparr>conn_session := deliver (conn_session (conns y ! i)) ev, read_failed := True\<rparr>"])
        (simp_all add: 1(2) waiting)
  next
    case (2 w')
    show ?thesis unfolding 2 by (rule sent_inv_frame [OF read_completes(6)]) simp_all
  next
    case (3 data es p' w' s)
    show ?thesis
      unfolding 3(4)
      by (rule sent_inv_set_conn [OF read_completes(6,2)])
        (auto simp: waiting split: if_splits)
  qed
  then show ?case using read_completes(7) by simp
next
  case (pushes i y es k)
  then show ?case using sent_inv_push [OF pushes(5,1-3)] by auto
next
  case (read_finished i y es k)
  have "sent_inv (read_finish i es y)"
    unfolding read_finish_def
    by (rule sent_inv_set_conn [OF read_finished(5,1), of _ "(conns y ! i)\<lparr>conn_work := Waiting,
            conn_session := session_read (conn_session (conns y ! i)),
            dispatched := dispatched (conns y ! i) @ [es]\<rparr>"])
      (simp_all add: read_finished(2,3))
  then show ?case using read_finished(6) by simp
next
  case (accepted y j ec)
  show ?case by (rule sent_frame [OF accepted(5,6)]) simp_all
next
  case (works k y slot)
  show ?case by (rule sent_frame [OF works(4,5)]) simp_all
next
  case (wakes k y)
  show ?case by (rule sent_frame [OF wakes(4,5)]) simp_all
next
  case (stops y)
  show ?case by (rule sent_frame [OF stops(3,4)]) simp_all
next
  case (joins y)
  show ?case by (rule sent_frame [OF joins(4,5)]) simp_all
next
  case (marks y k)
  show ?case by (rule sent_frame [OF marks(5,6)]) simp_all
next
  case (notifies y k)
  show ?case by (rule sent_frame [OF notifies(5,6)]) simp_all
next
  case (clears y k)
  show ?case by (rule sent_frame [OF clears(6,7)]) simp_all
qed

lemma server_reachable_stream_invs:
  assumes "server_reachable J P ops y z" and "conns_inv J P y" and "sent_inv y" and "arrived_inv y"
    and "deliveries y = []"
  shows "conns_inv J P z \<and> sent_inv z \<and> arrived_inv z \<and>
    (\<forall>d \<in> set (deliveries z). fst d < length (conns z))"
  using assms
proof (induction rule: server_reachable.induct)
  case (goes_on y z z')
  then show ?case
    using server_step_conns_inv server_step_arrived_inv server_step_sent_inv by metis
qed simp

lemma new_server_stream_invs:
  assumes "new_server sys S opt = (None, v)"
  shows "conns_inv J P (start_sys v w)" and "sent_inv (start_sys v w)"
    and "arrived_inv (start_sys v w)"
  using new_server_invs(3) [OF assms]
  by (simp_all add: conns_inv_def sent_inv_def sent_def conn_sent_def arrived_inv_def arrived_def
      start_sys_def logger_at_def)


section \<open>A read handler as a whole\<close>

text \<open>The steps of one handler with nothing in between.\<close>

definition run_handler ::
    "'j json_ops \<Rightarrow> platform \<Rightarrow> nat \<Rightarrow> read_result \<Rightarrow> ('a, 's) server_sys \<Rightarrow>
     ('a, 's) server_sys" where
  "run_handler J P i ev y =
     (let z = read_start J P i ev y
      in case conn_work (conns z ! i) of
           Waiting \<Rightarrow> z
         | Dispatching es k \<Rightarrow>
             read_finish i es
               (fold (\<lambda>k. push_one i es k) [k..<length (m_loggers (server z))] z))"

lemma m_loggers_push_one:
  "m_loggers (server (push_one i es k y)) =
     (m_loggers (server y))[k := slot_push_copy (m_loggers (server y) ! k) es]"
  by (simp add: push_one_set_logger set_logger_def logger_at_def slot_push_copy_def)

lemma map_slot_push: "length ls = 1 \<Longrightarrow> server_push ls es = map (\<lambda>l. slot_push_copy l es) ls"
  by (cases ls) (simp_all add: server_push_def slot_push_move_def slot_push_copy_def push_move_eq_copy)

lemma server_push_map: "server_push ls es = map (\<lambda>l. slot_push_copy l es) ls"
  by (cases "length ls = 1") (simp_all add: map_slot_push, simp add: server_push_def)

lemma fold_push_one:
  assumes "n \<le> length (m_loggers (server y))" and "i < length (conns y)"
  shows "m_loggers (server (fold (\<lambda>k. push_one i es k) [0..<n] y)) =
      map (\<lambda>l. slot_push_copy l es) (take n (m_loggers (server y))) @ drop n (m_loggers (server y)) \<and>
    conns (fold (\<lambda>k. push_one i es k) [0..<n] y) =
      (if n = 0 then conns y else (conns y)[i := (conns y ! i)\<lparr>conn_work := Dispatching es n\<rparr>]) \<and>
    server_clock (fold (\<lambda>k. push_one i es k) [0..<n] y) = server_clock y"
  using assms(1)
proof (induction n)
  case (Suc n)
  let ?y = "fold (\<lambda>k. push_one i es k) [0..<n] y"
  have ls: "m_loggers (server ?y) =
      map (\<lambda>l. slot_push_copy l es) (take n (m_loggers (server y))) @ drop n (m_loggers (server y))"
    and cs: "conns ?y =
      (if n = 0 then conns y else (conns y)[i := (conns y ! i)\<lparr>conn_work := Dispatching es n\<rparr>])"
    and clock: "server_clock ?y = server_clock y"
    using Suc.IH Suc.prems by simp_all
  have n: "n < length (m_loggers (server y))" using Suc.prems by simp
  have "m_loggers (server (push_one i es n ?y)) =
      map (\<lambda>l. slot_push_copy l es) (take (Suc n) (m_loggers (server y))) @
      drop (Suc n) (m_loggers (server y))"
    using n unfolding m_loggers_push_one ls
    by (simp add: nth_append list_update_append Cons_nth_drop_Suc [symmetric] take_Suc_conv_app_nth)
  moreover have "conns (push_one i es n ?y) =
      (conns y)[i := (conns y ! i)\<lparr>conn_work := Dispatching es (Suc n)\<rparr>]"
    using assms(2) by (simp add: cs)
  moreover have "server_clock (push_one i es n ?y) = server_clock y"
    using clock by (simp add: push_one_def)
  ultimately show ?case by simp
qed simp


section \<open>Sinks for the witnesses\<close>

definition sample_ops :: "sink_spec \<Rightarrow> int \<Rightarrow> Element list sink_ops" where
  "sample_ops spec lvl = sample_sink\<lparr>should_log := (\<lambda>s l. lvl \<le> level_num l)\<rparr>"

lemma sample_ops_ok: "sink_level (sample_ops spec lvl) lvl" "sink_total (sample_ops spec lvl)"
  by (simp_all add: sample_ops_def sink_level_def sink_total_def sample_sink_def)

text \<open>A connection on which one object has arrived, and whose handler has just decoded it.\<close>

definition sample_accepted :: "(string, Element list) server_sys" where
  "sample_accepted =
     on_accept (replicate buffer_size (CHR ''x'')) False
       (wrap_socket (UnixAcceptor ''/tmp/log.sock'' :: string listener))
       ((accept_start 0 False (start_sys sample_server sample_world))\<lparr>accepting := [] @ []\<rparr>)"

definition sample_sys :: "(string, Element list) server_sys" where
  "sample_sys = read_start sample_json sample_platform 0 (Read_ok ''{}'') sample_accepted"

lemma sample_accepted_reachable:
  "server_reachable sample_json sample_platform sample_ops (start_sys sample_server sample_world)
     sample_accepted"
proof -
  let ?y0 = "start_sys sample_server sample_world"
  let ?y1 = "accept_start 0 False ?y0"
  let ?step = "server_step sample_json sample_platform sample_ops"
  have 1: "?step ?y0 ?y1" by (rule server_step.accepted) code_simp+
  have acc: "m_acceptor (m_acceptors (server ?y1) ! 0) = UnixAcceptor ''/tmp/log.sock''"
    by (simp add: start_sys_def sample_server_def accept_start_def accept_completed_def)
  have 2: "?step ?y1 sample_accepted"
    using server_step.accept_finished [of ?y1 "[]" 0 False "[]" "replicate buffer_size (CHR ''x'')"]
    by (simp add: accept_callback_def acc sample_accepted_def) (simp add: start_sys_def)
  have "\<not> terminated ?y0" "\<not> terminated ?y1" by code_simp+
  with 1 2 show ?thesis by (meson server_reachable.intros)
qed

lemma sample_sys_reachable:
  "server_reachable sample_json sample_platform sample_ops (start_sys sample_server sample_world) sample_sys"
proof -
  have "\<not> terminated sample_accepted" by code_simp
  moreover have "server_step sample_json sample_platform sample_ops sample_accepted sample_sys"
    unfolding sample_sys_def
    by (rule server_step.read_completes) (code_simp, code_simp, code_simp, simp add: buffer_size_def)
  ultimately show ?thesis using sample_accepted_reachable by (blast intro: server_reachable.goes_on)
qed

lemma sample_sys_sel:
  "conn_work (conns sample_sys ! 0) = Dispatching [mk_element 100 trace ''[] [:] [::] ''] 0"
  "length (conns sample_sys) = 1" "concat (received (conns sample_sys ! 0)) = ''{}''"
  "server_phase sample_sys = Serving" "\<not> aborted sample_sys" "\<not> terminated sample_sys"
  by code_simp+

text \<open>The handler of the sample connection has pushed its batch, and has ended.\<close>

definition sample_pushed :: "(string, Element list) server_sys" where
  "sample_pushed = push_one 0 [mk_element 100 trace ''[] [:] [::] ''] 0 sample_sys"

definition sample_handled :: "(string, Element list) server_sys" where
  "sample_handled = read_finish 0 [mk_element 100 trace ''[] [:] [::] ''] sample_pushed"

lemma sample_handled_reachable:
  "server_reachable sample_json sample_platform sample_ops (start_sys sample_server sample_world)
     sample_handled"
proof -
  let ?es = "[mk_element 100 trace ''[] [:] [::] '']"
  let ?step = "server_step sample_json sample_platform sample_ops"
  have 1: "?step sample_sys sample_pushed"
    unfolding sample_pushed_def by (rule server_step.pushes [OF _ sample_sys_sel(1)]) code_simp+
  have w: "conn_work (conns sample_pushed ! 0) = Dispatching ?es 1" by code_simp
  have 2: "?step sample_pushed sample_handled"
    unfolding sample_handled_def by (rule server_step.read_finished [OF _ w]) code_simp+
  have "\<not> terminated sample_pushed" by code_simp
  with 1 2 show ?thesis
    using sample_sys_reachable sample_sys_sel(6) by (meson server_reachable.intros)
qed

section \<open>Properties\<close>

text \<open>The steps of a read handler, put together, do what the session promises: the session ends
  in the state of the sequential handler, and every batch it pushes is dispatched to all
  loggers.\<close>

theorem server_handler_refines:
  assumes "i < length (conns y)" and "conn_work (conns y ! i) = Waiting" and "m_loggers (server y) \<noteq> []"
    and "on_read J P (conn_session (conns y ! i)) (server_clock y) ev = (Inr bs, s', w')"
  shows "conn_session (conns (run_handler J P i ev y) ! i) = s' \<and>
    conn_work (conns (run_handler J P i ev y) ! i) = Waiting \<and>
    server_clock (run_handler J P i ev y) = w' \<and>
    m_loggers (server (run_handler J P i ev y)) = push_batches server_push (m_loggers (server y)) bs"
proof (cases ev)
  case Read_error
  then show ?thesis
    using assms by (auto simp: run_handler_def read_start_def on_read_error Let_def)
next
  case (Read_ok data)
  let ?s = "conn_session (conns y ! i)" and ?n = "length (m_loggers (server y))"
  obtain es p' where p: "process J P (m_processor ?s) (server_clock y) data = (Inr es, p', w')"
    and bs: "bs = (if es \<noteq> [] then [es] else [])"
    and s': "s' = session_read ((deliver ?s (Read_ok data))\<lparr>m_processor := p'\<rparr>)"
    using assms(4) unfolding Read_ok on_read_ok by (auto split: prod.splits sum.splits)
  show ?thesis
  proof (cases "es = []")
    case True
    then show ?thesis
      using assms(1) p s' bs by (simp add: run_handler_def read_start_def Read_ok Let_def)
  next
    case False
    define z where "z = read_start J P i ev y"
    have z: "m_loggers (server z) = m_loggers (server y)" "server_clock z = w'"
      "length (conns z) = length (conns y)"
      "conn_work (conns z ! i) = Dispatching es 0"
      "conn_session (conns z ! i) = (deliver ?s (Read_ok data))\<lparr>m_processor := p'\<rparr>"
      using assms(1) p False by (simp_all add: z_def read_start_def Read_ok Let_def)
    have run: "run_handler J P i ev y = read_finish i es (fold (\<lambda>k. push_one i es k) [0..<?n] z)"
      using z by (simp add: run_handler_def z_def Let_def)
    have f: "m_loggers (server (fold (\<lambda>k. push_one i es k) [0..<?n] z)) =
        server_push (m_loggers (server y)) es"
      "conns (fold (\<lambda>k. push_one i es k) [0..<?n] z) =
        (conns z)[i := (conns z ! i)\<lparr>conn_work := Dispatching es ?n\<rparr>]"
      "server_clock (fold (\<lambda>k. push_one i es k) [0..<?n] z) = w'"
      using fold_push_one [of ?n z i es] z(1-3) assms(1,3) by (simp_all add: server_push_map)
    have "server_clock (read_finish i es u) = server_clock u" for u :: "('b, 'c) server_sys"
      by (simp add: read_finish_def)
    then show ?thesis
      unfolding run using f z assms(1) bs s' False
      by (simp add: read_finish_def set_conn_def)
  qed
qed

text \<open>C36. Each callback of an accept requests an accept on every acceptor: with \<open>k\<close> acceptors, the
  accepts that are outstanding or whose callback is under way are \<open>k\<close> at the start and \<open>k - 1\<close>
  more after every callback. With one acceptor there is always exactly one; with both a unix
  and a TCP socket the number grows by one with each connection.\<close>

theorem server_accepts_grow:
  assumes "new_server sys S opt = (None, v)"
    and "server_reachable J P ops (start_sys v w) z"
  shows "sum_list (map outstanding_accepts (m_acceptors (server z))) + length (accepting z) =
    length (wanted_listeners S opt) + accepts_done z * (length (wanted_listeners S opt) - 1)"
proof -
  have "length (m_acceptors v) = length (wanted_listeners S opt)"
    using new_server_members [OF assms(1)] by (metis length_map)
  then have "accept_inv (length (wanted_listeners S opt)) z"
    using server_reachable_accept_inv [OF assms(2)] new_server_accept_inv [OF assms(1), of w] by metis
  then show ?thesis by (simp add: accept_inv_def total_accepts_def)
qed


theorem server_handler_refines_witness:
  "\<exists>y :: (string, Element list) server_sys. let z = run_handler sample_json sample_platform 0 (Read_ok ''{}'') y in
     map (\<lambda>l. pushed (slot_logger l)) (m_loggers (server z)) =
       [[mk_element 100 trace ''[] [:] [::] ''], [mk_element 100 trace ''[] [:] [::] '']] \<and>
     conn_work (conns z ! 0) = Waiting"
proof -
  define slot :: "Element list slot" where "slot = \<lparr>slot_spec = stdout_sink, slot_level = 0,
    slot_pattern = None, slot_logger = new_logger []\<rparr>"
  define y :: "(string, Element list) server_sys" where
    "y = (start_sys \<lparr>concurrency_hint = 1, ioc_stopped = False, m_acceptors = [],
        m_ioc_threads = [True], m_loggers = [slot, slot]\<rparr> sample_world)\<lparr>conns :=
      [\<lparr>conn_session = session_read (new_session (new_socket UnixSocket) (replicate 8 (CHR ''x''))),
        conn_work = Waiting, read_failed = False, received = [], dispatched = []\<rparr>]\<rparr>"
  have y: "0 < length (conns y)" "conn_work (conns y ! 0) = Waiting" "m_loggers (server y) \<noteq> []"
    by (simp_all add: y_def start_sys_def)
  let ?bs = "[[mk_element 100 trace ''[] [:] [::] '']]"
  have "fst (on_read sample_json sample_platform
      (session_read (new_session (new_socket UnixSocket) (replicate 8 (CHR ''x'')))) sample_world
      (Read_ok ''{}'')) = Inr ?bs"
    by code_simp
  then have "fst (on_read sample_json sample_platform (conn_session (conns y ! 0))
      (server_clock y) (Read_ok ''{}'')) = Inr ?bs"
    by (simp add: y_def start_sys_def)
  then obtain s' w' where r: "on_read sample_json sample_platform (conn_session (conns y ! 0))
      (server_clock y) (Read_ok ''{}'') = (Inr ?bs, s', w')"
    by (metis prod.collapse)
  have "m_loggers (server y) = [slot, slot]" by (simp add: y_def start_sys_def)
  then have "map (\<lambda>l. pushed (slot_logger l)) (push_batches server_push (m_loggers (server y)) ?bs) =
      [hd ?bs, hd ?bs]"
    by (simp add: server_push_def slot_def push_copy_def new_logger_def)
  then show ?thesis
    using server_handler_refines [OF y r] by (intro exI [of _ y]) (simp add: Let_def)
qed

theorem server_accepts_grow_witness:
  "\<exists>v z. new_server Linux sample_services sample_options = (None, v) \<and>
     server_reachable sample_json sample_platform sample_ops (start_sys v sample_world) z \<and>
     accepts_done z = 1 \<and>
     sum_list (map outstanding_accepts (m_acceptors (server z))) + length (accepting z) = 3"
proof -
  obtain v where v: "new_server Linux sample_services sample_options = (None, v)"
    using new_sample_server by blast
  let ?y = "start_sys v sample_world"
  let ?y1 = "accept_start 0 True ?y"
  let ?ep = "m_acceptors (server ?y1) ! 0" and ?junk = "replicate buffer_size (CHR ''x'')"
  let ?y2 = "accept_callback ?ep True
      (\<lambda>ec sock. on_accept ?junk ec sock (?y1\<lparr>accepting := [] @ []\<rparr>))"
  note b = new_server_members [OF v]
  have "m_acceptors v ! 0 \<in> set (m_acceptors v)" using b by (intro nth_mem) auto
  then have "server_step sample_json sample_platform sample_ops ?y ?y1"
    using b by (intro server_step.accepted) (auto simp: start_sys_def io_ready_def busy_def sample_options_def)
  moreover have "server_step sample_json sample_platform sample_ops ?y1 ?y2"
    by (rule server_step.accept_finished) (simp_all add: start_sys_def)
  moreover have "\<not> terminated ?y" using v by (rule new_server_not_terminated)
  ultimately have reach: "server_reachable sample_json sample_platform sample_ops ?y ?y2"
    by (meson server_reachable.intros terminated_accept_start)
  have "accepts_done ?y2 = 1" "length (wanted_listeners sample_services sample_options) = 2"
    by (simp_all add: accept_callback_def start_sys_def wanted_listeners_def sample_services_def
        sample_options_def)
  then show ?thesis using v reach server_accepts_grow [OF v reach] by (intro exI conjI) simp_all
qed

text \<open>With a unix and a TCP acceptor and two threads, two callbacks of accepts can be under way at
  once, although each of them uses both acceptors and no lock protects them.\<close>

theorem server_accept_callbacks_overlap:
  assumes "new_server sys S opt = (None, v)"
    and "socket_file opt \<noteq> []" and "socket_address opt \<noteq> []" and "1 < unat (n_threads opt)"
  shows "\<exists>z. server_reachable J P ops (start_sys v w) z \<and> accepting z = [(0, ec), (1, ec')]"
proof -
  note b = new_server_members [OF assms(1)]
  obtain v2 v1 where "setup_unix S opt (empty_server opt) = (None, v1 :: ('a, 'b) Server)"
    and "setup_tcp S opt v1 = (None, v2)"
    using assms(1) unfolding new_server_None server_ctor_def ctor_then_None by blast
  then have "length (wanted_listeners S opt) = 2"
    using assms(2,3) by (auto simp: setup_tcp_def wanted_listeners_def split: sum.splits)
  then have len: "length (m_acceptors v) = 2" using b by (metis length_map)
  then have out: "outstanding_accepts (m_acceptors v ! 0) = 1" "outstanding_accepts (m_acceptors v ! 1) = 1"
    using b by auto
  let ?y = "start_sys v w" and ?y1 = "accept_start 0 ec (start_sys v w)"
  have "server_step J P ops ?y ?y1"
    using b len out assms(4)
    by (intro server_step.accepted) (simp_all add: start_sys_def io_ready_def busy_def)
  moreover have "server_step J P ops ?y1 (accept_start 1 ec' ?y1)"
    using b len out assms(4)
    by (intro server_step.accepted) (simp_all add: start_sys_def io_ready_def busy_def accept_start_def)
  moreover have "\<not> terminated ?y" using assms(1) by (rule new_server_not_terminated)
  ultimately have "server_reachable J P ops ?y (accept_start 1 ec' ?y1)"
    by (meson server_reachable.intros terminated_accept_start)
  moreover have "accepting (accept_start 1 ec' ?y1) = [(0, ec), (1, ec')]"
    by (simp add: start_sys_def)
  ultimately show ?thesis by blast
qed

theorem server_accept_callbacks_overlap_witness:
  "\<exists>v z. new_server Linux sample_services sample_options = (None, v) \<and>
     server_reachable sample_json sample_platform sample_ops (start_sys v sample_world) z \<and>
     accepting z = [(0, False), (1, False)]"
proof -
  obtain v where v: "new_server Linux sample_services sample_options = (None, v)"
    using new_sample_server by blast
  then show ?thesis
    using server_accept_callbacks_overlap [OF v, of sample_json sample_platform
        sample_ops sample_world False False]
    by (auto simp: sample_options_def)
qed

text \<open>C23. The destructor stops the producers before the consumers: once the destruction of any logger
  has begun, no handler is under way and none can start, so that nothing is pushed to a logger
  that is being destroyed.\<close>

theorem server_stops_producers_first:
  assumes "new_server sys S opt = (None, v)" and "server_reachable J P ops (start_sys v w) z"
    and "k < length (m_loggers (server z))" and "dtor_at (logger_at z k) \<noteq> Alive"
  shows "accepting z = [] \<and> (\<forall>c \<in> set (conns z). conn_work c = Waiting) \<and> \<not> io_ready z"
proof -
  have inv: "phase_inv z" using assms(2) new_server_invs(1) [OF assms(1)] by (rule server_reachable_phase_inv)
  then obtain p where "server_phase z = Clearing p"
    using assms(3,4) by (auto simp: phase_inv_def alive_from_def split: phase.splits)
  then have "busy z = 0" "ioc_stopped (server z)" using inv by (auto simp: phase_inv_def)
  then show ?thesis by (auto simp: busy_def io_ready_def filter_empty_conv)
qed


theorem server_stops_producers_first_witness:
  "\<exists>v z. new_server Linux sample_services sample_options = (None, v) \<and>
     server_reachable sample_json sample_platform sample_ops (start_sys v sample_world) z \<and>
     dtor_at (logger_at z 0) = Marked \<and> \<not> io_ready z"
proof -
  obtain v where v: "new_server Linux sample_services sample_options = (None, v)"
    using new_sample_server by blast
  let ?R = "server_reachable sample_json sample_platform sample_ops (start_sys v sample_world)"
  define y1 where "y1 = (start_sys v sample_world)\<lparr>server := v\<lparr>ioc_stopped := True\<rparr>, server_phase := Stopping\<rparr>"
  define y2 where "y2 = y1\<lparr>server := server_shutdown (server y1), server_phase := Clearing 0\<rparr>"
  define y3 where "y3 = set_logger 0 ((logger_at y2 0)\<lparr>m_done := True, dtor_at := Marked\<rparr>) y2"
  have l: "m_loggers v \<noteq> []" "0 < length (m_loggers v)" using new_server_members [OF v] by auto
  have alive: "dtor_at (slot_logger (m_loggers v ! 0)) = Alive"
    using new_server_members [OF v] l(2)
    by (metis Logger.select_convs(5) new_logger_def nth_mem)
  have t0: "\<not> terminated (start_sys v sample_world)" using v by (rule new_server_not_terminated)
  then have t: "\<not> terminated y1" "\<not> terminated y2"
    by (simp_all add: y2_def y1_def terminated_def worker_crashed_def start_sys_def)
  have "server_step sample_json sample_platform sample_ops (start_sys v sample_world) y1"
    using server_step.stops [of "start_sys v sample_world"] by (simp add: y1_def start_sys_def)
  with t0 have 1: "?R y1" by (meson server_reachable.intros)
  have 2: "?R y2"
    unfolding y2_def
    by (rule server_reachable.goes_on [OF 1 t(1) server_step.joins])
      (simp_all add: y1_def start_sys_def busy_def)
  have 3: "?R y3"
    unfolding y3_def
    by (rule server_reachable.goes_on [OF 2 t(2) server_step.marks])
      (simp_all add: y2_def y1_def start_sys_def l alive logger_at_def)
  have k: "0 < length (m_loggers (server y3))" "dtor_at (logger_at y3 0) = Marked"
    using l by (simp_all add: y3_def y2_def y1_def logger_at_set_logger)
  then show ?thesis using v 3 server_stops_producers_first [OF v 3 k(1)] by auto
qed

text \<open>A server that is given no threads (what \<^verbatim>\<open>hardware_concurrency\<close> may return, and what the
  option accepts) is constructed, but never accepts a connection.\<close>

theorem server_without_threads_serves_nobody:
  assumes "new_server sys S opt = (None, v)" and "n_threads opt = 0"
    and "server_reachable J P ops (start_sys v w) z"
  shows "conns z = [] \<and> accepting z = []"
proof -
  have "m_ioc_threads v = []" using new_server_members [OF assms(1)] assms(2) by simp
  with assms(3) have "m_ioc_threads (server z) = [] \<and> conns z = [] \<and> accepting z = []"
  proof (induction "start_sys v w" z rule: server_reachable.induct)
    case (goes_on z z')
    have "\<not> io_ready z" using goes_on by (simp add: io_ready_def)
    with goes_on(4) goes_on(2) [OF goes_on(5)] show ?case
      by (cases rule: server_step.cases) (auto simp: server_shutdown_def)
  qed (simp add: start_sys_def)
  then show ?thesis by simp
qed


theorem server_without_threads_serves_nobody_witness:
  "\<exists>v. new_server Linux sample_services (sample_options\<lparr>n_threads := 0\<rparr>) = (None, v) \<and>
     (\<forall>z. server_reachable sample_json sample_platform sample_ops (start_sys v sample_world) z
       \<longrightarrow> conns z = [])"
proof -
  let ?opt = "sample_options\<lparr>n_threads := 0\<rparr>"
  have "fst (new_server Linux sample_services ?opt) = None"
    by (simp add: new_server_def server_ctor_def start_thread_def ctor_then_def setup_defs add_acceptor_def add_logger_def
        sample_services_def sample_options_def default_options_def empty_server_def
        start_threads.simps server_accept_def)
  then obtain v where v: "new_server Linux sample_services ?opt = (None, v)"
    by (metis prod.collapse)
  have n: "n_threads ?opt = 0" by simp
  show ?thesis using v server_without_threads_serves_nobody [OF v n] by blast
qed


end
