(* ===== verification/Server_Liveness.thy ===== *)
theory Server_Liveness
  imports Server_Run
begin

text \<open>
  Progress of the server. \<open>server_work\<close> are the steps of \<open>Server_Run\<close> by which the server goes
  on with what it has in hand: the rest of the handlers that have started, the workers of the
  loggers, and, once \<^verbatim>\<open>m_ioc.stop()\<close> has been called, the rest of the destructor. The steps that
  are left out are those of the environment (a connection, data on a connection, the call of the
  destructor, a spurious wake-up) and steps of a worker that sleeps or has returned. A rank
  bounds how many steps of work there can be, whichever thread takes the next one; and a state
  without any is one in which everything is written, or everything is destroyed.
\<close>

section \<open>Steps of work\<close>

inductive server_work ::
    "(sink_spec \<Rightarrow> int \<Rightarrow> 's sink_ops) \<Rightarrow> ('a, 's) server_sys \<Rightarrow> ('a, 's) server_sys \<Rightarrow> bool" for ops
  where
  accept_work: "accepting y = hs @ (j, ec) # hs' \<Longrightarrow> length junk = buffer_size \<Longrightarrow>
     server_work ops y
       (accept_callback (m_acceptors (server y) ! j) ec
          (\<lambda>ec sock. on_accept junk ec sock (y\<lparr>accepting := hs @ hs'\<rparr>)))"
| push_work: "i < length (conns y) \<Longrightarrow> conn_work (conns y ! i) = Dispatching es k \<Longrightarrow>
     k < length (m_loggers (server y)) \<Longrightarrow> server_work ops y (push_one i es k y)"
| read_work: "i < length (conns y) \<Longrightarrow> conn_work (conns y ! i) = Dispatching es k \<Longrightarrow>
     k = length (m_loggers (server y)) \<Longrightarrow> server_work ops y (read_finish i es y)"
| worker_work: "k < length (m_loggers (server y)) \<Longrightarrow> slot = m_loggers (server y) ! k \<Longrightarrow>
     worker_at (slot_logger slot) \<notin> {Asleep, Exited, Crashed} \<Longrightarrow>
     server_work ops y (set_logger k (worker_step (slot_ops ops slot) (slot_logger slot)) y)"
| join_work: "server_phase y = Stopping \<Longrightarrow> busy y = 0 \<Longrightarrow>
     server_work ops y (y\<lparr>server := server_shutdown (server y), server_phase := Clearing 0\<rparr>)"
| mark_work: "server_phase y = Clearing k \<Longrightarrow> k < length (m_loggers (server y)) \<Longrightarrow>
     dtor_at (logger_at y k) = Alive \<Longrightarrow>
     server_work ops y (set_logger k ((logger_at y k)\<lparr>m_done := True, dtor_at := Marked\<rparr>) y)"
| notify_work: "server_phase y = Clearing k \<Longrightarrow> k < length (m_loggers (server y)) \<Longrightarrow>
     dtor_at (logger_at y k) = Marked \<Longrightarrow>
     server_work ops y (set_logger k (notify_one ((logger_at y k)\<lparr>dtor_at := Joining\<rparr>)) y)"
| clear_work: "server_phase y = Clearing k \<Longrightarrow> k < length (m_loggers (server y)) \<Longrightarrow>
     dtor_at (logger_at y k) = Joining \<Longrightarrow> worker_at (logger_at y k) = Exited \<Longrightarrow>
     server_work ops y
       ((set_logger k ((logger_at y k)\<lparr>dtor_at := Destroyed\<rparr>) y)\<lparr>server_phase := Clearing (Suc k)\<rparr>)"

lemma server_work_step: "server_work ops y z \<Longrightarrow> server_step J P ops y z"
  by (induction rule: server_work.induct) (auto simp: slot_ops_def intro: server_step.intros)

lemma set_logger_same: "set_logger k (logger_at y k) y = y"
  by (simp add: set_logger_def logger_at_def)

lemma worker_step_idle: "worker_at l \<in> {Asleep, Exited, Crashed} \<Longrightarrow> worker_step K l = l"
  by (auto simp: worker_step_def)

text \<open>Once the context is stopped, nothing but spurious wake-ups comes between the steps of work.\<close>

lemma stopped_steps:
  assumes "server_step J P ops y z" and "phase_inv y" and "server_phase y \<noteq> Serving"
  shows "server_work ops y z \<or> z = y \<or>
    (\<exists>k. worker_at (logger_at y k) = Asleep \<and> z = set_logger k ((logger_at y k)\<lparr>worker_at := Checking\<rparr>) y)"
  using assms
proof (induction rule: server_step.induct)
  case (works k y slot)
  show ?case
  proof (cases "worker_at (slot_logger slot) \<in> {Asleep, Exited, Crashed}")
    case True
    have "worker_step (ops (slot_spec slot) (slot_level slot)) (slot_logger slot) = logger_at y k"
      using worker_step_idle [OF True] works(2) by (simp add: logger_at_def)
    then show ?thesis by (simp add: set_logger_same)
  next
    case False
    then show ?thesis using server_work.worker_work [OF works(1,2)] by (simp add: slot_ops_def)
  qed
qed (auto simp: io_ready_def phase_inv_def intro: server_work.intros)

section \<open>The rank\<close>

fun phase_rank :: "phase \<Rightarrow> nat" where
  "phase_rank Serving = 2"
| "phase_rank Stopping = 1"
| "phase_rank (Clearing k) = 0"

fun dtor_rank :: "dtor_state \<Rightarrow> nat" where
  "dtor_rank Alive = 4"
| "dtor_rank Marked = 3"
| "dtor_rank Joining = 1"
| "dtor_rank Destroyed = 0"

definition worker_rank :: "'s Logger \<Rightarrow> nat" where
  "worker_rank l = (if m_done l then exit_rank (worker_at l) else drain_rank l (worker_at l))"

definition logger_rank :: "'s Logger \<Rightarrow> nat" where
  "logger_rank l = worker_rank l + dtor_rank (dtor_at l)"

text \<open>A push of a batch gives the worker of a logger so many steps, and three.\<close>

fun work_rank :: "nat \<Rightarrow> work \<Rightarrow> nat" where
  "work_rank n Waiting = 0"
| "work_rank n (Dispatching es k) = Suc ((n - k) * (length es + 4))"

definition conns_rank :: "('a, 's) server_sys \<Rightarrow> nat" where
  "conns_rank y = sum_list (map (\<lambda>c. work_rank (length (m_loggers (server y))) (conn_work c)) (conns y))"

definition loggers_rank :: "('a, 's) server_sys \<Rightarrow> nat" where
  "loggers_rank y = sum_list (map (\<lambda>slot. logger_rank (slot_logger slot)) (m_loggers (server y)))"

definition server_rank :: "('a, 's) server_sys \<Rightarrow> nat" where
  "server_rank y =
     phase_rank (server_phase y) + length (accepting y) + conns_rank y + loggers_rank y"

lemma sum_list_map_update:
  fixes f :: "'x \<Rightarrow> nat"
  shows "k < length xs \<Longrightarrow>
    sum_list (map f (xs[k := x])) + f (xs ! k) = sum_list (map f xs) + f x"
proof (induction xs arbitrary: k)
  case (Cons x' xs)
  then show ?case by (cases k) auto
qed simp

lemma loggers_rank_set:
  assumes "k < length (m_loggers (server y))"
  shows "loggers_rank (set_logger k l y) + logger_rank (logger_at y k) = loggers_rank y + logger_rank l"
  using sum_list_map_update [OF assms, of "\<lambda>slot. logger_rank (slot_logger slot)"
      "(m_loggers (server y) ! k)\<lparr>slot_logger := l\<rparr>"]
  by (simp add: loggers_rank_def set_logger_def logger_at_def)

lemma conns_rank_set:
  assumes "i < length (conns y)" and "conns z = (conns y)[i := c]"
    and "length (m_loggers (server z)) = length (m_loggers (server y))"
  shows "conns_rank z + work_rank (length (m_loggers (server y))) (conn_work (conns y ! i)) =
    conns_rank y + work_rank (length (m_loggers (server y))) (conn_work c)"
  using sum_list_map_update [OF assms(1), of "\<lambda>c. work_rank (length (m_loggers (server y))) (conn_work c)" c]
  by (simp add: conns_rank_def assms(2,3))

lemma conns_rank_same:
  "conns z = conns y \<Longrightarrow> length (m_loggers (server z)) = length (m_loggers (server y)) \<Longrightarrow>
   conns_rank z = conns_rank y"
  by (simp add: conns_rank_def)

lemma loggers_rank_same:
  "m_loggers (server z) = m_loggers (server y) \<Longrightarrow> loggers_rank z = loggers_rank y"
  by (simp add: loggers_rank_def)

subsection \<open>Loggers\<close>

lemma worker_rank_step:
  assumes "sink_total K" and "worker_at l \<notin> {Asleep, Exited, Crashed}"
  shows "worker_rank (worker_step K l) < worker_rank l"
proof (cases "m_done l")
  case True
  obtain n where "exit_rank (worker_at l) = Suc n"
    using assms(2) by (cases "worker_at l") auto
  then show ?thesis using exit_step [OF assms(1) True] True by (simp add: worker_rank_def)
next
  case False
  have "drain_rank l (worker_at l) \<noteq> 0"
    using assms(2) by (cases "worker_at l") (auto simp: check_rank_def)
  then obtain n where "drain_rank l (worker_at l) = Suc n" using not0_implies_Suc by blast
  then show ?thesis
    using drain_step [OF assms(1) False] assms(2) False by (simp add: worker_rank_def)
qed

lemma worker_rank_push:
  assumes "wake_inv l" and "dtor_at l = Alive"
  shows "worker_rank (push_copy l es) \<le> worker_rank l + length es + 3"
  using assms by (cases "worker_at l") (auto simp: worker_rank_def wake_inv_def push_copy_def check_rank_def)

lemma worker_rank_mark:
  "worker_rank (l\<lparr>m_done := True, dtor_at := Marked\<rparr>) \<le> worker_rank l"
  by (cases "worker_at l") (auto simp: worker_rank_def check_rank_def)

lemma worker_rank_notify:
  "m_done l \<Longrightarrow> worker_rank (notify_one (l\<lparr>dtor_at := Joining\<rparr>)) \<le> worker_rank l + 1"
  by (cases "worker_at l") (auto simp: worker_rank_def)


subsection \<open>Configuration of the sinks\<close>

text \<open>Sinks that keep to their level and do not throw, by the configuration of the loggers.\<close>

definition sinks_ok ::
    "(sink_spec \<Rightarrow> int \<Rightarrow> 's sink_ops) \<Rightarrow> (sink_spec \<times> int \<times> string option) list \<Rightarrow> bool" where
  "sinks_ok ops cfg \<longleftrightarrow>
     (\<forall>(spec, lvl, pat) \<in> set cfg. sink_level (ops spec lvl) lvl \<and> sink_total (ops spec lvl))"

abbreviation configs :: "('a, 's) server_sys \<Rightarrow> (sink_spec \<times> int \<times> string option) list" where
  "configs y \<equiv> map slot_config (m_loggers (server y))"

lemma configs_set_logger [simp]: "configs (set_logger k l y) = configs y"
proof (cases "k < length (m_loggers (server y))")
  case True
  have "slot_config ((m_loggers (server y) ! k)\<lparr>slot_logger := l\<rparr>) = configs y ! k"
    using True by (simp add: slot_config_def)
  then show ?thesis by (simp add: set_logger_def map_update)
qed (simp add: set_logger_def not_less list_update_beyond)

lemma configs_push_one [simp]: "configs (push_one i es k y) = configs y"
  unfolding push_one_set_logger by (rule configs_set_logger)

lemma server_step_configs: "server_step J P ops y z \<Longrightarrow> configs z = configs y"
  by (induction rule: server_step.induct) (simp_all add: accept_callback_def)

lemma sinks_ok_at:
  assumes "sinks_ok ops (configs y)" and "k < length (m_loggers (server y))"
    and "slot = m_loggers (server y) ! k"
  shows "sink_level (slot_ops ops slot) (slot_level slot)" and "sink_total (slot_ops ops slot)"
proof -
  have "slot_config slot \<in> set (configs y)" using assms(2,3) by simp
  then show "sink_level (slot_ops ops slot) (slot_level slot)" and "sink_total (slot_ops ops slot)"
    using assms(1) by (auto simp: sinks_ok_def slot_config_def slot_ops_def)
qed

lemma logger_facts:
  assumes "loggers_inv ops y" and "k < length (m_loggers (server y))"
    and "slot = m_loggers (server y) ! k"
  shows "wake_inv (slot_logger slot)"
    and "sinks_ok ops (configs y) \<Longrightarrow>
      accounted (slot_level slot) (slot_logger slot) \<and> quiet (slot_logger slot)"
proof -
  obtain sink where r: "logger_reachable (slot_ops ops slot) sink (slot_logger slot)"
    using assms nth_mem [OF assms(2)] unfolding loggers_inv_def by blast
  then show "wake_inv (slot_logger slot)" by (rule logger_reachable_wake)
  assume ok: "sinks_ok ops (configs y)"
  show "accounted (slot_level slot) (slot_logger slot) \<and> quiet (slot_logger slot)"
    using r by (rule logger_reachable_accounted) (rule sinks_ok_at [OF ok assms(2,3)])+
qed

subsection \<open>Every step of work lowers the rank\<close>

lemma server_rank_set_logger:
  assumes "k < length (m_loggers (server y))" and "logger_rank l < logger_rank (logger_at y k)"
  shows "server_rank (set_logger k l y) < server_rank y"
  using loggers_rank_set [OF assms(1), of l] assms(2) conns_rank_same [of "set_logger k l y" y]
  by (simp add: server_rank_def)

lemma server_rank_push:
  assumes "i < length (conns y)" and "conn_work (conns y ! i) = Dispatching es k"
    and "k < length (m_loggers (server y))" and "wake_inv (logger_at y k)"
    and "dtor_at (logger_at y k) = Alive"
  shows "server_rank (push_one i es k y) < server_rank y"
proof -
  let ?n = "length (m_loggers (server y))" and ?z = "push_one i es k y"
  have "conns_rank ?z + work_rank ?n (Dispatching es k) = conns_rank y + work_rank ?n (Dispatching es (Suc k))"
    using conns_rank_set [OF assms(1), of ?z] assms(2) by simp
  moreover have "work_rank ?n (Dispatching es k) = work_rank ?n (Dispatching es (Suc k)) + length es + 4"
    using assms(3) by (simp add: Suc_diff_Suc [symmetric])
  moreover have "loggers_rank ?z + logger_rank (logger_at y k) =
      loggers_rank y + logger_rank (push_copy (logger_at y k) es)"
    using loggers_rank_same [OF push_one_set_logger] loggers_rank_set [OF assms(3)] by metis
  moreover have "logger_rank (push_copy (logger_at y k) es) \<le> logger_rank (logger_at y k) + length es + 3"
    using worker_rank_push [OF assms(4,5), of es] by (simp add: logger_rank_def)
  ultimately show ?thesis by (simp add: server_rank_def)
qed

lemma server_work_rank:
  assumes "server_work ops y z" and "phase_inv y" and "loggers_inv ops y"
    and "sinks_ok ops (configs y)"
  shows "server_rank z < server_rank y"
  using assms
proof (induction rule: server_work.induct)
  case (accept_work y hs j ec hs' junk)
  let ?z = "accept_callback (m_acceptors (server y) ! j) ec
      (\<lambda>ec sock. on_accept junk ec sock (y\<lparr>accepting := hs @ hs'\<rparr>))"
  have "conns_rank ?z = conns_rank y" "loggers_rank ?z = loggers_rank y"
    by (simp_all add: conns_rank_def loggers_rank_def accept_callback_def on_accept_def server_accept_def)
  then show ?case using accept_work(1) by (simp add: server_rank_def accept_callback_def)
next
  case (push_work i y es k)
  then show ?case
    using logger_facts(1) [OF push_work(5,3) refl] phase_inv_pushing [OF push_work(4,1) _ push_work(3)]
    by (intro server_rank_push) (simp_all add: logger_at_def)
next
  case (read_work i y es k)
  let ?c = "(conns y ! i)\<lparr>conn_work := Waiting,
      conn_session := session_read (conn_session (conns y ! i)),
      dispatched := dispatched (conns y ! i) @ [es]\<rparr>"
  have "conns (read_finish i es y) = (conns y)[i := ?c]" by (simp add: read_finish_def)
  then have "conns_rank (read_finish i es y) < conns_rank y"
    using conns_rank_set [OF read_work(1), of "read_finish i es y" ?c] read_work(2) by simp
  then show ?case using loggers_rank_same [of "read_finish i es y" y] by (simp add: server_rank_def)
next
  case (worker_work k y slot)
  then have "worker_rank (worker_step (slot_ops ops slot) (slot_logger slot)) < worker_rank (slot_logger slot)"
    using sinks_ok_at(2) by (intro worker_rank_step) blast+
  then show ?case
    using worker_work(1,2) by (intro server_rank_set_logger) (simp_all add: logger_rank_def logger_at_def)
next
  case (join_work y)
  then show ?case by (simp add: server_rank_def conns_rank_def loggers_rank_def)
next
  case (mark_work y k)
  then show ?case
    using worker_rank_mark [of "logger_at y k"]
    by (intro server_rank_set_logger) (simp_all add: logger_rank_def)
next
  case (notify_work y k)
  have "m_done (logger_at y k)"
    using logger_facts(1) [OF notify_work(5,2) refl] notify_work(3) by (simp add: wake_inv_def logger_at_def)
  then show ?case
    using notify_work(2,3) worker_rank_notify [of "logger_at y k"]
    by (intro server_rank_set_logger) (simp_all add: logger_rank_def)
next
  case (clear_work y k)
  let ?l = "(logger_at y k)\<lparr>dtor_at := Destroyed\<rparr>"
  have "server_rank (set_logger k ?l y) < server_rank y"
    using clear_work(2,3)
    by (intro server_rank_set_logger)
      (cases "worker_at (logger_at y k)"; simp add: logger_rank_def worker_rank_def check_rank_def)+
  moreover have "server_rank ((set_logger k ?l y)\<lparr>server_phase := Clearing (Suc k)\<rparr>) = server_rank (set_logger k ?l y)"
    using clear_work(1) by (simp add: server_rank_def conns_rank_def loggers_rank_def)
  ultimately show ?case by simp
qed


section \<open>Destruction, logger by logger\<close>

definition clearing_inv :: "('a, 's) server_sys \<Rightarrow> bool" where
  "clearing_inv y \<longleftrightarrow>
     (\<forall>k. server_phase y = Clearing k \<longrightarrow>
        k \<le> length (m_loggers (server y)) \<and> True \<notin> set (m_ioc_threads (server y)) \<and>
        (\<forall>j < k. dtor_at (logger_at y j) = Destroyed) \<and>
        (k < length (m_loggers (server y)) \<longrightarrow> dtor_at (logger_at y k) \<noteq> Destroyed))"

text \<open>Steps that touch no destructor.\<close>

lemma clearing_inv_frame:
  assumes "clearing_inv y" and "server_phase z = server_phase y"
    and "length (m_loggers (server z)) = length (m_loggers (server y))"
    and "m_ioc_threads (server z) = m_ioc_threads (server y)"
    and "\<And>j. j < length (m_loggers (server y)) \<Longrightarrow> dtor_at (logger_at z j) = dtor_at (logger_at y j)"
  shows "clearing_inv z"
  using assms by (auto simp: clearing_inv_def)

lemma server_step_clearing_inv:
  assumes "server_step J P ops y z" and "phase_inv y" and "clearing_inv y"
  shows "clearing_inv z"
  using assms
proof (induction rule: server_step.induct)
  case (accept_finished y hs j ec hs' junk)
  show ?case by (rule clearing_inv_frame [OF accept_finished(4)]) (simp_all add: accept_callback_def)
next
  case (accepted y j ec)
  show ?case by (rule clearing_inv_frame [OF accepted(5)]) simp_all
next
  case (read_completes y i ev)
  show ?case by (rule clearing_inv_frame [OF read_completes(6)]) simp_all
next
  case (pushes i y es k)
  show ?case by (rule clearing_inv_frame [OF pushes(5)]) (simp_all add: logger_at_push_one)
next
  case (read_finished i y es k)
  show ?case by (rule clearing_inv_frame [OF read_finished(5)]) simp_all
next
  case (works k y slot)
  show ?case
    by (rule clearing_inv_frame [OF works(4)])
      (simp_all add: logger_at_set_logger logger_at_works [OF works(2)])
next
  case (wakes k y)
  show ?case by (rule clearing_inv_frame [OF wakes(4)]) (simp_all add: logger_at_set_logger)
next
  case (joins y)
  then show ?case
    by (auto simp: clearing_inv_def phase_inv_def alive_from_def logger_at_def server_shutdown_def)
next
  case (clears y k)
  then show ?case
    by (auto simp: clearing_inv_def phase_inv_def alive_from_def logger_at_set_logger less_Suc_eq
        split: if_splits)
qed (auto simp: clearing_inv_def logger_at_set_logger)

section \<open>Listening\<close>

text \<open>An accept is outstanding on every acceptor, or the callback that requests one is under way.\<close>

definition listening_inv :: "('a, 's) server_sys \<Rightarrow> bool" where
  "listening_inv y \<longleftrightarrow>
     (\<forall>a \<in> set (m_acceptors (server y)). 0 < outstanding_accepts a + length (accepting y))"

lemma listening_inv_frame:
  "listening_inv y \<Longrightarrow> m_acceptors (server z) = m_acceptors (server y) \<Longrightarrow> accepting z = accepting y \<Longrightarrow>
   listening_inv z"
  by (simp add: listening_inv_def)

lemma server_step_listening_inv:
  "server_step J P ops y z \<Longrightarrow> listening_inv y \<Longrightarrow> listening_inv z"
proof (induction rule: server_step.induct)
  case (accepted y j ec)
  then show ?case by (simp add: listening_inv_def)
next
  case (accept_finished y hs j ec hs' junk)
  then show ?case by (auto simp: listening_inv_def accept_callback_def)
qed (auto intro: listening_inv_frame)

section \<open>Reachable states\<close>

lemma server_reachable_facts:
  assumes "new_server sys S opt = (None, v)" and "server_reachable J P ops (start_sys v w) z"
  shows "phase_inv z" and "loggers_inv ops z" and "clearing_inv z"
    and "configs z = wanted_sinks sys opt"
    and "conns_inv J P z" and "sent_inv z" and "arrived_inv z"
    and "\<forall>d \<in> set (deliveries z). fst d < length (conns z)" and "listening_inv z"
proof -
  show "phase_inv z" "loggers_inv ops z"
    using assms(2) new_server_invs(1,2) [OF assms(1)]
    by (auto intro: server_reachable_phase_inv server_reachable_loggers_inv)
  show "conns_inv J P z" "sent_inv z" "arrived_inv z"
    "\<forall>d \<in> set (deliveries z). fst d < length (conns z)"
    using server_reachable_stream_invs [OF assms(2) new_server_stream_invs [OF assms(1)]]
    by (simp_all add: start_sys_def)
  have "phase_inv (start_sys v w) \<and> clearing_inv (start_sys v w) \<and> listening_inv (start_sys v w) \<and>
      configs (start_sys v w) = wanted_sinks sys opt"
    using new_server_invs(1) [OF assms(1)] new_server_members(3,4) [OF assms(1)]
    by (simp add: clearing_inv_def listening_inv_def start_sys_def)
  with assms(2) have "phase_inv z \<and> clearing_inv z \<and> listening_inv z \<and> configs z = wanted_sinks sys opt"
  proof (induction rule: server_reachable.induct)
    case (goes_on y z z')
    then show ?case
      using server_step_phase_inv server_step_clearing_inv server_step_listening_inv server_step_configs
      by metis
  qed simp
  then show "clearing_inv z" "listening_inv z" "configs z = wanted_sinks sys opt" by simp_all
qed

lemma sinks_ok_terminated:
  assumes "loggers_inv ops z" and "sinks_ok ops (configs z)"
  shows "terminated z \<longleftrightarrow> aborted z"
proof -
  have "\<not> worker_crashed z"
    unfolding worker_crashed_def all_set_conv_all_nth Bex_def [symmetric]
    using logger_facts(2) [OF assms(1) _ refl assms(2)] by (auto simp: in_set_conv_nth quiet_def)
  then show ?thesis by (simp add: terminated_def)
qed

text \<open>What has been received on the \<open>i\<close>-th connection.\<close>

definition stream_of :: "('a, 's) server_sys \<Rightarrow> nat \<Rightarrow> string" where
  "stream_of y i = (if i < length (conns y) then concat (received (conns y ! i)) else [])"

lemma stream_of_set_conn:
  "conns z = (conns y)[i := c] \<Longrightarrow> received c = received (conns y ! i) \<Longrightarrow> stream_of z = stream_of y"
  by (rule ext, cases "i < length (conns y)")
    (auto simp: stream_of_def nth_list_update not_less list_update_beyond)

lemma server_work_frame:
  assumes "server_work ops y z"
  shows "aborted z = aborted y" and "stream_of z = stream_of y"
    and "server_phase y = Serving \<longleftrightarrow> server_phase z = Serving"
proof -
  show "server_phase y = Serving \<longleftrightarrow> server_phase z = Serving" "aborted z = aborted y"
    using assms
    by (induction rule: server_work.induct)
      (simp_all add: accept_callback_def on_accept_def push_one_def read_finish_def)
  show "stream_of z = stream_of y"
    using assms
  proof (induction rule: server_work.induct)
    case (accept_work y hs j ec hs' junk)
    then show ?case
      by (intro ext) (auto simp: stream_of_def accept_callback_def on_accept_def nth_append less_Suc_eq)
  next
    case (push_work i y es k)
    show ?case by (rule stream_of_set_conn [OF push_one_sel(1)]) simp
  next
    case (read_work i y es k)
    have "conns (read_finish i es y) = (conns y)[i := (conns y ! i)\<lparr>conn_work := Waiting,
        conn_session := session_read (conn_session (conns y ! i)),
        dispatched := dispatched (conns y ! i) @ [es]\<rparr>]" by (simp add: read_finish_def)
    then show ?case by (rule stream_of_set_conn) simp
  qed (auto simp: stream_of_def)
qed

text \<open>The states of a server with sinks that do not throw, in which no handler has failed.\<close>

definition server_ok ::
    "'j json_ops \<Rightarrow> platform \<Rightarrow> (sink_spec \<Rightarrow> int \<Rightarrow> 's sink_ops) \<Rightarrow> os \<Rightarrow> ('a, 's) services \<Rightarrow> Options \<Rightarrow>
     ('a, 's) Server \<Rightarrow> world \<Rightarrow> ('a, 's) server_sys \<Rightarrow> bool" where
  "server_ok J P ops sys S opt v w z \<longleftrightarrow>
     new_server sys S opt = (None, v) \<and> sinks_ok ops (wanted_sinks sys opt) \<and>
     server_reachable J P ops (start_sys v w) z \<and> \<not> aborted z"

lemma server_ok_facts:
  assumes "server_ok J P ops sys S opt v w z"
  shows "phase_inv z" and "loggers_inv ops z" and "sinks_ok ops (configs z)" and "\<not> terminated z"
proof -
  have z: "new_server sys S opt = (None, v)" "sinks_ok ops (wanted_sinks sys opt)"
    "server_reachable J P ops (start_sys v w) z" "\<not> aborted z"
    using assms by (simp_all add: server_ok_def)
  note facts = server_reachable_facts [OF z(1,3)]
  show "phase_inv z" "loggers_inv ops z" by (rule facts)+
  show ok: "sinks_ok ops (configs z)" unfolding facts(4) by (rule z(2))
  show "\<not> terminated z" using sinks_ok_terminated [OF facts(2) ok] z(4) by simp
qed

interpretation settling: bounded_work "server_work ops" server_rank "server_ok J P ops sys S opt v w"
  for J P ops sys S opt v w
proof unfold_locales
  fix y z
  assume y: "server_ok J P ops sys S opt v w y" and step: "server_work ops y z"
  show "server_rank z < server_rank y"
    using server_work_rank [OF step] server_ok_facts [OF y] by blast
  have "server_reachable J P ops (start_sys v w) z"
    using y server_ok_facts(4) [OF y] server_work_step [OF step]
    by (auto simp: server_ok_def intro: server_reachable.goes_on)
  then show "server_ok J P ops sys S opt v w z"
    using y server_work_frame(1) [OF step] by (simp add: server_ok_def)
qed

lemma server_work_run:
  assumes "new_server sys S opt = (None, v)" and "sinks_ok ops (wanted_sinks sys opt)"
    and "(server_work ops ^^ n) z z'"
    and "server_reachable J P ops (start_sys v w) z" and "\<not> aborted z"
  shows "server_reachable J P ops (start_sys v w) z' \<and> \<not> aborted z' \<and> stream_of z' = stream_of z \<and>
    (server_phase z' = Serving \<longleftrightarrow> server_phase z = Serving) \<and> n + server_rank z' \<le> server_rank z"
proof -
  have "server_ok J P ops sys S opt v w z" using assms by (simp add: server_ok_def)
  note run = settling.work_bounded [OF this assms(3)]
  have "stream_of z' = stream_of z"
    using settling.work_keeps [of ops stream_of, OF _ assms(3)] server_work_frame(2) by blast
  moreover have "(server_phase z' = Serving) = (server_phase z = Serving)"
    using settling.work_keeps [of ops "\<lambda>z. server_phase z = Serving", OF _ assms(3)]
      server_work_frame(3) by blast
  ultimately show ?thesis using run by (simp add: server_ok_def)
qed

section \<open>States without work\<close>

lemma no_work_left:
  assumes "\<nexists>z. server_work ops y z" and "phase_inv y" and "loggers_inv ops y" and "clearing_inv y"
    and "sent_inv y" and "sinks_ok ops (configs y)"
  shows "busy y = 0"
    and "k < length (m_loggers (server y)) \<Longrightarrow> worker_at (logger_at y k) \<in> {Asleep, Exited}"
    and "server_phase y \<noteq> Serving \<Longrightarrow> server_phase y = Clearing (length (m_loggers (server y)))"
proof -
  have "accepting y = []"
  proof (rule ccontr)
    assume "accepting y \<noteq> []"
    then obtain j ec hs where "accepting y = [] @ (j, ec) # hs" by (cases "accepting y") auto
    then show False
      using assms(1) server_work.accept_work [of y "[]" j ec hs "replicate buffer_size (CHR ''x'')"]
      by (metis length_replicate)
  qed
  moreover have "conn_work (conns y ! i) = Waiting" if i: "i < length (conns y)" for i
  proof (cases "conn_work (conns y ! i)")
    case (Dispatching es m)
    then have "m \<le> length (m_loggers (server y))" using assms(5) i by (simp add: sent_inv_def)
    then show ?thesis
      using assms(1) i Dispatching server_work.push_work server_work.read_work
      by (metis le_neq_implies_less)
  qed
  ultimately show busy: "busy y = 0" by (simp add: busy_0)
  show idle: "worker_at (logger_at y k) \<in> {Asleep, Exited}" if "k < length (m_loggers (server y))" for k
    using that assms(1) server_work.worker_work [OF that refl] logger_facts(2) [OF assms(3) that refl assms(6)]
    by (auto simp: quiet_def logger_at_def)
  assume "server_phase y \<noteq> Serving"
  then obtain k where k: "server_phase y = Clearing k"
    using assms(1) server_work.join_work [of y] busy by (cases "server_phase y") auto
  show "server_phase y = Clearing (length (m_loggers (server y)))"
  proof (cases "k < length (m_loggers (server y))")
    case True
    have "dtor_at (logger_at y k) \<noteq> Destroyed" using assms(4) k True by (simp add: clearing_inv_def)
    then have "dtor_at (logger_at y k) = Joining"
      using assms(1) server_work.mark_work [OF k True] server_work.notify_work [OF k True]
      by (cases "dtor_at (logger_at y k)") auto
    moreover from this have "worker_at (logger_at y k) \<noteq> Asleep"
      using logger_facts(1) [OF assms(3) True refl] by (auto simp: wake_inv_def logger_at_def)
    ultimately show ?thesis
      using idle [OF True] assms(1) server_work.clear_work [OF k True] by auto
  next
    case False
    then show ?thesis using assms(4) k by (simp add: clearing_inv_def)
  qed
qed

text \<open>With no handler under way, what has been received has reached the loggers.\<close>

lemma settled_stream:
  assumes "conns_inv J P y" and "sent_inv y" and "busy y = 0" and "k < length (m_loggers (server y))"
  shows "list_all2 (decodes J P) (fst (frames (stream_of y i))) (concat (sent y i k))"
proof -
  have sent: "sent y i k = conn_sent y i k" using assms(2,4) by (simp add: sent_inv_def)
  show ?thesis
  proof (cases "i < length (conns y)")
    case True
    then have "conn_inv J P (conns y ! i)" "conn_work (conns y ! i) = Waiting"
      using assms(1,3) by (auto simp: conns_inv_def busy_0)
    then show ?thesis using True by (simp add: sent conn_sent_def stream_of_def conn_inv_def)
  next
    case False
    then show ?thesis by (simp add: sent conn_sent_def stream_of_def frames_None split_frame_no_start)
  qed
qed

section \<open>Streams that come together\<close>

text \<open>
  \<open>merges yss xs\<close>: \<open>xs\<close> is made of the lists \<open>yss\<close>, each in its order: every element of \<open>xs\<close>
  can be attributed to one of them, so that what is attributed to the \<open>i\<close>-th is \<open>yss ! i\<close>.
\<close>

definition merges :: "'a list list \<Rightarrow> 'a list \<Rightarrow> bool" where
  "merges yss xs \<longleftrightarrow>
     (\<exists>ts. map snd ts = xs \<and> (\<forall>t \<in> set ts. fst t < length yss) \<and>
       (\<forall>i < length yss. map snd (filter (\<lambda>t. fst t = i) ts) = yss ! i))"

lemma merges_filter:
  assumes "merges yss xs"
  shows "merges (map (filter q) yss) (filter q xs)"
proof -
  obtain ts where ts: "map snd ts = xs" "\<forall>t \<in> set ts. fst t < length yss"
    "\<forall>i < length yss. map snd (filter (\<lambda>t. fst t = i) ts) = yss ! i"
    using assms by (auto simp: merges_def)
  let ?ts = "filter (\<lambda>t. q (snd t)) ts"
  have "map snd ?ts = filter q xs" using ts(1) by (auto simp: filter_map comp_def)
  moreover have "map snd (filter (\<lambda>t. fst t = i) ?ts) = filter q (yss ! i)" if "i < length yss" for i
  proof -
    have "filter (\<lambda>t. fst t = i) ?ts = filter (\<lambda>t. q (snd t)) (filter (\<lambda>t. fst t = i) ts)"
      by (induction ts) auto
    moreover have "map snd (filter (\<lambda>t. q (snd t)) us) = filter q (map snd us)" for us :: "(nat \<times> 'a) list"
      by (induction us) auto
    ultimately show ?thesis using ts(3) that by (simp del: filter_filter)
  qed
  ultimately show ?thesis
    unfolding merges_def using ts(2) by (intro exI [of _ ?ts]) simp
qed

lemma merges_passes: "merges yss xs \<Longrightarrow> merges (map (passes lvl) yss) (passes lvl xs)"
  using merges_filter [of yss xs] by (simp add: passes_def [abs_def])

text \<open>The batches that have arrived at a logger, with the connection each element comes from.\<close>

lemma arrived_merges:
  assumes "\<forall>d \<in> set (deliveries y). fst d < length (conns y)"
  shows "merges (map (\<lambda>i. concat (sent y i k)) [0..<length (conns y)]) (arrived y k)"
proof -
  let ?at = "\<lambda>ds. filter (\<lambda>(i', k', es). k' = k) ds"
  let ?tag = "\<lambda>ds. concat (map (\<lambda>(i, k', es). map (Pair i) es) (?at ds))"
  have "map snd (?tag ds) = concat (map (\<lambda>(i', k', es). es) (?at ds))" for ds :: "(nat \<times> nat \<times> Element list) list"
    by (induction ds) (auto simp: comp_def)
  moreover have "map snd (filter (\<lambda>t. fst t = i) (?tag ds)) =
      concat (map (\<lambda>(i', k', es). es) (filter (\<lambda>(i', k', es). i' = i \<and> k' = k) ds))"
    for i and ds :: "(nat \<times> nat \<times> Element list) list"
  proof (induction ds)
    case (Cons d ds)
    obtain i' k' es where "d = (i', k', es)" by (cases d)
    then show ?case using Cons by (cases "i' = i") (simp_all add: filter_map comp_def)
  qed simp
  moreover have "\<forall>t \<in> set (?tag (deliveries y)). fst t < length (conns y)"
    using assms by fastforce
  ultimately show ?thesis
    unfolding merges_def by (intro exI [of _ "?tag (deliveries y)"]) (auto simp: arrived_def sent_def)
qed

text \<open>
  What a logger whose sink has the level \<open>lvl\<close> is to write: what becomes of the objects on each
  connection, in the order of its stream, those of different connections in any order.
\<close>

definition decoding :: "'j json_ops \<Rightarrow> platform \<Rightarrow> string \<Rightarrow> Element list \<Rightarrow> bool" where
  "decoding J P s es \<longleftrightarrow> list_all2 (decodes J P) (fst (frames s)) es"

definition log_of ::
    "'j json_ops \<Rightarrow> platform \<Rightarrow> int \<Rightarrow> ('a, 's) server_sys \<Rightarrow> Element list \<Rightarrow> bool" where
  "log_of J P lvl y es \<longleftrightarrow>
     (\<exists>ess. list_all2 (decoding J P) (map (stream_of y) [0..<length (conns y)]) ess \<and>
       merges (map (passes lvl) ess) es)"

lemma settled_log:
  assumes "conns_inv J P y" and "sent_inv y" and "busy y = 0" and "k < length (m_loggers (server y))"
    and "\<forall>d \<in> set (deliveries y). fst d < length (conns y)"
  shows "log_of J P lvl y (passes lvl (arrived y k))"
proof -
  let ?ess = "map (\<lambda>i. concat (sent y i k)) [0..<length (conns y)]"
  have "list_all2 (decoding J P) (map (stream_of y) [0..<length (conns y)]) ?ess"
    using settled_stream [OF assms(1-4)] by (simp add: list_all2_conv_all_nth decoding_def)
  then show ?thesis
    unfolding log_of_def using merges_passes [OF arrived_merges [OF assms(5)]] by blast
qed

section \<open>A server for the witnesses\<close>

lemma sample_ops_sinks_ok: "sinks_ok sample_ops cfg"
  using sample_ops_ok by (simp add: sinks_ok_def)

lemma sample_sinks: "wanted_sinks Linux sample_options = [(syslog_sink ''scriptor'', 0, None)]"
  by (simp add: wanted_sinks_def optional_sinks_def sample_options_def default_options_def
      split: sum.splits)

lemma sample_slot:
  assumes "server_reachable sample_json sample_platform sample_ops (start_sys sample_server sample_world) z"
  shows "length (m_loggers (server z)) = 1" and "slot_level (m_loggers (server z) ! 0) = 0"
proof -
  have c: "configs z = [(syslog_sink ''scriptor'', 0, None)]"
    using server_reachable_facts(4) [OF new_sample_server assms] sample_sinks by simp
  then show l: "length (m_loggers (server z)) = 1" by (metis length_map length_Cons list.size(3) One_nat_def)
  have "slot_config (m_loggers (server z) ! 0) = (syslog_sink ''scriptor'', 0, None)"
    using c l by (metis less_one nth_Cons_0 nth_map)
  then show "slot_level (m_loggers (server z) ! 0) = 0" by (simp add: slot_config_def)
qed

lemma sample_sys_ok:
  "server_ok sample_json sample_platform sample_ops Linux sample_services sample_options
     sample_server sample_world sample_sys"
  using new_sample_server sample_ops_sinks_ok sample_sys_reachable sample_sys_sel(5)
  by (simp add: server_ok_def)

text \<open>The destructor is called while the handler is under way.\<close>

definition sample_stopped :: "(string, Element list) server_sys" where
  "sample_stopped =
     sample_sys\<lparr>server := (server sample_sys)\<lparr>ioc_stopped := True\<rparr>, server_phase := Stopping\<rparr>"

lemma sample_stopped_reachable:
  "server_reachable sample_json sample_platform sample_ops (start_sys sample_server sample_world) sample_stopped"
  unfolding sample_stopped_def using sample_sys_reachable sample_sys_sel(6) server_step.stops [OF sample_sys_sel(4)]
  by (rule server_reachable.goes_on)

section \<open>Where the work ends\<close>

lemma settled_at_end:
  assumes "new_server sys S opt = (None, v)" and "server_reachable J P ops (start_sys v w) z"
    and "\<not> aborted z" and "sinks_ok ops (wanted_sinks sys opt)" and "server_phase z = Serving"
    and "(server_work ops ^^ n) z z'" and "\<nexists>u. server_work ops z' u"
    and "k < length (m_loggers (server z'))" and "slot = m_loggers (server z') ! k"
  shows "busy z' = 0 \<and> worker_at (slot_logger slot) = Asleep \<and> m_elements (slot_logger slot) = [] \<and>
    stream_of z' = stream_of z \<and> log_of J P (slot_level slot) z' (log_calls (slot_logger slot)) \<and>
    (\<forall>c \<in> set (conns z'). outstanding_reads (m_socket (conn_session c)) = (if read_failed c then 0 else 1)) \<and>
    (\<forall>a \<in> set (m_acceptors (server z')). 0 < outstanding_accepts a) \<and>
    (m_ioc_threads (server z') \<noteq> [] \<longrightarrow> io_ready z')"
proof -
  note run = server_work_run [OF assms(1,4,6,2,3)]
  note facts = server_reachable_facts [OF assms(1) run [THEN conjunct1]]
  have ok: "sinks_ok ops (configs z')" unfolding facts(4) by (rule assms(4))
  note stuck = no_work_left [OF assms(7) facts(1-3,6) ok]
  note logger = logger_facts [OF facts(2) assms(8,9)]
  have alive: "dtor_at (slot_logger slot) = Alive"
    using facts(1) run assms(5,8,9) by (auto simp: phase_inv_def alive_from_def logger_at_def)
  then have asleep: "worker_at (slot_logger slot) = Asleep" "m_elements (slot_logger slot) = []"
    using logger(1) stuck(2) [OF assms(8)] assms(9) by (auto simp: wake_inv_def logger_at_def)
  have "log_calls (slot_logger slot) = passes (slot_level slot) (arrived z' k)"
    using logger(2) [OF ok] asleep facts(7) assms(8,9)
    by (simp add: accounted_def arrived_inv_def logger_at_def)
  then have "log_of J P (slot_level slot) z' (log_calls (slot_logger slot))"
    using settled_log [OF facts(5,6) stuck(1) assms(8) facts(8)] by simp
  moreover have "conn_work c = Waiting \<and> conn_inv J P c" if "c \<in> set (conns z')" for c
    using that stuck(1) facts(5) by (auto simp: busy_0 conns_inv_def in_set_conv_nth)
  then have "\<forall>c \<in> set (conns z'). outstanding_reads (m_socket (conn_session c)) = (if read_failed c then 0 else 1)"
    by (simp add: conn_inv_def)
  moreover have "\<forall>a \<in> set (m_acceptors (server z')). 0 < outstanding_accepts a"
    using facts(9) stuck(1) by (simp add: listening_inv_def busy_0)
  moreover have "m_ioc_threads (server z') \<noteq> [] \<longrightarrow> io_ready z'"
    using facts(1) run assms(5) stuck(1) by (simp add: io_ready_def phase_inv_def)
  ultimately show ?thesis using stuck(1) asleep run by blast
qed

lemma shut_down_at_end:
  assumes "new_server sys S opt = (None, v)" and "server_reachable J P ops (start_sys v w) z"
    and "\<not> aborted z" and "sinks_ok ops (wanted_sinks sys opt)" and "server_phase z \<noteq> Serving"
    and "(server_work ops ^^ n) z z'" and "\<nexists>u. server_work ops z' u"
    and "k < length (m_loggers (server z'))" and "slot = m_loggers (server z') ! k"
  shows "server_phase z' = Clearing (length (m_loggers (server z'))) \<and> busy z' = 0 \<and>
    True \<notin> set (m_ioc_threads (server z')) \<and>
    dtor_at (slot_logger slot) = Destroyed \<and> worker_at (slot_logger slot) = Exited \<and>
    stream_of z' = stream_of z \<and>
    log_of J P (slot_level slot) z'
      (log_calls (slot_logger slot) @ passes (slot_level slot) (m_elements (slot_logger slot)))"
proof -
  note run = server_work_run [OF assms(1,4,6,2,3)]
  note facts = server_reachable_facts [OF assms(1) run [THEN conjunct1]]
  have ok: "sinks_ok ops (configs z')" unfolding facts(4) by (rule assms(4))
  note stuck = no_work_left [OF assms(7) facts(1-3,6) ok]
  note logger = logger_facts [OF facts(2) assms(8,9)]
  have phase: "server_phase z' = Clearing (length (m_loggers (server z')))"
    using stuck(3) run assms(5) by simp
  then have d: "dtor_at (slot_logger slot) = Destroyed" "True \<notin> set (m_ioc_threads (server z'))"
    using facts(3) assms(8,9) by (auto simp: clearing_inv_def logger_at_def)
  then have "worker_at (slot_logger slot) = Exited" using logger(1) by (simp add: wake_inv_def)
  moreover from this have "log_calls (slot_logger slot) @ passes (slot_level slot) (m_elements (slot_logger slot)) =
      passes (slot_level slot) (arrived z' k)"
    using logger(2) [OF ok] facts(7) assms(8,9)
    by (simp add: accounted_def arrived_inv_def logger_at_def)
  ultimately show ?thesis
    using settled_log [OF facts(5,6) stuck(1) assms(8) facts(8)] d phase stuck(1) run by simp
qed

text \<open>
  What holds of a state \<open>z'\<close> in which the work that was to be done in \<open>z\<close> is done, while the
  server serves, and after it has been told to stop.
\<close>

definition settled ::
    "'j json_ops \<Rightarrow> platform \<Rightarrow> ('a, 's) server_sys \<Rightarrow> ('a, 's) server_sys \<Rightarrow> bool" where
  "settled J P z z' \<longleftrightarrow>
     busy z' = 0 \<and> stream_of z' = stream_of z \<and>
     (\<forall>slot \<in> set (m_loggers (server z')). worker_at (slot_logger slot) = Asleep \<and>
        m_elements (slot_logger slot) = [] \<and>
        log_of J P (slot_level slot) z' (log_calls (slot_logger slot))) \<and>
     (\<forall>c \<in> set (conns z'). outstanding_reads (m_socket (conn_session c)) = (if read_failed c then 0 else 1)) \<and>
     (\<forall>a \<in> set (m_acceptors (server z')). 0 < outstanding_accepts a) \<and>
     (m_ioc_threads (server z') \<noteq> [] \<longrightarrow> io_ready z')"

definition shut_down ::
    "'j json_ops \<Rightarrow> platform \<Rightarrow> ('a, 's) server_sys \<Rightarrow> ('a, 's) server_sys \<Rightarrow> bool" where
  "shut_down J P z z' \<longleftrightarrow>
     server_phase z' = Clearing (length (m_loggers (server z'))) \<and> busy z' = 0 \<and>
     True \<notin> set (m_ioc_threads (server z')) \<and> stream_of z' = stream_of z \<and>
     (\<forall>slot \<in> set (m_loggers (server z')). dtor_at (slot_logger slot) = Destroyed \<and>
        worker_at (slot_logger slot) = Exited \<and>
        log_of J P (slot_level slot) z'
          (log_calls (slot_logger slot) @ passes (slot_level slot) (m_elements (slot_logger slot))))"

lemma loggers_nonempty:
  assumes "new_server sys S opt = (None, v)" and "server_reachable J P ops (start_sys v w) z"
  shows "0 < length (m_loggers (server z))"
proof -
  have "configs z = wanted_sinks sys opt" by (rule server_reachable_facts(4) [OF assms])
  moreover have "wanted_sinks sys opt \<noteq> []" by (simp add: wanted_sinks_def)
  ultimately show ?thesis by (cases "m_loggers (server z)") auto
qed

section \<open>Properties\<close>



text \<open>C2. The server catches up: when no more input comes, every way of going on ends within the rank of
  the state, there is one, and wherever one ends, no handler is under way and every worker sleeps with an empty
  queue; and what each logger has written since the start is what becomes of everything received
  so far: the objects of each connection, decoded, in the order of its stream, without those
  below the level of the sink. The server is ready for more: an accept is outstanding on every
  acceptor, a read on every connection on which none has failed, and if the server has any
  thread, one is free.\<close>

theorem server_settles:
  assumes "new_server sys S opt = (None, v)" and "server_reachable J P ops (start_sys v w) z"
    and "\<not> aborted z" and "sinks_ok ops (wanted_sinks sys opt)" and "server_phase z = Serving"
  shows "(\<forall>n z'. (server_work ops ^^ n) z z' \<longrightarrow> n \<le> server_rank z) \<and>
    (\<exists>n z'. (server_work ops ^^ n) z z' \<and> (\<nexists>u. server_work ops z' u)) \<and>
    (\<forall>n z'. (server_work ops ^^ n) z z' \<longrightarrow> (\<nexists>u. server_work ops z' u) \<longrightarrow> settled J P z z')"
proof -
  have ok: "server_ok J P ops sys S opt v w z" using assms by (simp add: server_ok_def)
  have "settled J P z z'" if run: "(server_work ops ^^ n) z z'" "\<nexists>u. server_work ops z' u" for n z'
  proof -
    have "server_reachable J P ops (start_sys v w) z'"
      using server_work_run [OF assms(1,4) run(1) assms(2,3)] by simp
    then have "0 < length (m_loggers (server z'))" by (rule loggers_nonempty [OF assms(1)])
    then show ?thesis
      using settled_at_end [OF assms run _ refl] unfolding settled_def all_set_conv_all_nth by blast
  qed
  then show ?thesis using settling.work_bounded [OF ok] settling.work_ends [OF ok] by fastforce
qed

theorem server_settles_witness:
  "\<exists>n z'. (server_work sample_ops ^^ n) sample_sys z' \<and> n \<le> server_rank sample_sys \<and>
     (\<nexists>u. server_work sample_ops z' u) \<and> settled sample_json sample_platform sample_sys z' \<and>
     stream_of z' 0 = ''{}''"
proof -
  have f: "stream_of sample_sys 0 = ''{}''" by code_simp
  show ?thesis
    using server_settles [OF new_sample_server sample_sys_reachable sample_sys_sel(5) sample_ops_sinks_ok
        sample_sys_sel(4)] f
    unfolding settled_def by metis
qed

text \<open>C11. The destructor returns: once it has stopped the context, every way of going on ends within the
  rank of the state, there is one, and wherever one ends, every handler has finished, every
  thread is joined and every logger is destroyed; what each has written, followed by what was
  left in its queue, is what becomes of everything received before the context was stopped.\<close>

theorem server_shutdown_completes:
  assumes "new_server sys S opt = (None, v)" and "server_reachable J P ops (start_sys v w) z"
    and "\<not> aborted z" and "sinks_ok ops (wanted_sinks sys opt)" and "server_phase z \<noteq> Serving"
  shows "(\<forall>n z'. (server_work ops ^^ n) z z' \<longrightarrow> n \<le> server_rank z) \<and>
    (\<exists>n z'. (server_work ops ^^ n) z z' \<and> (\<nexists>u. server_work ops z' u)) \<and>
    (\<forall>n z'. (server_work ops ^^ n) z z' \<longrightarrow> (\<nexists>u. server_work ops z' u) \<longrightarrow> shut_down J P z z')"
proof -
  have ok: "server_ok J P ops sys S opt v w z" using assms by (simp add: server_ok_def)
  have "shut_down J P z z'" if run: "(server_work ops ^^ n) z z'" "\<nexists>u. server_work ops z' u" for n z'
  proof -
    have "server_reachable J P ops (start_sys v w) z'"
      using server_work_run [OF assms(1,4) run(1) assms(2,3)] by simp
    then have "0 < length (m_loggers (server z'))" by (rule loggers_nonempty [OF assms(1)])
    then show ?thesis
      using shut_down_at_end [OF assms run _ refl] unfolding shut_down_def all_set_conv_all_nth by blast
  qed
  then show ?thesis using settling.work_bounded [OF ok] settling.work_ends [OF ok] by fastforce
qed

theorem server_shutdown_completes_witness:
  "\<exists>n z'. (server_work sample_ops ^^ n) sample_stopped z' \<and> n \<le> server_rank sample_stopped \<and>
     (\<nexists>u. server_work sample_ops z' u) \<and> shut_down sample_json sample_platform sample_stopped z'"
proof -
  have s: "\<not> aborted sample_stopped" "server_phase sample_stopped \<noteq> Serving"
    using sample_sys_sel(5) by (simp_all add: sample_stopped_def)
  show ?thesis
    using server_shutdown_completes [OF new_sample_server sample_stopped_reachable s(1) sample_ops_sinks_ok
        s(2)]
    by metis
qed

end
