(* ===== verification/Cxx_Stream.thy ===== *)
theory Cxx_Stream
  imports Cxx_Double
begin

text \<open>
  The part of the stream library that \<^verbatim>\<open>src/src/popl.hpp\<close> uses: an input stream over a string
  with its state flags, \<^verbatim>\<open>peek\<close>, and \<^verbatim>\<open>operator>>\<close> for the arithmetic types; the insertion of
  values into an output stream. As in the implementations in use, a minus sign before an
  unsigned number negates the value modulo the size of the type.
\<close>

section \<open>Input streams\<close>

record istream =
  unread :: string
  eofbit :: bool
  failbit :: bool

definition istringstream :: "string \<Rightarrow> istream" where
  "istringstream s = \<lparr>unread = s, eofbit = False, failbit = False\<rparr>"

definition good :: "istream \<Rightarrow> bool" where
  "good i \<longleftrightarrow> \<not> eofbit i \<and> \<not> failbit i"

definition peek :: "istream \<Rightarrow> char option \<times> istream" where
  "peek i = (if \<not> good i then (None, i\<lparr>failbit := True\<rparr>)
     else case unread i of [] \<Rightarrow> (None, i\<lparr>eofbit := True\<rparr>) | c # cs \<Rightarrow> (Some c, i))"

text \<open>
  \<open>extraction f i\<close>: \<^verbatim>\<open>operator>>\<close> that skips white space and then applies \<open>f\<close>, which returns the
  value, whether the extraction fails, and the characters left. No value is stored when there
  is nothing but white space.
\<close>

definition extraction :: "(string \<Rightarrow> 'v \<times> bool \<times> string) \<Rightarrow> istream \<Rightarrow> 'v option \<times> istream" where
  "extraction f i =
     (if \<not> good i then (None, i\<lparr>failbit := True\<rparr>)
      else case dropWhile isspace (unread i) of
             [] \<Rightarrow> (None, \<lparr>unread = [], eofbit = True, failbit = True\<rparr>)
           | c # cs \<Rightarrow> (let (v, fails, r) = f (c # cs)
               in (Some v, \<lparr>unread = r, eofbit = (r = []), failbit = fails\<rparr>)))"

section \<open>Numbers\<close>

text \<open>
  Integers: an optional sign and digits. Without a digit the value is 0, out of range it is
  the nearest bound; both fail. \<open>lo\<close> is 0 for an unsigned type.
\<close>

definition stream_int :: "int \<Rightarrow> int \<Rightarrow> string \<Rightarrow> int \<times> bool \<times> string" where
  "stream_int lo hi s =
     (let (neg, r) = split_sign s; ds = takeWhile isdigit r; rest = dropWhile isdigit r;
          n = dec_val ds
      in if ds = [] then (0, True, rest)
         else if neg \<and> lo < 0 then
           (if n \<le> - lo then (- n, False, rest) else (lo, True, rest))
         else if n \<le> hi then ((if neg then (- n) mod (hi + 1) else n), False, rest)
         else (hi, True, rest))"

text \<open>
  Floating-point numbers: the characters of a decimal constant are collected, an exponent
  letter only after a digit; the conversion fails unless it uses all of them, and when the
  value is too large.
\<close>

definition DBL_MAX :: double where
  "DBL_MAX = Fin (2 ^ 53 - 1) 971"

definition stream_real :: "bool \<Rightarrow> string \<Rightarrow> int \<Rightarrow> string \<Rightarrow> double \<times> bool \<times> string" where
  "stream_real neg ds ex rest =
     (case fst (decimal_round neg (dec_val ds) ex) of
        Inf n \<Rightarrow> ((if n then Fin (1 - 2 ^ 53) 971 else DBL_MAX), True, rest)
      | x \<Rightarrow> (x, False, rest))"

definition stream_double :: "string \<Rightarrow> double \<times> bool \<times> string" where
  "stream_double s =
     (let (neg, r) = split_sign s; ip = takeWhile isdigit r;
          (fp, r2) = frac_part isdigit (dropWhile isdigit r)
      in if ip = [] \<and> fp = [] then (Fin 0 0, True, r2)
         else if r2 \<noteq> [] \<and> tolower (hd r2) = CHR ''e'' then
           (let (eneg, r3) = split_sign (tl r2); ds = takeWhile isdigit r3; rest = dropWhile isdigit r3
            in if ds = [] then (Fin 0 0, True, rest)
               else stream_real neg (ip @ fp) (signed_by eneg (dec_val ds) - int (length fp)) rest)
         else stream_real neg (ip @ fp) (- int (length fp)) r2)"

section \<open>Output\<close>

text \<open>
  A \<^verbatim>\<open>double\<close> with the default format: six significant digits, without trailing zeros, in
  scientific notation when the decimal exponent is less than -4 or at least 6.
\<close>

function dec_exp_up :: "int \<Rightarrow> int \<Rightarrow> int" where
  "dec_exp_up a d = (if 0 < d \<and> 10 * d \<le> a then 1 + dec_exp_up a (10 * d) else 0)"
  by pat_completeness auto
termination
  by (relation "measure (\<lambda>(a, d). nat (a - d))") auto

function dec_exp_down :: "int \<Rightarrow> int \<Rightarrow> int" where
  "dec_exp_down a d = (if 0 < a \<and> a < d then 1 + dec_exp_down (10 * a) d else 0)"
  by pat_completeness auto
termination
  by (relation "measure (\<lambda>(a, d). nat (d - a))") auto

declare dec_exp_up.simps [simp del] dec_exp_down.simps [simp del]

text \<open>The decimal exponent of \<open>a / d\<close>, and its first six digits as an integer, rounded.\<close>

definition dec_exp :: "int \<Rightarrow> int \<Rightarrow> int" where
  "dec_exp a d = (if d \<le> a then dec_exp_up a d else - dec_exp_down a d)"

definition six_digits :: "int \<Rightarrow> int \<Rightarrow> int \<times> int" where
  "six_digits a d =
     (let x = dec_exp a d;
          n = (if x \<le> 5 then div_even (a * 10 ^ nat (5 - x)) d else div_even a (d * 10 ^ nat (x - 5)))
      in if n = 1000000 then (100000, x + 1) else (n, x))"

definition strip_zeros :: "string \<Rightarrow> string" where
  "strip_zeros ds = rev (dropWhile (\<lambda>c. c = CHR ''0'') (rev ds))"

definition show_exp :: "int \<Rightarrow> string" where
  "show_exp x = (if x < 0 then ''e-'' else ''e+'') @ (if \<bar>x\<bar> < 10 then ''0'' else []) @ show_dec \<bar>x\<bar>"

definition with_fraction :: "string \<Rightarrow> string \<Rightarrow> string" where
  "with_fraction ip fp = (let f = strip_zeros fp in if f = [] then ip else ip @ ''.'' @ f)"

fun show_double :: "double \<Rightarrow> string" where
  "show_double (Fin m e) =
     (if m = 0 then ''0''
      else let (n, x) = six_digits (scale_num \<bar>m\<bar> (- e)) (scale_den 1 (- e)); ds = show_dec n
           in (if m < 0 then ''-'' else []) @
              (if x < - 4 \<or> 6 \<le> x then with_fraction (take 1 ds) (drop 1 ds) @ show_exp x
               else if x < 0 then with_fraction ''0'' (replicate (nat (- x - 1)) (CHR ''0'') @ ds)
               else with_fraction (take (nat x + 1) ds) (drop (nat x + 1) ds)))"
| "show_double (Inf neg) = (if neg then ''-inf'' else ''inf'')"
| "show_double NaN = ''nan''"

section \<open>What extraction reads back\<close>

lemma dropWhile_length_lt: "takeWhile p xs \<noteq> [] \<Longrightarrow> length (dropWhile p xs) < length xs"
  by (induction xs) (auto simp: less_Suc_eq_le length_dropWhile_le split: if_splits)

lemma split_sign_length: "split_sign s = (neg, r) \<Longrightarrow> length r \<le> length s"
  by (auto simp: split_sign_def split: list.splits if_splits)

lemma frac_part_length: "frac_part p s = (fp, r) \<Longrightarrow> length r \<le> length s"
  by (auto simp: frac_part_def intro: le_SucI length_dropWhile_le split: list.splits if_splits)

lemma frac_part_length_lt: "frac_part p s = (fp, r) \<Longrightarrow> fp \<noteq> [] \<Longrightarrow> length r < length s"
  by (auto simp: frac_part_def less_Suc_eq_le length_dropWhile_le split: list.splits if_splits)

text \<open>An extraction that does not fail uses up a character.\<close>

lemma stream_int_shorter:
  assumes "stream_int lo hi s = (v, False, rest)"
  shows "length rest < length s"
proof -
  obtain neg r where s: "split_sign s = (neg, r)" by (cases "split_sign s")
  have "takeWhile isdigit r \<noteq> []" "rest = dropWhile isdigit r"
    using assms s by (auto simp: stream_int_def Let_def split: if_splits)
  then show ?thesis using dropWhile_length_lt split_sign_length [OF s] by fastforce
qed

lemma stream_real_rest: "stream_real neg ds ex rest = (v, f, rest') \<Longrightarrow> rest' = rest"
  by (auto simp: stream_real_def split: double.splits)

lemma stream_double_shorter:
  assumes "stream_double s = (v, False, rest)"
  shows "length rest < length s"
proof -
  obtain neg r where s: "split_sign s = (neg, r)" by (cases "split_sign s")
  obtain fp r2 where f: "frac_part isdigit (dropWhile isdigit r) = (fp, r2)"
    by (cases "frac_part isdigit (dropWhile isdigit r)")
  obtain eneg r3 where e: "split_sign (tl r2) = (eneg, r3)" by (cases "split_sign (tl r2)")
  have some: "takeWhile isdigit r \<noteq> [] \<or> fp \<noteq> []"
    using assms s f by (auto simp: stream_double_def)
  have r2: "length r2 < length r"
  proof (cases "fp = []")
    case True
    then have "length (dropWhile isdigit r) < length r" using some dropWhile_length_lt by blast
    then show ?thesis using frac_part_length [OF f] by linarith
  next
    case False
    then show ?thesis using frac_part_length_lt [OF f] length_dropWhile_le [of isdigit r] by linarith
  qed
  have "length rest \<le> length r2"
    using assms s f e some split_sign_length [OF e] length_dropWhile_le [of isdigit r3]
    by (auto simp: stream_double_def Let_def split: if_splits dest!: stream_real_rest)
  then show ?thesis using r2 split_sign_length [OF s] by linarith
qed

text \<open>A number in range is read back from its decimal digits.\<close>

lemma split_sign_show_dec:
  assumes "0 \<le> n"
  shows "split_sign (show_dec n @ rest) = (False, show_dec n @ rest)"
proof -
  obtain c cs where c: "show_dec n = c # cs" using show_dec_nonempty by (metis neq_Nil_conv)
  then have "isdigit c" using show_dec_digits [OF assms, of c] by simp
  then have "c \<noteq> CHR ''-''" "c \<noteq> CHR ''+''" by (auto simp: isdigit_def code_def)
  then show ?thesis by (simp add: split_sign_def c)
qed

lemma takeWhile_show_dec:
  assumes "0 \<le> n"
  shows "takeWhile isdigit (show_dec n) = show_dec n" "dropWhile isdigit (show_dec n) = []"
  using show_dec_digits [OF assms] by (simp_all add: takeWhile_eq_all_conv)

lemma stream_int_show_int:
  assumes "lo \<le> n" and "n \<le> hi"
  shows "stream_int lo hi (show_int n) = (n, False, [])"
proof (cases "n < 0")
  case True
  then have "split_sign (show_int n) = (True, show_dec (- n))"
    by (simp add: show_int_def split_sign_def)
  then show ?thesis
    using True assms
    by (simp add: stream_int_def dec_val_show_dec takeWhile_show_dec show_dec_nonempty Let_def)
next
  case False
  then have "split_sign (show_int n) = (False, show_dec n)"
    using split_sign_show_dec [of n "[]"] by (simp add: show_int_def)
  then show ?thesis
    using False assms
    by (simp add: stream_int_def dec_val_show_dec takeWhile_show_dec show_dec_nonempty Let_def)
qed

end
