(* ===== verification/Popl_Option.thy ===== *)
theory Popl_Option
  imports Cxx_Stream "HOL-Library.Word"
begin

text \<open>
  The options of \<^verbatim>\<open>src/src/popl.hpp\<close>: \<^verbatim>\<open>Option\<close>, \<^verbatim>\<open>Value<T>\<close>, \<^verbatim>\<open>Implicit<T>\<close> and
  \<^verbatim>\<open>Switch\<close>. The class of an option and its type \<^verbatim>\<open>T\<close> are fields. An option may hold a
  pointer to a variable of the program (\<open>assign_to\<close>); the variables live in a \<open>store\<close>, which
  the operations that write through the pointer take and return.
\<close>

section \<open>Options\<close>

datatype Argument = no_argument | required_argument | optional_argument

datatype Attribute = inactive | hidden | required | optional | advanced | expert

fun attribute_num :: "Attribute \<Rightarrow> int" where
  "attribute_num inactive = 0"
| "attribute_num hidden = 1"
| "attribute_num required = 2"
| "attribute_num optional = 3"
| "attribute_num advanced = 4"
| "attribute_num expert = 5"

lemma attribute_num_inject: "attribute_num a = attribute_num b \<longleftrightarrow> a = b"
  by (cases a; cases b) simp_all

instantiation Attribute :: linorder
begin

definition less_eq_Attribute :: "Attribute \<Rightarrow> Attribute \<Rightarrow> bool" where
  "a \<le> b \<longleftrightarrow> attribute_num a \<le> attribute_num b"

definition less_Attribute :: "Attribute \<Rightarrow> Attribute \<Rightarrow> bool" where
  "a < b \<longleftrightarrow> attribute_num a < attribute_num b"

instance
  by standard (auto simp: less_eq_Attribute_def less_Attribute_def attribute_num_inject)

end

text \<open>The types the templates are used with, and their values.\<close>

datatype val_type = T_string | T_bool | T_uint16 | T_size | T_int | T_double

datatype val =
    V_string string
  | V_bool bool
  | V_uint16 "16 word"
  | V_size "64 word"
  | V_int int
  | V_double double

datatype option_class = Value | Implicit | Switch

type_synonym store = "string \<Rightarrow> val option"

record Option =
  opt_class :: option_class
  opt_type :: val_type
  opt_short :: string
  opt_long :: string
  opt_description :: string
  opt_attribute :: Attribute
  default_val :: "val option"
  assign_ref :: "string option"
  values_list :: "val list"

section \<open>Option\<close>

definition NUL :: char where
  "NUL = char_of (0::nat)"

definition apostrophe :: string where
  "apostrophe = [char_of (39::nat)]"

definition quotation :: string where
  "quotation = [char_of (34::nat)]"

text \<open>The constructor of the base class, for an option of a class and a type.\<close>

definition new_option ::
    "option_class \<Rightarrow> val_type \<Rightarrow> string \<Rightarrow> string \<Rightarrow> string \<Rightarrow> Option res" where
  "new_option cls ty sname lname descr =
     (if 1 < length sname then
        Inl (Raise (Invalid_argument
          (''length of short name must be <= 1: '' @ apostrophe @ sname @ apostrophe)))
      else if sname = [] \<and> lname = [] then
        Inl (Raise (Invalid_argument ''short and long name are empty''))
      else Inr \<lparr>opt_class = cls, opt_type = ty, opt_short = sname, opt_long = lname,
        opt_description = descr, opt_attribute = optional, default_val = None, assign_ref = None,
        values_list = []\<rparr>)"

definition option_short_name :: "Option \<Rightarrow> char" where
  "option_short_name opt = (if opt_short opt \<noteq> [] then opt_short opt ! 0 else NUL)"

definition option_name :: "Option \<Rightarrow> OptionName \<Rightarrow> bool \<Rightarrow> string" where
  "option_name opt what_name with_hyphen =
     (if what_name = short_name then
        (if opt_short opt = [] then [] else (if with_hyphen then ''-'' else []) @ opt_short opt)
      else if what_name = long_name then
        (if opt_long opt = [] then [] else (if with_hyphen then ''--'' else []) @ opt_long opt)
      else [])"

definition set_attribute :: "Option \<Rightarrow> Attribute \<Rightarrow> Option" where
  "set_attribute opt a = opt\<lparr>opt_attribute := a\<rparr>"

section \<open>Value\<close>

definition option_count :: "Option \<Rightarrow> nat" where
  "option_count opt = length (values_list opt)"

definition is_set :: "Option \<Rightarrow> bool" where
  "is_set opt \<longleftrightarrow> values_list opt \<noteq> []"

text \<open>Writes to the variable the option points to.\<close>

definition update_reference :: "Option \<Rightarrow> store \<Rightarrow> store" where
  "update_reference opt m = (case assign_ref opt of
       None \<Rightarrow> m
     | Some x \<Rightarrow>
         (if \<not> is_set opt \<and> default_val opt \<noteq> None then m(x := default_val opt)
          else if is_set opt then m(x := Some (last (values_list opt)))
          else m))"

definition assign_to :: "Option \<Rightarrow> store \<Rightarrow> string \<Rightarrow> Option \<times> store" where
  "assign_to opt m x = (let opt' = opt\<lparr>assign_ref := Some x\<rparr> in (opt', update_reference opt' m))"

definition add_value :: "Option \<Rightarrow> store \<Rightarrow> val \<Rightarrow> Option \<times> store" where
  "add_value opt m v =
     (let opt' = opt\<lparr>values_list := values_list opt @ [v]\<rparr> in (opt', update_reference opt' m))"

definition option_clear :: "Option \<Rightarrow> store \<Rightarrow> Option \<times> store" where
  "option_clear opt m = (let opt' = opt\<lparr>values_list := []\<rparr> in (opt', update_reference opt' m))"

definition set_value :: "Option \<Rightarrow> store \<Rightarrow> val \<Rightarrow> Option \<times> store" where
  "set_value opt m v = (let (opt', m') = option_clear opt m in add_value opt' m' v)"

definition set_default :: "Option \<Rightarrow> store \<Rightarrow> val \<Rightarrow> Option \<times> store" where
  "set_default opt m v =
     (let opt' = opt\<lparr>default_val := Some v\<rparr> in (opt', update_reference opt' m))"

definition has_default :: "Option \<Rightarrow> bool" where
  "has_default opt \<longleftrightarrow> default_val opt \<noteq> None"

definition get_default :: "Option \<Rightarrow> val res" where
  "get_default opt = (case default_val opt of
       None \<Rightarrow> Inl (Raise (Runtime_error ''no default value set''))
     | Some v \<Rightarrow> Inr v)"

definition value_or :: "Option \<Rightarrow> val \<Rightarrow> nat \<Rightarrow> val" where
  "value_or opt v idx =
     (if idx < option_count opt then values_list opt ! idx
      else case default_val opt of Some d \<Rightarrow> d | None \<Rightarrow> v)"

definition option_value :: "Option \<Rightarrow> nat \<Rightarrow> val res" where
  "option_value opt idx =
     (if \<not> is_set opt \<and> default_val opt \<noteq> None then get_default opt
      else if \<not> is_set opt \<or> option_count opt \<le> idx then
        Inl (Raise (Out_of_range
          ((if \<not> is_set opt then ''option not set: '' @ quotation
            else ''index out of range ('' @ show_dec (int idx) @ '') for '' @ quotation) @
           (if option_short_name opt \<noteq> NUL then ''-'' @ [option_short_name opt]
            else ''--'' @ opt_long opt) @ quotation)))
      else Inr (values_list opt ! idx))"

text \<open>A value inserted into an output stream.\<close>

fun show_val :: "val \<Rightarrow> string" where
  "show_val (V_string s) = s"
| "show_val (V_bool b) = (if b then ''1'' else ''0'')"
| "show_val (V_uint16 w) = show_dec (uint w)"
| "show_val (V_size w) = show_dec (uint w)"
| "show_val (V_int i) = show_int i"
| "show_val (V_double x) = show_double x"

text \<open>\<^verbatim>\<open>get_default(std::ostream&)\<close>: what is written, if there is a default.\<close>

definition print_default :: "Option \<Rightarrow> string option" where
  "print_default opt = map_option show_val (default_val opt)"

definition argument_type :: "Option \<Rightarrow> Argument" where
  "argument_type opt = (case opt_class opt of
       Value \<Rightarrow> required_argument | Implicit \<Rightarrow> optional_argument | Switch \<Rightarrow> no_argument)"

text \<open>
  The constructors of \<^verbatim>\<open>Value\<close> without and with a default, of \<^verbatim>\<open>Implicit\<close> and of \<^verbatim>\<open>Switch\<close>.
\<close>

definition new_plain_value ::
    "option_class \<Rightarrow> val_type \<Rightarrow> string \<Rightarrow> string \<Rightarrow> string \<Rightarrow> Option res" where
  "new_plain_value cls ty sname lname descr =
     res_bind (new_option cls ty sname lname descr) (\<lambda>opt. Inr (opt\<lparr>assign_ref := None\<rparr>))"

definition new_value ::
    "option_class \<Rightarrow> val_type \<Rightarrow> string \<Rightarrow> string \<Rightarrow> string \<Rightarrow> val \<Rightarrow> string option \<Rightarrow> store \<Rightarrow>
     (Option \<times> store) res" where
  "new_value cls ty sname lname descr default_v x m =
     res_bind (new_plain_value cls ty sname lname descr)
       (\<lambda>opt. Inr (set_default (opt\<lparr>assign_ref := x\<rparr>) m default_v))"

definition new_implicit ::
    "val_type \<Rightarrow> string \<Rightarrow> string \<Rightarrow> string \<Rightarrow> val \<Rightarrow> string option \<Rightarrow> store \<Rightarrow> (Option \<times> store) res" where
  "new_implicit ty sname lname descr implicit x m = new_value Implicit ty sname lname descr implicit x m"

definition new_switch ::
    "string \<Rightarrow> string \<Rightarrow> string \<Rightarrow> string option \<Rightarrow> store \<Rightarrow> (Option \<times> store) res" where
  "new_switch sname lname descr x m = new_value Switch T_bool sname lname descr (V_bool False) x m"

section \<open>Parsing a value\<close>

text \<open>\<^verbatim>\<open>operator>>\<close> for the type of an option.\<close>

definition read_val :: "val_type \<Rightarrow> string \<Rightarrow> val \<times> bool \<times> string" where
  "read_val ty s = (case ty of
       T_uint16 \<Rightarrow> (let (n, f, r) = stream_int 0 (2 ^ 16 - 1) s in (V_uint16 (of_int n), f, r))
     | T_size \<Rightarrow> (let (n, f, r) = stream_int 0 (2 ^ 64 - 1) s in (V_size (of_int n), f, r))
     | T_double \<Rightarrow> (let (x, f, r) = stream_double s in (V_double x, f, r))
     | _ \<Rightarrow> (let (n, f, r) = stream_int INT_MIN INT_MAX s in (V_int n, f, r)))"

lemma read_val_shorter:
  assumes "read_val ty s = (v, False, r)"
  shows "length r < length s"
  using assms
  by (cases ty) (auto simp: read_val_def dest!: stream_int_shorter stream_double_shorter split: prod.splits)

text \<open>The loop that reads values until the stream is at its end or fails.\<close>

lemma extraction_shorter:
  assumes "extraction (read_val ty) i = (v, j)" and "good j"
  shows "length (unread j) < length (unread i)"
proof -
  obtain c cs where s: "dropWhile isspace (unread i) = c # cs"
    using assms
    by (cases "dropWhile isspace (unread i)")
      (auto simp: extraction_def good_def simp del: dropWhile_eq_Nil_conv split: if_splits)
  obtain x f r where x: "read_val ty (c # cs) = (x, f, r)" by (cases "read_val ty (c # cs)")
  have "f = False" "unread j = r"
    using assms s x
    by (auto simp: extraction_def good_def simp del: dropWhile_eq_Cons_conv split: if_splits)
  then have "length (unread j) < length (c # cs)" using read_val_shorter x by blast
  then show ?thesis using length_dropWhile_le [of isspace "unread i"] by (simp add: s)
qed

function read_loop :: "val_type \<Rightarrow> istream \<Rightarrow> val option \<Rightarrow> nat \<Rightarrow> istream \<times> val option \<times> nat" where
  "read_loop ty i v n =
     (if \<not> good i then (i, v, n)
      else case peek i of
             (None, i') \<Rightarrow> (i', v, n)
           | (Some c, i') \<Rightarrow>
               (case extraction (read_val ty) i' of
                  (x, j) \<Rightarrow>
                    (if good j then read_loop ty j (if x = None then v else x) (Suc n)
                     else (j, (if x = None then v else x), Suc n))))"
  by pat_completeness auto
termination
  by (relation "measure (\<lambda>(ty, i, v, n). length (unread i))")
    (auto simp: peek_def dest!: extraction_shorter [OF sym] split: if_splits list.splits)

declare read_loop.simps [simp del]

definition invalid ::
    "Option \<Rightarrow> invalid_option_error \<Rightarrow> OptionName \<Rightarrow> string \<Rightarrow> string \<Rightarrow> failure" where
  "invalid opt error what_name v txt =
     Raise (Invalid_option (opt_short opt, opt_long opt) error what_name v txt)"

text \<open>\<^verbatim>\<open>Value<T>::parse\<close>: for strings, for \<^verbatim>\<open>bool\<close>, and for every other type.\<close>

definition parse_string :: "Option \<Rightarrow> OptionName \<Rightarrow> string \<Rightarrow> val res" where
  "parse_string opt what_name s =
     (if s = [] then
        Inl (invalid opt missing_argument what_name s
          (''missing argument for '' @ option_name opt what_name True))
      else Inr (V_string s))"

definition parse_bool :: "string \<Rightarrow> val res" where
  "parse_bool s = Inr (V_bool (s \<in> {''1'', ''true'', ''True'', ''TRUE''}))"

definition parse_number :: "Option \<Rightarrow> OptionName \<Rightarrow> string \<Rightarrow> val res" where
  "parse_number opt what_name s =
     (case read_loop (opt_type opt) (istringstream s) None 0 of
        (i, v, values_read) \<Rightarrow>
          (if failbit i then
             Inl (invalid opt invalid_argument what_name s
               (''invalid argument for '' @ option_name opt what_name True @ '': '' @ apostrophe @ s
                 @ apostrophe))
           else if 1 < values_read then
             Inl (invalid opt too_many_arguments what_name s
               (''too many arguments for '' @ option_name opt what_name True @ '': '' @ apostrophe @ s
                 @ apostrophe))
           else if s = [] then
             Inl (invalid opt missing_argument what_name []
               (''missing argument for '' @ option_name opt what_name True))
           else Inr (the v)))"

definition parse_value :: "Option \<Rightarrow> OptionName \<Rightarrow> string \<Rightarrow> val res" where
  "parse_value opt what_name s = (case opt_type opt of
       T_string \<Rightarrow> parse_string opt what_name s
     | T_bool \<Rightarrow> parse_bool s
     | _ \<Rightarrow> parse_number opt what_name s)"

text \<open>
  \<^verbatim>\<open>Option::parse\<close>, virtual: the value that the class of the option adds. The pointer to the
  default is not checked; the constructor of \<^verbatim>\<open>Implicit\<close> sets it.
\<close>

definition option_parse ::
    "Option \<Rightarrow> store \<Rightarrow> OptionName \<Rightarrow> string \<Rightarrow> (Option \<times> store) res" where
  "option_parse opt m what_name s = (case opt_class opt of
       Switch \<Rightarrow> Inr (add_value opt m (V_bool True))
     | Implicit \<Rightarrow>
         (if s \<noteq> [] then res_bind (parse_value opt what_name s) (\<lambda>v. Inr (add_value opt m v))
          else (case default_val opt of
                  None \<Rightarrow> Inl (Undef Null_dereference)
                | Some v \<Rightarrow> Inr (add_value opt m v)))
     | Value \<Rightarrow> res_bind (parse_value opt what_name s) (\<lambda>v. Inr (add_value opt m v)))"

section \<open>What parsing adds\<close>

lemma option_parse_adds:
  "option_parse opt m what_name s = Inr (opt', m') \<Longrightarrow> \<exists>v. add_value opt m v = (opt', m')"
  by (auto simp: option_parse_def res_bind_Inr split: option_class.splits if_splits option.splits)

lemma add_value_sel [simp]:
  "fst (add_value opt m v) = opt\<lparr>values_list := values_list opt @ [v]\<rparr>"
  "snd (add_value opt m v) =
     (case assign_ref opt of None \<Rightarrow> m | Some x \<Rightarrow> m(x := Some v))"
  by (auto simp: add_value_def update_reference_def is_set_def Let_def split: option.splits)

lemma option_clear_sel [simp]:
  "fst (option_clear opt m) = opt\<lparr>values_list := []\<rparr>"
  "snd (option_clear opt m) =
     (case assign_ref opt of None \<Rightarrow> m
      | Some x \<Rightarrow> if default_val opt \<noteq> None then m(x := default_val opt) else m)"
  by (auto simp: option_clear_def update_reference_def is_set_def Let_def split: option.splits)

text \<open>
  \<open>tracks opt m\<close>: the variable that \<open>opt\<close> points to holds its last value, or else its default.
\<close>

definition current_val :: "Option \<Rightarrow> val option" where
  "current_val opt = (if is_set opt then Some (last (values_list opt)) else default_val opt)"

definition tracks :: "Option \<Rightarrow> store \<Rightarrow> bool" where
  "tracks opt m \<longleftrightarrow> (\<forall>x. assign_ref opt = Some x \<longrightarrow> m x = current_val opt)"

section \<open>Numbers and texts are read back\<close>

fun has_type :: "val_type \<Rightarrow> val \<Rightarrow> bool" where
  "has_type T_string (V_string s) = (s \<noteq> [])"
| "has_type T_bool (V_bool b) = True"
| "has_type T_uint16 (V_uint16 w) = True"
| "has_type T_size (V_size w) = True"
| "has_type T_int (V_int i) = (INT_MIN \<le> i \<and> i \<le> INT_MAX)"
| "has_type _ _ = False"

lemma show_int_nonempty: "show_int n \<noteq> []"
  by (simp add: show_int_def show_dec_nonempty)

lemma show_int_no_space:
  assumes "c \<in> set (show_int n)"
  shows "\<not> isspace c"
proof -
  have "isdigit d \<Longrightarrow> \<not> isspace d" for d by (auto simp: isdigit_def isspace_def)
  moreover have "\<not> isspace (CHR ''-'')" by (simp add: isspace_def code_def)
  ultimately show ?thesis
    using assms show_dec_digits [of n c] show_dec_digits [of "- n" c]
    by (cases "n < 0") (auto simp: show_int_def)
qed

lemma dropWhile_show_int: "dropWhile isspace (show_int n) = show_int n"
  using show_int_no_space [of "hd (show_int n)" n] show_int_nonempty [of n]
  by (cases "show_int n") auto

text \<open>A stream that one extraction uses up is read once.\<close>

lemma read_loop_once:
  assumes "read_val ty (show_int n) = (v, False, [])"
  shows "read_loop ty (istringstream (show_int n)) None 0 =
    (\<lparr>unread = [], eofbit = True, failbit = False\<rparr>, Some v, 1)"
proof -
  obtain c cs where s: "show_int n = c # cs" using show_int_nonempty by (metis neq_Nil_conv)
  have drop: "dropWhile isspace (c # cs) = c # cs" using dropWhile_show_int [of n] unfolding s .
  have "extraction (read_val ty) (istringstream (c # cs)) =
      (Some v, \<lparr>unread = [], eofbit = True, failbit = False\<rparr>)"
    using assms drop unfolding s by (simp add: extraction_def istringstream_def good_def)
  moreover have "peek (istringstream (c # cs)) = (Some c, istringstream (c # cs))"
    "good (istringstream (c # cs))"
    by (simp_all add: peek_def good_def istringstream_def)
  moreover have "\<not> good \<lparr>unread = [], eofbit = True, failbit = False\<rparr>" by (simp add: good_def)
  ultimately show ?thesis
    unfolding s by (simp add: read_loop.simps [of ty "istringstream (c # cs)"])
qed

lemma parse_number_reads:
  assumes "read_val (opt_type opt) (show_int n) = (v, False, [])"
  shows "parse_number opt what_name (show_int n) = Inr v"
  using read_loop_once [OF assms] show_int_nonempty [of n] by (simp add: parse_number_def)

lemma show_int_uint: "show_dec (uint w) = show_int (uint w)"
  by (simp add: show_int_def)

lemma parse_value_show_val:
  assumes "has_type (opt_type opt) v"
  shows "parse_value opt what_name (show_val v) = Inr v"
proof (cases v)
  case (V_uint16 w)
  then have "read_val T_uint16 (show_int (uint w)) = (v, False, [])"
    using uint_range_size [of w]
    by (simp add: read_val_def stream_int_show_int word_size)
  then show ?thesis
    using assms V_uint16 parse_number_reads [of opt "uint w" v what_name]
    by (cases "opt_type opt") (auto simp: parse_value_def show_int_uint)
next
  case (V_size w)
  then have "read_val T_size (show_int (uint w)) = (v, False, [])"
    using uint_range_size [of w]
    by (simp add: read_val_def stream_int_show_int word_size)
  then show ?thesis
    using assms V_size parse_number_reads [of opt "uint w" v what_name]
    by (cases "opt_type opt") (auto simp: parse_value_def show_int_uint)
next
  case (V_int i)
  then have i: "opt_type opt = T_int" "INT_MIN \<le> i" "i \<le> INT_MAX"
    using assms by (cases "opt_type opt"; simp)+
  then have "read_val T_int (show_int i) = (v, False, [])"
    using V_int by (simp add: read_val_def stream_int_show_int)
  then show ?thesis using i V_int parse_number_reads [of opt i v what_name] by (simp add: parse_value_def)
qed (use assms in \<open>cases "opt_type opt"; auto simp: parse_value_def parse_string_def parse_bool_def\<close>)+

section \<open>Properties\<close>

text \<open>What an option prints as its value, parsed by an option of that type, gives the value back:
  every non-empty text, every \<^verbatim>\<open>bool\<close>, and every number of the integer types in their full
  range.\<close>

theorem option_value_roundtrip:
  assumes "has_type (opt_type opt) v"
  shows "parse_value opt what_name (show_val v) = Inr v"
  using assms by (rule parse_value_show_val)

theorem option_value_roundtrip_witness:
  "\<exists>opt. opt_type opt = T_int \<and>
     parse_value opt long_name (show_val (V_int (- 2147483648))) = Inr (V_int (- 2147483648))"
proof -
  obtain opt where opt: "new_option Value T_int [] ''filelog_level'' [] = Inr opt"
    by (simp add: new_option_def)
  then have ty: "opt_type opt = T_int" by (auto simp: new_option_def)
  then have "has_type (opt_type opt) (V_int (- 2147483648))"
    by (simp add: INT_MIN_def INT_MAX_def)
  then show ?thesis using ty option_value_roundtrip by blast
qed

text \<open>An unsigned option accepts a negative number whose magnitude fits its type, and takes it
  modulo the size of the type: \<open>-1\<close> is the largest value.\<close>

theorem negative_unsigned_wraps:
  assumes "opt_type opt = T_size" and "0 < n" and "n < 2 ^ 64"
  shows "parse_value opt what_name (show_int (- n)) = Inr (V_size (of_int (- n)))"
proof -
  have split: "split_sign (show_int (- n)) = (True, show_dec n)"
    using assms(2) by (simp add: show_int_def split_sign_def)
  have word: "word_of_int ((- n) mod 18446744073709551616) = (word_of_int (- n) :: 64 word)"
    using wi_bintr [where 'a = 64, of 64 "- n"] by (simp add: take_bit_eq_mod)
  have "read_val T_size (show_int (- n)) = (V_size (of_int (- n)), False, [])"
    using assms(2,3) takeWhile_show_dec [of n]
    by (simp add: read_val_def stream_int_def split dec_val_show_dec show_dec_nonempty Let_def word
        takeWhile_show_dec)
  then show ?thesis
    using assms(1) parse_number_reads [of opt "- n" _ what_name] by (simp add: parse_value_def)
qed

theorem negative_unsigned_wraps_witness:
  "\<exists>opt. opt_type opt = T_size \<and>
     parse_value opt long_name (show_int (- 1)) = Inr (V_size 18446744073709551615)"
proof -
  obtain opt where opt: "new_option Value T_size [] ''threads'' [] = Inr opt"
    by (simp add: new_option_def)
  then have ty: "opt_type opt = T_size" by (auto simp: new_option_def)
  show ?thesis using ty negative_unsigned_wraps [OF ty, of 1 long_name] by auto
qed


end
