(* ===== verification/Popl_Parser.thy ===== *)
theory Popl_Parser
  imports Popl_Option
begin

text \<open>
  \<^verbatim>\<open>OptionParser\<close> of \<^verbatim>\<open>src/src/popl.hpp\<close>: the table of options, the parsing of the command
  line and of an ini file, and \<^verbatim>\<open>reset\<close>. Options are shared pointers in the source; here
  \<open>find_option\<close> returns a position in the table. A failure leaves the parser and the variables
  as they are at that point, so that an operation returns the failure, if any, with both.
\<close>

section \<open>The table of options\<close>

record OptionParser =
  parser_description :: string
  options :: "Option list"
  non_option_args :: "string list"
  unknown_options :: "string list"

type_synonym parse_result = "failure option \<times> OptionParser \<times> store"

definition new_parser :: "string \<Rightarrow> OptionParser" where
  "new_parser descr =
     \<lparr>parser_description = descr, options = [], non_option_args = [], unknown_options = []\<rparr>"

fun duplicate :: "Option \<Rightarrow> Option list \<Rightarrow> failure option" where
  "duplicate opt [] = None"
| "duplicate opt (x # xs) =
     (if option_short_name opt \<noteq> NUL \<and> option_short_name opt = option_short_name x then
        Some (Raise (Invalid_argument (''duplicate short option name '' @ apostrophe @ ''-'' @
          [option_short_name opt] @ apostrophe)))
      else if opt_long opt \<noteq> [] \<and> opt_long opt = opt_long x then
        Some (Raise (Invalid_argument (''duplicate long option name '' @ apostrophe @ ''--'' @
          opt_long opt @ apostrophe)))
      else duplicate opt xs)"

text \<open>\<^verbatim>\<open>add\<close>, given the attribute and what the constructor of the option returns.\<close>

definition add_option ::
    "Attribute \<Rightarrow> (store \<Rightarrow> (Option \<times> store) res) \<Rightarrow> OptionParser \<Rightarrow> store \<Rightarrow> parse_result" where
  "add_option attr mk p m = (case mk m of
       Inl f \<Rightarrow> (Some f, p, m)
     | Inr (opt, m') \<Rightarrow>
         (case duplicate opt (options p) of
            Some f \<Rightarrow> (Some f, p, m')
          | None \<Rightarrow> (None, p\<lparr>options := options p @ [set_attribute opt attr]\<rparr>, m')))"

fun find_index :: "('a \<Rightarrow> bool) \<Rightarrow> 'a list \<Rightarrow> nat option" where
  "find_index q [] = None"
| "find_index q (x # xs) = (if q x then Some 0 else map_option Suc (find_index q xs))"

definition find_long :: "OptionParser \<Rightarrow> string \<Rightarrow> nat option" where
  "find_long p name = find_index (\<lambda>opt. opt_long opt = name) (options p)"

definition find_short :: "OptionParser \<Rightarrow> char \<Rightarrow> nat option" where
  "find_short p c = find_index (\<lambda>opt. option_short_name opt = c) (options p)"

text \<open>\<^verbatim>\<open>get_option<T>\<close>: the conversion succeeds to the class itself and to its base \<^verbatim>\<open>Value<T>\<close>.\<close>

definition casts_to :: "option_class \<Rightarrow> val_type \<Rightarrow> Option \<Rightarrow> bool" where
  "casts_to cls ty opt \<longleftrightarrow> opt_type opt = ty \<and> (cls = Value \<or> opt_class opt = cls)"

definition get_option ::
    "option_class \<Rightarrow> val_type \<Rightarrow> OptionParser \<Rightarrow> nat option \<Rightarrow> string \<Rightarrow> nat res" where
  "get_option cls ty p found shown = (case found of
       None \<Rightarrow> Inl (Raise (Invalid_argument (''option not found: '' @ shown)))
     | Some k \<Rightarrow>
         (if casts_to cls ty (options p ! k) then Inr k
          else Inl (Raise (Invalid_argument (''cannot cast option to T: '' @ shown)))))"

definition get_option_long :: "option_class \<Rightarrow> val_type \<Rightarrow> OptionParser \<Rightarrow> string \<Rightarrow> nat res" where
  "get_option_long cls ty p name = get_option cls ty p (find_long p name) name"

definition get_option_short :: "option_class \<Rightarrow> val_type \<Rightarrow> OptionParser \<Rightarrow> char \<Rightarrow> nat res" where
  "get_option_short cls ty p c = get_option cls ty p (find_short p c) [c]"

text \<open>An inactive option is treated as if there were none.\<close>

definition active_option :: "OptionParser \<Rightarrow> nat option \<Rightarrow> nat option" where
  "active_option p found = (case found of
       Some k \<Rightarrow> if opt_attribute (options p ! k) = inactive then None else Some k
     | None \<Rightarrow> None)"

text \<open>\<^verbatim>\<open>option->parse\<close> for the option at a position.\<close>

definition parse_at ::
    "nat \<Rightarrow> OptionName \<Rightarrow> string \<Rightarrow> OptionParser \<Rightarrow> store \<Rightarrow> parse_result" where
  "parse_at k what_name s p m = (case option_parse (options p ! k) m what_name s of
       Inl f \<Rightarrow> (Some f, p, m)
     | Inr (opt, m') \<Rightarrow> (None, p\<lparr>options := (options p)[k := opt]\<rparr>, m'))"

definition add_unknown :: "string \<Rightarrow> OptionParser \<Rightarrow> OptionParser" where
  "add_unknown arg p = p\<lparr>unknown_options := unknown_options p @ [arg]\<rparr>"

section \<open>The command line\<close>

text \<open>
  The arguments after the current one are \<open>rest\<close>; \<open>next_argument\<close> is \<^verbatim>\<open>argv[++n]\<close> where there is
  a next argument.
\<close>

definition next_argument :: "string \<Rightarrow> string list \<Rightarrow> string \<times> string list" where
  "next_argument optarg rest =
     (if optarg = [] \<and> rest \<noteq> [] then (hd rest, tl rest) else (optarg, rest))"

definition split_equal :: "string \<Rightarrow> string \<times> string" where
  "split_equal s = (takeWhile (\<lambda>c. c \<noteq> CHR ''='') s, tl (dropWhile (\<lambda>c. c \<noteq> CHR ''='') s))"

definition parse_long ::
    "string \<Rightarrow> string list \<Rightarrow> OptionParser \<Rightarrow> store \<Rightarrow> parse_result \<times> string list" where
  "parse_long arg rest p m =
     (let (opt, optarg) = split_equal (drop 2 arg)
      in case active_option p (find_long p opt) of
           None \<Rightarrow> ((None, add_unknown arg p, m), rest)
         | Some k \<Rightarrow>
             (case argument_type (options p ! k) of
                no_argument \<Rightarrow>
                  (if optarg \<noteq> [] then ((None, add_unknown arg p, m), rest)
                   else (parse_at k long_name optarg p m, rest))
              | required_argument \<Rightarrow>
                  (let (optarg', rest') = next_argument optarg rest
                   in (parse_at k long_name optarg' p m, rest'))
              | optional_argument \<Rightarrow> (parse_at k long_name optarg p m, rest)))"

text \<open>The loop over the letters of a short argument, with the flag \<open>unknown\<close>.\<close>

fun parse_shorts ::
    "string \<Rightarrow> bool \<Rightarrow> string list \<Rightarrow> OptionParser \<Rightarrow> store \<Rightarrow>
     (parse_result \<times> bool) \<times> string list" where
  "parse_shorts [] unknown rest p m = (((None, p, m), unknown), rest)"
| "parse_shorts (c # cs) unknown rest p m =
     (case active_option p (find_short p c) of
        None \<Rightarrow> parse_shorts cs True rest p m
      | Some k \<Rightarrow>
          (case argument_type (options p ! k) of
             required_argument \<Rightarrow>
               (let (optarg, rest') = next_argument cs rest
                in ((parse_at k short_name optarg p m, unknown), rest'))
           | optional_argument \<Rightarrow> ((parse_at k short_name cs p m, unknown), rest)
           | no_argument \<Rightarrow>
               (case parse_at k short_name [] p m of
                  (Some f, p', m') \<Rightarrow> (((Some f, p', m'), unknown), rest)
                | (None, p', m') \<Rightarrow> parse_shorts cs unknown rest p' m')))"

definition parse_short ::
    "string \<Rightarrow> string list \<Rightarrow> OptionParser \<Rightarrow> store \<Rightarrow> parse_result \<times> string list" where
  "parse_short arg rest p m =
     (case parse_shorts (drop 1 arg) False rest p m of
        (((Some f, p', m'), unknown), rest') \<Rightarrow> ((Some f, p', m'), rest')
      | (((None, p', m'), unknown), rest') \<Rightarrow>
          ((None, (if unknown then add_unknown arg p' else p'), m'), rest'))"

definition starts_with :: "string \<Rightarrow> string \<Rightarrow> bool" where
  "starts_with pre s \<longleftrightarrow> take (length pre) s = pre"

text \<open>One argument: the result, and the arguments that are left for the loop.\<close>

definition parse_one ::
    "string \<Rightarrow> string list \<Rightarrow> OptionParser \<Rightarrow> store \<Rightarrow> parse_result \<times> string list" where
  "parse_one arg rest p m =
     (if arg = ''--'' then
        ((None, p\<lparr>non_option_args := non_option_args p @ rest\<rparr>, m), rest)
      else if starts_with ''--'' arg then parse_long arg rest p m
      else if starts_with ''-'' arg then parse_short arg rest p m
      else ((None, p\<lparr>non_option_args := non_option_args p @ [arg]\<rparr>, m), rest))"

lemma next_argument_shrinks: "next_argument s rest = (a, rest') \<Longrightarrow> length rest' \<le> length rest"
  by (auto simp: next_argument_def split: if_splits)

lemma parse_long_rest: "length (snd (parse_long arg rest p m)) \<le> length rest"
  by (auto simp: parse_long_def split: option.splits Argument.splits prod.splits
      dest: next_argument_shrinks)

lemma parse_shorts_rest: "length (snd (parse_shorts cs unknown rest p m)) \<le> length rest"
proof (induction cs unknown rest p m rule: parse_shorts.induct)
  case (2 c cs unknown rest p m)
  then show ?case
    by (auto split: option.splits Argument.splits prod.splits dest: next_argument_shrinks)
qed simp

lemma parse_one_rest: "length (snd (parse_one arg rest p m)) \<le> length rest"
  using parse_long_rest [of arg rest p m] parse_shorts_rest [of "drop 1 arg" False rest p m]
  by (auto simp: parse_one_def parse_short_def split: prod.splits option.splits)

lemma parse_one_shrinks: "parse_one arg rest p m = (r, rest') \<Longrightarrow> length rest' \<le> length rest"
  by (metis parse_one_rest snd_conv)

function parse_args :: "string list \<Rightarrow> OptionParser \<Rightarrow> store \<Rightarrow> parse_result" where
  "parse_args [] p m = (None, p, m)"
| "parse_args (arg # rest) p m =
     (case parse_one arg rest p m of
        ((Some f, p', m'), rest') \<Rightarrow> (Some f, p', m')
      | ((None, p', m'), rest') \<Rightarrow> parse_args rest' p' m')"
  by pat_completeness auto
termination
  by (relation "measure (\<lambda>(args, p, m). length args)")
    (auto simp: less_Suc_eq_le dest: parse_one_shrinks [OF sym])

declare parse_args.simps(2) [simp del]

text \<open>The check for required options, and \<^verbatim>\<open>parse(argc, argv)\<close>; \<open>argv\<close> starts with the program.\<close>

fun check_required :: "Option list \<Rightarrow> failure option" where
  "check_required [] = None"
| "check_required (opt # opts) =
     (if opt_attribute opt = required \<and> \<not> is_set opt then
        Some (invalid opt missing_option unspecified []
          (''option '' @ quotation @
           (if opt_long opt = [] then [option_short_name opt] else opt_long opt) @ quotation @
           '' is required''))
      else check_required opts)"

definition parse_argv :: "string list \<Rightarrow> OptionParser \<Rightarrow> store \<Rightarrow> parse_result" where
  "parse_argv argv p m =
     (case parse_args (tl argv) p m of
        (Some f, p', m') \<Rightarrow> (Some f, p', m')
      | (None, p', m') \<Rightarrow> (check_required (options p'), p', m'))"

section \<open>Ini files\<close>

lemma tl_dropWhile_shorter: "s \<noteq> [] \<Longrightarrow> length (dropWhile q s) - Suc 0 < length s"
  using length_dropWhile_le [of q s] by (cases s) (simp_all del: dropWhile.simps)

text \<open>The lines \<^verbatim>\<open>std::getline\<close> returns one after the other.\<close>

function getlines :: "string \<Rightarrow> string list" where
  "getlines s = (if s = [] then []
     else takeWhile (\<lambda>c. c \<noteq> newline) s # getlines (tl (dropWhile (\<lambda>c. c \<noteq> newline) s)))"
  by pat_completeness auto
termination
  by (relation "measure length") (auto intro: tl_dropWhile_shorter)

declare getlines.simps [simp del]

text \<open>
  \<^verbatim>\<open>std::isspace\<close> is given characters as they are. For those outside ASCII, which are negative
  where \<^verbatim>\<open>char\<close> is signed, the language defines no result; here they are no white space, as
  in the common libraries.
\<close>

definition trim :: "string \<Rightarrow> string" where
  "trim s = rev (dropWhile isspace (rev (dropWhile isspace s)))"

definition split_line :: "string \<Rightarrow> string \<times> string" where
  "split_line s =
     (if CHR ''='' \<in> set s then (let (k, v) = split_equal s in (trim k, trim v)) else ([], []))"

definition c_str :: "string \<Rightarrow> string" where
  "c_str s = takeWhile (\<lambda>c. c \<noteq> NUL) s"

fun parse_ini_lines :: "string list \<Rightarrow> string \<Rightarrow> OptionParser \<Rightarrow> store \<Rightarrow> parse_result" where
  "parse_ini_lines [] section p m = (None, p, m)"
| "parse_ini_lines (l # ls) section p m =
     (let line = trim l
      in if line = [] then parse_ini_lines ls section p m
         else if hd line = CHR ''#'' then parse_ini_lines ls section p m
         else if hd line = CHR ''['' \<and> last line = CHR '']'' then
           parse_ini_lines ls (trim (take (length line - 2) (drop 1 line))) p m
         else
           (let (k, v) = split_line line
            in if k = [] then parse_ini_lines ls section p m
               else
                 (let key = (if section = [] then k else section @ ''.'' @ k)
                  in case active_option p (find_long p key) of
                       None \<Rightarrow> parse_ini_lines ls section (add_unknown key p) m
                     | Some i \<Rightarrow>
                         (case parse_at i long_name (c_str v) p m of
                            (Some f, p', m') \<Rightarrow> (Some f, p', m')
                          | (None, p', m') \<Rightarrow> parse_ini_lines ls section p' m'))))"

text \<open>The content of the file; \<open>None\<close> if it cannot be opened.\<close>

definition parse_ini :: "string option \<Rightarrow> OptionParser \<Rightarrow> store \<Rightarrow> parse_result" where
  "parse_ini content p m = (case content of
       None \<Rightarrow> (None, p, m)
     | Some s \<Rightarrow> parse_ini_lines (getlines s) [] p m)"

section \<open>Reset\<close>

fun clear_all :: "Option list \<Rightarrow> store \<Rightarrow> Option list \<times> store" where
  "clear_all [] m = ([], m)"
| "clear_all (opt # opts) m =
     (let (opt', m') = option_clear opt m; (opts', m'') = clear_all opts m' in (opt' # opts', m''))"

definition parser_reset :: "OptionParser \<Rightarrow> store \<Rightarrow> OptionParser \<times> store" where
  "parser_reset p m =
     (let (opts, m') = clear_all (options p) m
      in (p\<lparr>options := opts, unknown_options := [], non_option_args := []\<rparr>, m'))"


section \<open>What parsing keeps\<close>

text \<open>
  A client that has a property of the parser and the variables, with the failure so far, which
  \<open>parse_at\<close>, the recording of arguments and the final check keep, has it after every operation
  that parses.
\<close>

locale kept_by_parse =
  fixes R :: "failure option \<Rightarrow> OptionParser \<Rightarrow> store \<Rightarrow> bool"
  assumes keeps_parse_at: "parse_at k nm s p m = (r, p', m') \<Longrightarrow> k < length (options p) \<Longrightarrow>
    R None p m \<Longrightarrow> R r p' m'"
    and keeps_unknown: "R None p m \<Longrightarrow> R None (add_unknown arg p) m"
    and keeps_non_option: "R None p m \<Longrightarrow> R None (p\<lparr>non_option_args := args\<rparr>) m"
    and keeps_required: "R None p m \<Longrightarrow> R (check_required (options p)) p m"

lemma find_index_length: "find_index q xs = Some k \<Longrightarrow> k < length xs \<and> q (xs ! k)"
  by (induction xs arbitrary: k) (auto split: if_splits)

lemma find_index_first:
  "k < length xs \<Longrightarrow> q (xs ! k) \<Longrightarrow> \<forall>j < k. \<not> q (xs ! j) \<Longrightarrow> find_index q xs = Some k"
proof (induction xs arbitrary: k)
  case (Cons x xs)
  show ?case
  proof (cases k)
    case (Suc j)
    then have "\<not> q x" "\<forall>i < j. \<not> q (xs ! i)" using Cons.prems(3) by auto
    then show ?thesis using Suc Cons by simp
  qed (use Cons.prems in simp)
qed simp

lemma find_index_None: "(\<forall>x \<in> set xs. \<not> q x) \<Longrightarrow> find_index q xs = None"
  by (induction xs) auto

lemma active_option_length:
  "active_option p (find_long p nm) = Some k \<Longrightarrow> k < length (options p)"
  "active_option p (find_short p c) = Some k \<Longrightarrow> k < length (options p)"
  by (auto simp: active_option_def find_long_def find_short_def dest: find_index_length
      split: option.splits if_splits)

lemma add_unknown_options [simp]: "options (add_unknown arg p) = options p"
  by (simp add: add_unknown_def)

context kept_by_parse begin

lemma keeps_parse_long:
  assumes "parse_long arg rest p m = ((r, p', m'), rest')" and "R None p m"
  shows "R r p' m'"
  using assms keeps_unknown [OF assms(2), of arg]
  by (auto simp: parse_long_def split: prod.splits option.splits Argument.splits if_splits
      dest: active_option_length keeps_parse_at)

lemma keeps_parse_shorts:
  "parse_shorts cs unknown rest p m = (((r, p', m'), u'), rest') \<Longrightarrow> R None p m \<Longrightarrow> R r p' m'"
proof (induction cs unknown rest p m rule: parse_shorts.induct)
  case (2 c cs unknown rest p m)
  show ?case
  proof (cases "active_option p (find_short p c)")
    case None
    then show ?thesis using 2 by simp
  next
    case (Some k)
    note k = active_option_length(2) [OF Some]
    show ?thesis
    proof (cases "argument_type (options p ! k)")
      case no_argument
      obtain r1 p1 m1 where one: "parse_at k short_name [] p m = (r1, p1, m1)"
        by (cases "parse_at k short_name [] p m")
      have q: "R r1 p1 m1" using keeps_parse_at [OF one k "2.prems"(2)] .
      show ?thesis
      proof (cases r1)
        case None
        then show ?thesis
          using "2.IH"(2) [OF \<open>active_option p (find_short p c) = Some k\<close> no_argument
              one [symmetric] None refl _ q [unfolded None]]
            "2.prems"(1) \<open>active_option p (find_short p c) = Some k\<close> no_argument one
          by simp
      next
        case (Some f)
        then show ?thesis
          using q "2.prems"(1) \<open>active_option p (find_short p c) = Some k\<close> no_argument one by simp
      qed
    qed (use 2 Some k in \<open>auto dest: keeps_parse_at split: prod.splits\<close>)
  qed
qed simp

lemma keeps_parse_short:
  assumes "parse_short arg rest p m = ((r, p', m'), rest')" and "R None p m"
  shows "R r p' m'"
proof -
  obtain r1 p1 m1 u1 rest1 where one: "parse_shorts (drop 1 arg) False rest p m = (((r1, p1, m1), u1), rest1)"
    by (metis prod.collapse)
  have "R r1 p1 m1" using keeps_parse_shorts [OF one assms(2)] .
  then show ?thesis
    using assms(1) one by (cases r1) (auto simp: parse_short_def keeps_unknown split: if_splits)
qed

lemma keeps_parse_one:
  assumes "parse_one arg rest p m = ((r, p', m'), rest')" and "R None p m"
  shows "R r p' m'"
proof -
  consider "parse_long arg rest p m = ((r, p', m'), rest')"
    | "parse_short arg rest p m = ((r, p', m'), rest')"
    | args where "r = None" "p' = p\<lparr>non_option_args := args\<rparr>" "m' = m"
    using assms(1) by (auto simp: parse_one_def split: if_splits)
  then show ?thesis
    by cases (auto intro: keeps_parse_long keeps_parse_short keeps_non_option assms(2))
qed

lemma keeps_parse_args:
  "parse_args args p m = (r, p', m') \<Longrightarrow> R None p m \<Longrightarrow> R r p' m'"
proof (induction args p m rule: parse_args.induct)
  case (2 arg rest p m)
  obtain r1 p1 m1 rest1 where one: "parse_one arg rest p m = ((r1, p1, m1), rest1)"
    by (metis prod.collapse)
  have q: "R r1 p1 m1" using keeps_parse_one [OF one "2.prems"(2)] .
  show ?case
  proof (cases r1)
    case None
    then show ?thesis
      using "2.IH" [OF one [symmetric] refl _ refl] "2.prems"(1) q one
      by (simp add: parse_args.simps(2) [of arg rest])
  next
    case (Some f)
    then show ?thesis using "2.prems"(1) q one by (simp add: parse_args.simps(2) [of arg rest])
  qed
qed simp

lemma keeps_parse_argv:
  assumes "parse_argv argv p m = (r, p', m')" and "R None p m"
  shows "R r p' m'"
proof -
  obtain r1 p1 m1 where all: "parse_args (tl argv) p m = (r1, p1, m1)"
    by (metis prod.collapse)
  have "R r1 p1 m1" using keeps_parse_args [OF all assms(2)] .
  then show ?thesis
    using assms(1) all keeps_required [of p1 m1] by (cases r1) (auto simp: parse_argv_def)
qed

lemma keeps_parse_ini_lines:
  "parse_ini_lines ls sec p m = (r, p', m') \<Longrightarrow> R None p m \<Longrightarrow> R r p' m'"
proof (induction ls arbitrary: sec p m)
  case (Cons l ls)
  obtain k v where kv: "split_line (trim l) = (k, v)" by (cases "split_line (trim l)")
  let ?key = "if sec = [] then k else sec @ ''.'' @ k"
  consider (on) sec1 where "parse_ini_lines ls sec1 p m = (r, p', m')"
    | (unknown) "parse_ini_lines ls sec (add_unknown ?key p) m = (r, p', m')"
    | (known) i where "active_option p (find_long p ?key) = Some i"
        "(case parse_at i long_name (c_str v) p m of
           (Some f, p1, m1) \<Rightarrow> (Some f, p1, m1)
         | (None, p1, m1) \<Rightarrow> parse_ini_lines ls sec p1 m1) = (r, p', m')"
    using Cons.prems(1) kv
    by (auto simp: Let_def split: if_splits option.splits)
  then show ?case
  proof cases
    case on
    then show ?thesis using Cons.IH Cons.prems(2) by blast
  next
    case unknown
    then show ?thesis using Cons.IH keeps_unknown Cons.prems(2) by blast
  next
    case known
    obtain r1 p1 m1 where one: "parse_at i long_name (c_str v) p m = (r1, p1, m1)"
      by (metis prod.collapse)
    have q: "R r1 p1 m1"
      using keeps_parse_at [OF one active_option_length(1) [OF known(1)] Cons.prems(2)] .
    then show ?thesis using known(2) one Cons.IH by (cases r1) auto
  qed
qed simp

lemma keeps_parse_ini:
  "parse_ini content p m = (r, p', m') \<Longrightarrow> R None p m \<Longrightarrow> R r p' m'"
  by (auto simp: parse_ini_def keeps_parse_ini_lines split: option.splits)

end

text \<open>
  Parsing changes the options and the variables only by adding values, one option at a time: what
  such a step keeps is kept by parsing.
\<close>

locale kept_by_values =
  fixes Q :: "Option list \<Rightarrow> store \<Rightarrow> bool"
  assumes keeps_add: "Q opts m \<Longrightarrow> k < length opts \<Longrightarrow>
    Q (opts[k := fst (add_value (opts ! k) m v)]) (snd (add_value (opts ! k) m v))"
begin

lemma value_kept:
  assumes "parse_at k nm s p m = (r, p', m')" and "k < length (options p)" and "Q (options p) m"
  shows "Q (options p') m'"
proof (cases "option_parse (options p ! k) m nm s")
  case (Inl f)
  then show ?thesis using assms by (simp add: parse_at_def)
next
  case (Inr om)
  then obtain v where v: "add_value (options p ! k) m v = om"
    using option_parse_adds [of "options p ! k" m nm s "fst om" "snd om"] by auto
  have "Q ((options p)[k := fst om]) (snd om)" using keeps_add [OF assms(3,2), of v] by (simp only: v)
  then show ?thesis using Inr assms(1) by (auto simp: parse_at_def split: prod.splits)
qed

end

sublocale kept_by_values \<subseteq> kept_by_parse "\<lambda>r p m. Q (options p) m"
  by unfold_locales (auto intro: value_kept)

text \<open>The variables that the options point to follow them.\<close>

definition distinct_refs :: "Option list \<Rightarrow> bool" where
  "distinct_refs opts \<longleftrightarrow>
     (\<forall>i < length opts. \<forall>j < length opts. i \<noteq> j \<longrightarrow> assign_ref (opts ! i) \<noteq> None \<longrightarrow>
        assign_ref (opts ! i) \<noteq> assign_ref (opts ! j))"

definition tracking :: "Option list \<Rightarrow> store \<Rightarrow> bool" where
  "tracking opts m \<longleftrightarrow> distinct_refs opts \<and> (\<forall>i < length opts. tracks (opts ! i) m)"

lemma tracking_add:
  assumes "tracking opts m" and "k < length opts"
  shows "tracking (opts[k := fst (add_value (opts ! k) m v)]) (snd (add_value (opts ! k) m v))"
proof -
  let ?opts = "opts[k := fst (add_value (opts ! k) m v)]"
  have nth: "?opts ! i = (if i = k then (opts ! k)\<lparr>values_list := values_list (opts ! k) @ [v]\<rparr> else opts ! i)"
    if "i < length opts" for i
    using that by (simp add: nth_list_update)
  have ref: "assign_ref (?opts ! i) = assign_ref (opts ! i)" if "i < length opts" for i
    using that by (cases "i = k") simp_all
  then have "distinct_refs ?opts" using assms(1) by (simp add: tracking_def distinct_refs_def)
  moreover have "tracks (?opts ! i) (snd (add_value (opts ! k) m v))" if i: "i < length opts" for i
  proof (cases "i = k")
    case True
    then show ?thesis using assms(2) by (simp add: tracks_def current_val_def is_set_def)
  next
    case False
    then have "\<forall>x. assign_ref (opts ! i) = Some x \<longrightarrow> assign_ref (opts ! k) \<noteq> Some x"
      using assms i unfolding tracking_def distinct_refs_def by (metis option.distinct(1))
    moreover have "tracks (opts ! i) m" using assms(1) i by (simp add: tracking_def)
    ultimately show ?thesis
      using False i by (auto simp: tracks_def nth split: option.splits)
  qed
  ultimately show ?thesis by (simp add: tracking_def)
qed

interpretation follow: kept_by_values tracking
  by unfold_locales (rule tracking_add)

text \<open>Everything but the values stays.\<close>

definition bare :: "Option \<Rightarrow> Option" where
  "bare opt = opt\<lparr>values_list := []\<rparr>"

lemma bare_sel [simp]:
  "opt_class (bare opt) = opt_class opt" "opt_type (bare opt) = opt_type opt"
  "opt_short (bare opt) = opt_short opt" "opt_long (bare opt) = opt_long opt"
  "opt_description (bare opt) = opt_description opt"
  "opt_attribute (bare opt) = opt_attribute opt" "default_val (bare opt) = default_val opt"
  "assign_ref (bare opt) = assign_ref opt" "values_list (bare opt) = []"
  "bare (opt\<lparr>values_list := vs\<rparr>) = bare opt"
  by (simp_all add: bare_def)

lemma short_name_bare [simp]: "option_short_name (bare opt) = option_short_name opt"
  by (simp add: option_short_name_def)

definition same_table :: "Option list \<Rightarrow> store \<Rightarrow> Option list \<Rightarrow> store \<Rightarrow> bool" where
  "same_table T m0 opts m \<longleftrightarrow> map bare opts = T \<and>
     (\<forall>x. (\<forall>opt \<in> set T. assign_ref opt \<noteq> Some x) \<longrightarrow> m x = m0 x)"

lemma same_table_add:
  assumes "same_table T m0 opts m" and "k < length opts"
  shows "same_table T m0 (opts[k := fst (add_value (opts ! k) m v)]) (snd (add_value (opts ! k) m v))"
proof -
  have T: "map bare opts = T" using assms(1) by (simp add: same_table_def)
  have "map bare (opts[k := fst (add_value (opts ! k) m v)]) = (map bare opts)[k := bare (opts ! k)]"
    by (simp add: map_update)
  also have "\<dots> = map bare opts" using assms(2) by (metis length_map list_update_id nth_map)
  finally have "map bare (opts[k := fst (add_value (opts ! k) m v)]) = T" by (simp only: T)
  moreover have "bare (opts ! k) \<in> set T" using T assms(2) by auto
  then have "assign_ref (opts ! k) \<noteq> Some x" if "\<forall>opt \<in> set T. assign_ref opt \<noteq> Some x" for x
    using that bare_sel(8) by metis
  ultimately show ?thesis
    using assms(1) by (auto simp: same_table_def split: option.splits)
qed

interpretation table: kept_by_values "same_table T m0" for T m0
  by unfold_locales (rule same_table_add)

lemma values_irrelevant [simp]:
  "option_name (opt\<lparr>values_list := vs\<rparr>) nm h = option_name opt nm h"
  "invalid (opt\<lparr>values_list := vs\<rparr>) e nm s t = invalid opt e nm s t"
  by (simp_all add: option_name_def invalid_def)

text \<open>
  What parsing reports: the table and the description stay, and what is thrown is an
  \<^verbatim>\<open>invalid_option\<close> about one of the options. An \<^verbatim>\<open>Implicit\<close> option has its default.
\<close>

definition constructed :: "Option list \<Rightarrow> bool" where
  "constructed opts \<longleftrightarrow> (\<forall>opt \<in> set opts. opt_class opt = Implicit \<longrightarrow> default_val opt \<noteq> None)"

definition reported :: "Option list \<Rightarrow> failure \<Rightarrow> bool" where
  "reported T f \<longleftrightarrow> (\<exists>opt \<in> set T. \<exists>error nm s txt. f = invalid opt error nm s txt)"

definition reports :: "Option list \<Rightarrow> string \<Rightarrow> failure option \<Rightarrow> OptionParser \<Rightarrow> store \<Rightarrow> bool" where
  "reports T descr r p m \<longleftrightarrow> constructed T \<and> map bare (options p) = T \<and>
     parser_description p = descr \<and> (\<forall>f. r = Some f \<longrightarrow> reported T f)"

lemma invalid_bare: "invalid (bare opt) error nm s txt = invalid opt error nm s txt"
  by (simp add: bare_def)

lemma parse_value_reports:
  "parse_value opt nm s = Inl f \<Longrightarrow> \<exists>error v txt. f = invalid opt error nm v txt"
  by (auto simp: parse_value_def parse_string_def parse_bool_def parse_number_def Let_def
      split: val_type.splits if_splits prod.splits)

lemma option_parse_reports:
  assumes "option_parse opt m nm s = Inl f" and "opt_class opt = Implicit \<longrightarrow> default_val opt \<noteq> None"
  shows "\<exists>error v txt. f = invalid opt error nm v txt"
  using assms parse_value_reports [of opt nm s f]
  by (auto simp: option_parse_def get_default_def res_bind_def
      split: option_class.splits if_splits sum.splits option.splits)

lemma check_required_reports:
  "check_required opts = Some f \<Longrightarrow> reported (map bare opts) f"
  by (induction opts) (auto simp: reported_def invalid_bare split: if_splits)

lemma reports_parse_at:
  assumes "parse_at k nm s p m = (r, p', m')" and "k < length (options p)" and "reports T descr None p m"
  shows "reports T descr r p' m'"
proof -
  have T: "map bare (options p) = T" and c: "constructed T" using assms(3) by (simp_all add: reports_def)
  have "map bare (options p') = T"
    using table.keeps_parse_at [OF assms(1,2), of T m] T by (simp add: same_table_def)
  moreover have "parser_description p' = parser_description p"
    using assms(1) by (auto simp: parse_at_def split: sum.splits)
  moreover have "reported T f" if f: "r = Some f" for f
  proof -
    have opt: "bare (options p ! k) \<in> set T" using T assms(2) by auto
    then have "opt_class (options p ! k) = Implicit \<longrightarrow> default_val (options p ! k) \<noteq> None"
      using c unfolding constructed_def by (metis bare_sel(1,7))
    moreover have "option_parse (options p ! k) m nm s = Inl f"
      using assms(1) f by (auto simp: parse_at_def split: sum.splits)
    ultimately obtain er v w where "f = invalid (options p ! k) er nm v w"
      using option_parse_reports by metis
    then show ?thesis using opt unfolding reported_def by (metis invalid_bare)
  qed
  ultimately show ?thesis using assms(3) by (simp add: reports_def)
qed

interpretation outcome: kept_by_parse "reports T descr" for T descr
proof unfold_locales
  show "reports T descr None p m \<Longrightarrow> reports T descr (check_required (options p)) p m" for p m
    using check_required_reports by (auto simp: reports_def)
  show "reports T descr None p m \<Longrightarrow> reports T descr None (add_unknown arg p) m" for p m arg
    by (simp add: reports_def add_unknown_def)
  show "reports T descr None p m \<Longrightarrow> reports T descr None (p\<lparr>non_option_args := args\<rparr>) m" for p m args
    by (simp add: reports_def)
qed (rule reports_parse_at)

lemma clear_all_Cons:
  "clear_all (opt # opts) m =
     (fst (option_clear opt m) # fst (clear_all opts (snd (option_clear opt m))),
      snd (clear_all opts (snd (option_clear opt m))))"
  by (simp add: case_prod_beta Let_def)

lemma clear_all_options: "fst (clear_all opts m) = map bare opts"
  by (induction opts arbitrary: m) (simp_all add: clear_all_Cons bare_def del: clear_all.simps(2))

lemma clear_all_store:
  assumes "\<forall>opt \<in> set opts. assign_ref opt = Some x \<longrightarrow> default_val opt = v"
  shows "snd (clear_all opts m) x =
    (if v \<noteq> None \<and> (\<exists>opt \<in> set opts. assign_ref opt = Some x) then v else m x)"
  using assms
proof (induction opts arbitrary: m)
  case (Cons opt opts)
  then show ?case
    by (auto simp: clear_all_Cons simp del: clear_all.simps(2) split: option.splits)
qed simp


section \<open>Spelling options on the command line\<close>

text \<open>
  \<open>spell opt joined s\<close>: the arguments that set a long option to \<open>s\<close>, as \<open>--name=s\<close> or as
  \<open>--name s\<close>. \<open>apply_settings\<close>: the values parsed one after the other, without any arguments.
\<close>

definition spell :: "Option \<Rightarrow> bool \<Rightarrow> string \<Rightarrow> string list" where
  "spell opt joined s =
     (let arg = ''--'' @ opt_long opt
      in if argument_type opt = required_argument \<and> \<not> joined then [arg, s]
         else if s = [] then [arg] else [arg @ ''='' @ s])"

definition can_spell :: "Option \<Rightarrow> string \<Rightarrow> bool" where
  "can_spell opt s \<longleftrightarrow> (case argument_type opt of
       no_argument \<Rightarrow> s = [] | required_argument \<Rightarrow> s \<noteq> [] | optional_argument \<Rightarrow> True)"

fun apply_settings :: "(nat \<times> string) list \<Rightarrow> OptionParser \<Rightarrow> store \<Rightarrow> parse_result" where
  "apply_settings [] p m = (None, p, m)"
| "apply_settings ((k, s) # ss) p m =
     (case parse_at k long_name s p m of
        (Some f, p', m') \<Rightarrow> (Some f, p', m')
      | (None, p', m') \<Rightarrow> apply_settings ss p' m')"

definition named_table :: "Option list \<Rightarrow> bool" where
  "named_table opts \<longleftrightarrow> distinct (map opt_long opts) \<and>
     (\<forall>opt \<in> set opts. opt_long opt \<noteq> [] \<and> CHR ''='' \<notin> set (opt_long opt) \<and>
        opt_attribute opt \<noteq> inactive)"

lemma named_table_bare: "map bare opts = map bare opts' \<Longrightarrow> named_table opts \<Longrightarrow> named_table opts'"
proof -
  assume eq: "map bare opts = map bare opts'"
  have "named_table (map bare opts) = named_table opts" for opts
    by (simp add: named_table_def comp_def)
  then show "named_table opts \<Longrightarrow> named_table opts'" using eq by metis
qed

lemma find_index_distinct:
  "distinct (map f xs) \<Longrightarrow> k < length xs \<Longrightarrow> find_index (\<lambda>x. f x = f (xs ! k)) xs = Some k"
proof (induction xs arbitrary: k)
  case (Cons x xs)
  show ?case
  proof (cases k)
    case (Suc j)
    then have "f (xs ! j) \<in> f ` set xs" using Cons.prems by simp
    then have "f x \<noteq> f (xs ! j)" using Cons.prems by (metis distinct.simps(2) list.simps(9) set_map)
    then show ?thesis using Suc Cons by simp
  qed simp
qed simp

lemma find_long_named:
  assumes "named_table (options p)" and "k < length (options p)"
  shows "active_option p (find_long p (opt_long (options p ! k))) = Some k"
  using assms find_index_distinct [of opt_long "options p" k] nth_mem [OF assms(2)]
  by (auto simp: named_table_def active_option_def find_long_def)

lemma split_equal_name: "CHR ''='' \<notin> set nm \<Longrightarrow> split_equal nm = (nm, [])"
  by (simp add: split_equal_def takeWhile_neq_all) (induction nm; auto)

lemma split_equal_joined: "CHR ''='' \<notin> set nm \<Longrightarrow> split_equal (nm @ CHR ''='' # s) = (nm, s)"
  by (simp add: split_equal_def takeWhile_neq_append) (induction nm; auto)

lemma parse_args_spell:
  assumes "named_table (options p)" and "k < length (options p)" and "can_spell (options p ! k) s"
  shows "parse_args (spell (options p ! k) joined s @ rest) p m =
    (case parse_at k long_name s p m of
       (Some f, p', m') \<Rightarrow> (Some f, p', m') | (None, p', m') \<Rightarrow> parse_args rest p' m')"
proof -
  let ?opt = "options p ! k"
  have nm: "opt_long ?opt \<noteq> []" "CHR ''='' \<notin> set (opt_long ?opt)"
    using assms(1,2) by (auto simp: named_table_def)
  note find = find_long_named [OF assms(1,2)]
  have long: "parse_one (''--'' @ opt_long ?opt @ t) rest p m = parse_long (''--'' @ opt_long ?opt @ t) rest p m"
    for t rest
    using nm by (simp add: parse_one_def starts_with_def)
  have plain: "parse_one (''--'' @ opt_long ?opt) (s # rest) p m = (parse_at k long_name s p m, rest)"
    if "argument_type ?opt = required_argument"
    using long [of "[]" "s # rest"] that
    by (simp add: parse_long_def split_equal_name nm find next_argument_def)
  have joined: "parse_one (''--'' @ opt_long ?opt @ ''='' @ s) rest p m = (parse_at k long_name s p m, rest)"
    if "s \<noteq> []" "argument_type ?opt \<noteq> no_argument"
    using long [of "''='' @ s" rest] that
    by (cases "argument_type ?opt")
      (simp_all add: parse_long_def split_equal_joined nm find next_argument_def)
  have alone: "parse_one (''--'' @ opt_long ?opt) rest p m = (parse_at k long_name s p m, rest)"
    if "s = []" "argument_type ?opt \<noteq> required_argument"
    using long [of "[]" rest] that
    by (cases "argument_type ?opt") (simp_all add: parse_long_def split_equal_name nm find)
  have "\<exists>arg xs. spell ?opt joined s @ rest = arg # xs \<and>
      parse_one arg xs p m = (parse_at k long_name s p m, rest)"
  proof (cases "argument_type ?opt = required_argument \<and> \<not> joined")
    case True
    then show ?thesis using plain by (simp add: spell_def)
  next
    case False
    then show ?thesis
      using assms(3) joined alone
      by (cases "argument_type ?opt"; cases "s = []")
        (auto simp: spell_def can_spell_def)
  qed
  then obtain arg xs where "spell ?opt joined s @ rest = arg # xs"
    and "parse_one arg xs p m = (parse_at k long_name s p m, rest)" by blast
  then show ?thesis by (auto simp: parse_args.simps(2) split: prod.splits option.splits)
qed


section \<open>A table for the witnesses\<close>

definition sample_table :: OptionParser where
  "sample_table = (new_parser ''sample'')\<lparr>options :=
     [\<lparr>opt_class = Switch, opt_type = T_bool, opt_short = ''v'', opt_long = ''verbose'',
       opt_description = ''Be verbose'', opt_attribute = optional,
       default_val = Some (V_bool False), assign_ref = Some ''verbose'', values_list = []\<rparr>,
      \<lparr>opt_class = Value, opt_type = T_int, opt_short = [], opt_long = ''level'',
       opt_description = ''The level'', opt_attribute = optional,
       default_val = Some (V_int 2), assign_ref = Some ''level'', values_list = []\<rparr>]\<rparr>"

definition sample_store :: store where
  "sample_store = (\<lambda>x. if x = ''verbose'' then Some (V_bool False)
     else if x = ''level'' then Some (V_int 2) else None)"

lemma sample_named: "named_table (options sample_table)"
  by (simp add: named_table_def sample_table_def)

lemma sample_tracking: "tracking (options sample_table) sample_store"
  by (auto simp: tracking_def distinct_refs_def tracks_def current_val_def is_set_def sample_table_def
      sample_store_def nth_Cons split: nat.splits)

section \<open>Ini files and the command line\<close>

text \<open>Texts that an ini file can hold as they are.\<close>

definition ini_word :: "string \<Rightarrow> bool" where
  "ini_word w \<longleftrightarrow> w \<noteq> [] \<and> \<not> isspace (hd w) \<and> \<not> isspace (last w) \<and> newline \<notin> set w \<and> NUL \<notin> set w"

definition ini_setting :: "Option list \<Rightarrow> nat \<times> string \<Rightarrow> bool" where
  "ini_setting opts ks \<longleftrightarrow> fst ks < length opts \<and>
     ini_word (opt_long (opts ! fst ks)) \<and> hd (opt_long (opts ! fst ks)) \<notin> {CHR ''#'', CHR ''[''} \<and>
     ini_word (snd ks)"

definition ini_line :: "Option list \<Rightarrow> nat \<times> string \<Rightarrow> string" where
  "ini_line opts ks = opt_long (opts ! fst ks) @ ''='' @ snd ks"

text \<open>
  The argument of the command line that a line corresponds to, and the value it has there: that of
  a switch has none.
\<close>

definition ini_argument :: "Option list \<Rightarrow> nat \<times> string \<Rightarrow> string" where
  "ini_argument opts ks = ''--'' @
     (if argument_type (opts ! fst ks) = no_argument then opt_long (opts ! fst ks) else ini_line opts ks)"

definition argument_value :: "Option list \<Rightarrow> nat \<times> string \<Rightarrow> string" where
  "argument_value opts ks = (if argument_type (opts ! fst ks) = no_argument then [] else snd ks)"

lemma trim_id: "w \<noteq> [] \<Longrightarrow> \<not> isspace (hd w) \<Longrightarrow> \<not> isspace (last w) \<Longrightarrow> trim w = w"
proof -
  assume w: "w \<noteq> []" "\<not> isspace (hd w)" "\<not> isspace (last w)"
  have id: "dropWhile isspace u = u" if "u \<noteq> []" "\<not> isspace (hd u)" for u
    using that by (cases u) auto
  show ?thesis using w id [of w] id [of "rev w"] by (simp add: trim_def hd_rev)
qed

lemma getlines_line:
  assumes "newline \<notin> set l"
  shows "getlines (l @ newline # s) = l # getlines s"
proof -
  have "dropWhile (\<lambda>c. c \<noteq> newline) (l @ newline # s) = newline # s"
    using assms by (induction l) auto
  then show ?thesis
    using assms by (simp add: getlines.simps [of "l @ newline # s"] takeWhile_neq_append)
qed

lemma getlines_lines:
  "\<forall>l \<in> set ls. newline \<notin> set l \<Longrightarrow> getlines (concat (map (\<lambda>l. l @ [newline]) ls)) = ls"
  by (induction ls) (simp_all add: getlines_line, simp add: getlines.simps)

lemma c_str_id: "NUL \<notin> set s \<Longrightarrow> c_str s = s"
  by (simp add: c_str_def takeWhile_neq_all)

lemma parse_ini_line:
  assumes "named_table (options p)" and "ini_setting (options p) (k, s)"
  shows "parse_ini_lines (ini_line (options p) (k, s) # ls) [] p m =
    (case parse_at k long_name s p m of
       (Some f, p', m') \<Rightarrow> (Some f, p', m') | (None, p', m') \<Rightarrow> parse_ini_lines ls [] p' m')"
proof -
  let ?nm = "opt_long (options p ! k)" and ?l = "ini_line (options p) (k, s)"
  have k: "k < length (options p)" and nm: "ini_word ?nm" "hd ?nm \<notin> {CHR ''#'', CHR ''[''}"
    and s: "ini_word s"
    using assms(2) by (auto simp: ini_setting_def)
  have eq: "CHR ''='' \<notin> set ?nm" using assms(1) k by (auto simp: named_table_def)
  have l: "?l \<noteq> []" "hd ?l = hd ?nm" "last ?l = last s" "?l = ?nm @ CHR ''='' # s"
    using nm(1) s by (auto simp: ini_line_def ini_word_def)
  then have t: "trim ?l = ?l" using nm(1) s by (intro trim_id) (auto simp: ini_word_def)
  have sp: "split_line ?l = (?nm, s)"
    using nm(1) s unfolding l(4)
    by (simp add: split_line_def split_equal_joined [OF eq] trim_id ini_word_def)
  show ?thesis
    using l(1,2) nm s t sp find_long_named [OF assms(1) k]
    by (auto simp: Let_def ini_word_def c_str_id split: prod.splits option.splits)
qed

lemma newline_not_equal: "newline \<noteq> CHR ''=''"
  by code_simp

lemma parse_ini_settings:
  assumes "named_table (options p)" and "\<forall>ks \<in> set ss. ini_setting (options p) ks"
  shows "parse_ini (Some (concat (map (\<lambda>ks. ini_line (options p) ks @ [newline]) ss))) p m =
    apply_settings ss p m"
proof -
  have "map bare (options p) = T \<Longrightarrow> named_table (options q) \<Longrightarrow> map bare (options q) = T \<Longrightarrow>
      parse_ini_lines (map (ini_line (options p)) ss) [] q m = apply_settings ss q m" for q m T
    using assms(2)
  proof (induction ss arbitrary: q m)
    case (Cons ks ss)
    obtain k s where ks: "ks = (k, s)" by (cases ks)
    have len: "length (options q) = length (options p)" using Cons.prems(1,3) by (metis length_map)
    have set_p: "ini_setting (options p) (k, s)" using Cons.prems(4) ks by simp
    then have k: "k < length (options q)" using len by (simp add: ini_setting_def)
    have "bare (options q ! k) = bare (options p ! k)"
      using Cons.prems(1,3) k len by (metis nth_map)
    then have same: "opt_long (options q ! k) = opt_long (options p ! k)"
      "opt_class (options q ! k) = opt_class (options p ! k)"
      by (metis bare_sel(4), metis bare_sel(1))
    then have line: "ini_line (options q) (k, s) = ini_line (options p) (k, s)"
      and set_q: "ini_setting (options q) (k, s)"
      using set_p len by (simp_all add: ini_line_def ini_setting_def argument_type_def)
    obtain r q1 m1 where one: "parse_at k long_name s q m = (r, q1, m1)"
      by (metis prod.collapse)
    have "map bare (options q1) = T"
      using table.keeps_parse_at [OF one k, of T m] Cons.prems(3) by (simp add: same_table_def)
    moreover from this have "named_table (options q1)"
      using Cons.prems(2,3) named_table_bare by metis
    ultimately have "parse_ini_lines (map (ini_line (options p)) ss) [] q1 m1 = apply_settings ss q1 m1"
      using Cons.IH [of q1 m1] Cons.prems(1,4) by simp
    then show ?case
      using parse_ini_line [OF Cons.prems(2) set_q, of _ m] one
      by (simp add: ks line split: option.splits del: parse_ini_lines.simps)
  qed simp
  moreover have "\<forall>l \<in> set (map (ini_line (options p)) ss). newline \<notin> set l"
    using assms(2) newline_not_equal by (auto simp: ini_line_def ini_setting_def ini_word_def)
  ultimately show ?thesis
    using assms(1) getlines_lines [of "map (ini_line (options p)) ss"]
    by (simp add: parse_ini_def comp_def)
qed

text \<open>The value that a file gives to a switch has no effect.\<close>

lemma parse_at_switch:
  "argument_type (options p ! k) = no_argument \<Longrightarrow> parse_at k nm s p m = parse_at k nm [] p m"
  by (simp add: parse_at_def option_parse_def argument_type_def split: option_class.splits)

lemma apply_settings_arguments:
  assumes "\<forall>(k, s) \<in> set ss. k < length opts" and "map bare (options p) = map bare opts"
  shows "apply_settings ss p m = apply_settings (map (\<lambda>ks. (fst ks, argument_value opts ks)) ss) p m"
  using assms
proof (induction ss arbitrary: p m)
  case (Cons ks ss)
  obtain k s where ks: "ks = (k, s)" by (cases ks)
  have k: "k < length (options p)" using Cons.prems ks by (metis (mono_tags, lifting) case_prodD length_map list.set_intros(1))
  have "bare (options p ! k) = bare (opts ! k)"
    using Cons.prems(2) k by (metis length_map nth_map)
  then have "argument_type (options p ! k) = argument_type (opts ! k)"
    by (metis argument_type_def bare_sel(1))
  then have same: "parse_at k long_name (argument_value opts (k, s)) p m = parse_at k long_name s p m"
    using parse_at_switch [of p k long_name s m] by (simp add: argument_value_def)
  obtain r p1 m1 where one: "parse_at k long_name s p m = (r, p1, m1)" by (metis prod.collapse)
  have "map bare (options p1) = map bare opts"
    using table.keeps_parse_at [OF one k, of "map bare opts" m] Cons.prems(2) by (simp add: same_table_def)
  then show ?case using Cons.IH [of p1 m1] Cons.prems(1) same one by (simp add: ks split: option.splits)
qed simp

section \<open>The values that settings add\<close>

definition accepts :: "Option \<Rightarrow> string \<Rightarrow> val \<Rightarrow> bool" where
  "accepts opt s v \<longleftrightarrow> (\<forall>m. option_parse opt m long_name s = Inr (add_value opt m v))"

lemma parse_values_irrelevant [simp]:
  "parse_string (opt\<lparr>values_list := vs\<rparr>) nm s = parse_string opt nm s"
  "parse_number (opt\<lparr>values_list := vs\<rparr>) nm s = parse_number opt nm s"
  unfolding parse_string_def parse_number_def values_irrelevant by simp_all

lemma parse_value_values [simp]: "parse_value (opt\<lparr>values_list := vs\<rparr>) nm s = parse_value opt nm s"
  by (cases "opt_type opt") (simp_all add: parse_value_def)

lemma add_value_inject [simp]: "add_value opt m v = add_value opt m v' \<longleftrightarrow> v = v'"
proof
  assume "add_value opt m v = add_value opt m v'"
  then have "values_list (fst (add_value opt m v)) = values_list (fst (add_value opt m v'))" by simp
  then show "v = v'" by simp
qed simp

lemma accepts_bare: "accepts (bare opt) s v \<longleftrightarrow> accepts opt s v"
  by (cases "opt_class opt"; cases "parse_value opt long_name s"; cases "default_val opt")
    (simp_all add: accepts_def option_parse_def bare_def get_default_def)

lemma accepts_value:
  "opt_class opt = Value \<Longrightarrow> parse_value opt long_name s = Inr v \<Longrightarrow> accepts opt s v"
  by (simp add: accepts_def option_parse_def)

lemma accepts_switch: "opt_class opt = Switch \<Longrightarrow> accepts opt s (V_bool True)"
  by (simp add: accepts_def option_parse_def)

definition vals :: "nat \<Rightarrow> (nat \<times> string \<times> val) list \<Rightarrow> val list" where
  "vals k ss = map (\<lambda>(k', s, v). v) (filter (\<lambda>(k', s, v). k' = k) ss)"

lemma vals_simps [simp]:
  "vals k [] = []" "vals k (xs @ ys) = vals k xs @ vals k ys"
  "vals k ((j, s, v) # ss) = (if j = k then v # vals k ss else vals k ss)"
  by (simp_all add: vals_def)

lemma parse_at_accepts:
  "accepts (options p ! k) s v \<Longrightarrow>
   parse_at k long_name s p m =
     (None, p\<lparr>options := (options p)[k := fst (add_value (options p ! k) m v)]\<rparr>,
      snd (add_value (options p ! k) m v))"
  by (simp add: parse_at_def accepts_def case_prod_beta del: add_value_sel)

lemma apply_settings_values:
  assumes "\<forall>(k, s, v) \<in> set ss. k < length (options p) \<and> accepts (options p ! k) s v"
  shows "\<exists>p' m'. apply_settings (map (\<lambda>(k, s, v). (k, s)) ss) p m = (None, p', m') \<and>
    map bare (options p') = map bare (options p) \<and>
    (\<forall>k < length (options p). values_list (options p' ! k) = values_list (options p ! k) @ vals k ss)"
  using assms
proof (induction ss arbitrary: p m)
  case (Cons x ss)
  obtain k s v where x: "x = (k, s, v)" by (cases x)
  have k: "k < length (options p)" and acc: "accepts (options p ! k) s v" using Cons.prems x by auto
  define p1 where "p1 = p\<lparr>options := (options p)[k := fst (add_value (options p ! k) m v)]\<rparr>"
  define m1 where "m1 = snd (add_value (options p ! k) m v)"
  have one: "parse_at k long_name s p m = (None, p1, m1)"
    using parse_at_accepts [OF acc] by (simp only: p1_def m1_def)
  have bare1: "map bare (options p1) = map bare (options p)"
    using table.keeps_parse_at [OF one k, of "map bare (options p)" m] by (simp add: same_table_def)
  have nth: "options p1 ! j = (if j = k then (options p ! k)\<lparr>values_list := values_list (options p ! k) @ [v]\<rparr>
      else options p ! j)" for j
    using k by (simp add: p1_def)
  have len: "length (options p1) = length (options p)" by (simp add: p1_def)
  have "\<forall>(j, s, v) \<in> set ss. j < length (options p1) \<and> accepts (options p1 ! j) s v"
  proof clarify
    fix j s' v' assume "(j, s', v') \<in> set ss"
    then have j: "j < length (options p)" "accepts (options p ! j) s' v'" using Cons.prems x by auto
    have "bare (options p1 ! j) = bare (options p ! j)" by (simp add: nth)
    then show "j < length (options p1) \<and> accepts (options p1 ! j) s' v'"
      using j len accepts_bare by metis
  qed
  from Cons.IH [OF this, of m1] obtain p' m' where IH:
      "apply_settings (map (\<lambda>(k, s, v). (k, s)) ss) p1 m1 = (None, p', m')"
      "map bare (options p') = map bare (options p1)"
      "\<forall>j < length (options p). values_list (options p' ! j) = values_list (options p1 ! j) @ vals j ss"
    by (auto simp: len)
  then show ?case using one bare1 by (auto simp: x nth)
qed simp

lemma parse_args_spelled:
  assumes "named_table (options p)"
    and "\<forall>(k, joined, s) \<in> set ss. k < length (options p) \<and> can_spell (options p ! k) s"
  shows "parse_args (concat (map (\<lambda>(k, joined, s). spell (options p ! k) joined s) ss)) p m =
    apply_settings (map (\<lambda>(k, joined, s). (k, s)) ss) p m"
proof -
  have "map bare (options p) = T \<Longrightarrow> named_table (options q) \<Longrightarrow> map bare (options q) = T \<Longrightarrow>
      parse_args (concat (map (\<lambda>(k, joined, s). spell (options p ! k) joined s) ss)) q m =
      apply_settings (map (\<lambda>(k, joined, s). (k, s)) ss) q m" for q m T
    using assms(2)
  proof (induction ss arbitrary: q m)
    case (Cons x ss)
    obtain k joined s where x: "x = (k, joined, s)" by (cases x)
    have len: "length (options q) = length (options p)" using Cons.prems(1,3) by (metis length_map)
    have k: "k < length (options q)" "can_spell (options p ! k) s"
      using Cons.prems(4) x len by auto
    have "bare (options q ! k) = bare (options p ! k)"
      using Cons.prems(1,3) k(1) len by (metis nth_map)
    then have same: "opt_long (options q ! k) = opt_long (options p ! k)"
      "opt_class (options q ! k) = opt_class (options p ! k)"
      by (metis bare_sel(4), metis bare_sel(1))
    then have sp: "spell (options q ! k) joined s = spell (options p ! k) joined s"
      and can: "can_spell (options q ! k) s"
      using k(2) by (simp_all add: spell_def can_spell_def argument_type_def)
    obtain r q1 m1 where one: "parse_at k long_name s q m = (r, q1, m1)"
      by (metis prod.collapse)
    have "map bare (options q1) = T"
      using table.keeps_parse_at [OF one k(1), of T m] Cons.prems(3) by (simp add: same_table_def)
    moreover from this have "named_table (options q1)"
      using Cons.prems(2,3) named_table_bare by metis
    ultimately have "parse_args (concat (map (\<lambda>(k, joined, s). spell (options p ! k) joined s) ss)) q1 m1 =
        apply_settings (map (\<lambda>(k, joined, s). (k, s)) ss) q1 m1"
      using Cons.IH [of q1 m1] Cons.prems(1,4) by simp
    then show ?case
      using parse_args_spell [OF Cons.prems(2) k(1) can, of joined] one
      by (simp add: x sp split: option.splits)
  qed simp
  then show ?thesis using assms(1) by blast
qed

section \<open>Properties\<close>

text \<open>C18. Options set on the command line: each setting of a table of long options, spelled as
  \<open>--name=value\<close> or as \<open>--name value\<close> (and \<open>--name\<close> alone for a switch), reaches exactly the
  option it names, in the order of the arguments, and the first value that an option rejects
  ends the parsing with its exception.\<close>

theorem parse_args_settings:
  assumes "named_table (options p)"
    and "\<forall>(k, joined, s) \<in> set ss. k < length (options p) \<and> can_spell (options p ! k) s"
  shows "parse_args (concat (map (\<lambda>(k, joined, s). spell (options p ! k) joined s) ss)) p m =
    apply_settings (map (\<lambda>(k, joined, s). (k, s)) ss) p m"
  using assms by (rule parse_args_spelled)

theorem parse_args_settings_witness:
  "(case parse_args [''--level'', ''4'', ''--verbose'', ''--level=5''] sample_table sample_store of
      (r, p, m) \<Rightarrow> r = None \<and> m ''level'' = Some (V_int 5) \<and> m ''verbose'' = Some (V_bool True))"
proof -
  let ?ss = "[(1, False, ''4''), (0, True, []), (1, True, ''5'')]"
  have ok: "\<forall>(k, joined, s) \<in> set ?ss. k < length (options sample_table) \<and> can_spell (options sample_table ! k) s"
    by (simp add: sample_table_def can_spell_def argument_type_def)
  have args: "concat (map (\<lambda>(k, joined, s). spell (options sample_table ! k) joined s) ?ss) =
      [''--level'', ''4'', ''--verbose'', ''--level=5'']"
    by (simp add: sample_table_def spell_def argument_type_def Let_def)
  have "case apply_settings (map (\<lambda>(k, joined, s). (k, s)) ?ss) sample_table sample_store of
      (r, p, m) \<Rightarrow> r = None \<and> m ''level'' = Some (V_int 5) \<and> m ''verbose'' = Some (V_bool True)"
    by code_simp
  then show ?thesis using parse_args_settings [OF sample_named ok, unfolded args] by simp
qed

text \<open>C19. Whatever the command line, and also when parsing throws: every variable that an option
  points to holds the last value the option was given, or its default.\<close>

theorem parse_argv_variables_follow:
  assumes "tracking (options p) m" and "parse_argv argv p m = (r, p', m')"
    and "i < length (options p')" and "assign_ref (options p' ! i) = Some x"
  shows "m' x = (if values_list (options p' ! i) = [] then default_val (options p' ! i)
    else Some (last (values_list (options p' ! i))))"
  using follow.keeps_parse_argv [OF assms(2,1)] assms(3,4)
  by (simp add: tracking_def tracks_def current_val_def is_set_def)

theorem parse_argv_variables_follow_witness:
  "\<exists>f p m. parse_argv [''prog'', ''--level=4'', ''--level=x'', ''--verbose''] sample_table sample_store = (Some f, p, m) \<and>
     m ''level'' = Some (V_int 4)"
proof -
  let ?r = "parse_argv [''prog'', ''--level=4'', ''--level=x'', ''--verbose''] sample_table sample_store"
  have e: "fst ?r \<noteq> None" "1 < length (options (fst (snd ?r)))"
    "assign_ref (options (fst (snd ?r)) ! 1) = Some ''level''"
    "values_list (options (fst (snd ?r)) ! 1) = [V_int 4]"
    by code_simp+
  obtain f p m where r: "?r = (f, p, m)" by (metis prod.collapse)
  have "m ''level'' = Some (V_int 4)"
    using parse_argv_variables_follow [OF sample_tracking r, of 1 "''level''"] e unfolding r by simp
  then show ?thesis using e(1) r by auto
qed

text \<open>C30. The only exception that parsing a command line throws is \<^verbatim>\<open>invalid_option\<close>, about an option
  of the table; the options, apart from their values, and the description stay, also when it
  throws.\<close>

theorem parse_argv_throws_only_invalid_option:
  assumes "\<forall>opt \<in> set (options p). opt_class opt = Implicit \<longrightarrow> default_val opt \<noteq> None"
    and "parse_argv argv p m = (r, p', m')"
  shows "map bare (options p') = map bare (options p) \<and> parser_description p' = parser_description p \<and>
    (\<forall>f. r = Some f \<longrightarrow> (\<exists>opt \<in> set (options p). \<exists>error nm s txt.
       f = Raise (Invalid_option (opt_short opt, opt_long opt) error nm s txt)))"
proof -
  have "reports (map bare (options p)) (parser_description p) None p m"
    using assms(1) by (auto simp: reports_def constructed_def)
  from outcome.keeps_parse_argv [OF assms(2) this] show ?thesis
    by (fastforce simp: reports_def reported_def invalid_def)
qed

theorem parse_argv_throws_only_invalid_option_witness:
  "\<exists>f p m. parse_argv [''prog'', ''--level=x''] sample_table sample_store = (Some f, p, m) \<and>
     parser_description p = ''sample'' \<and>
     (\<exists>opt \<in> set (options sample_table). \<exists>error nm s txt.
        f = Raise (Invalid_option (opt_short opt, opt_long opt) error nm s txt))"
proof -
  let ?r = "parse_argv [''prog'', ''--level=x''] sample_table sample_store"
  have ok: "\<forall>opt \<in> set (options sample_table). opt_class opt = Implicit \<longrightarrow> default_val opt \<noteq> None"
    by (simp add: sample_table_def)
  have e: "fst ?r \<noteq> None" by code_simp
  obtain f p m where r: "?r = (f, p, m)" by (metis prod.collapse)
  have "parser_description sample_table = ''sample''" by (simp add: sample_table_def new_parser_def)
  then show ?thesis using parse_argv_throws_only_invalid_option [OF ok r] e r by auto
qed

text \<open>C31. \<^verbatim>\<open>reset\<close> after any parsing, one that failed included: the options have no values and are
  otherwise as before, the lists of arguments are empty, and of the variables, those of options
  with a default hold it, those of options without one keep what parsing has left in them, and
  all others are as before. So if no option had a value before and every option has a default,
  the options and the variables are as before the parsing.\<close>

theorem parser_reset_undoes_parse:
  assumes "parse_argv argv p m = (r, p', m')" and "tracking (options p) m"
    and "parser_reset p' m' = (p'', m'')"
  shows "options p'' = map bare (options p) \<and> non_option_args p'' = [] \<and> unknown_options p'' = [] \<and>
    (\<forall>opt \<in> set (options p). \<forall>x. assign_ref opt = Some x \<longrightarrow>
       m'' x = (if default_val opt \<noteq> None then default_val opt else m' x)) \<and>
    (\<forall>x. (\<forall>opt \<in> set (options p). assign_ref opt \<noteq> Some x) \<longrightarrow> m'' x = m x) \<and>
    ((\<forall>opt \<in> set (options p). values_list opt = [] \<and> default_val opt \<noteq> None) \<longrightarrow>
       options p'' = options p \<and> m'' = m)"
proof -
  let ?T = "map bare (options p)"
  have "same_table ?T m (options p) m" by (simp add: same_table_def)
  then have kept: "same_table ?T m (options p') m'"
    using assms(1) by (rule table.keeps_parse_argv [rotated])
  then have T: "map bare (options p') = ?T" by (simp add: same_table_def)
  have new: "options p'' = ?T" "m'' = snd (clear_all (options p') m')"
    "non_option_args p'' = []" "unknown_options p'' = []"
    using assms(3) clear_all_options [of "options p'" m'] T by (auto simp: parser_reset_def split: prod.splits)
  have pointed: "m'' x = (if default_val opt \<noteq> None then default_val opt else m' x)"
    if opt: "opt \<in> set (options p)" "assign_ref opt = Some x" for opt x
  proof -
    have only: "default_val o' = default_val opt" if o': "o' \<in> set (options p')" "assign_ref o' = Some x" for o'
    proof -
      have "bare o' \<in> set ?T" using o'(1) T by (metis image_eqI set_map)
      then obtain o1 where o1: "o1 \<in> set (options p)" "bare o1 = bare o'" by auto
      then have "assign_ref o1 = Some x" "default_val o1 = default_val o'"
        using o'(2) by (metis bare_sel)+
      moreover from this have "o1 = opt"
        using assms(2) opt o1(1) unfolding tracking_def distinct_refs_def in_set_conv_nth by (metis option.distinct(1))
      ultimately show ?thesis by simp
    qed
    have "bare opt \<in> set (map bare (options p'))" using opt(1) T by auto
    then obtain o' where "o' \<in> set (options p')" "bare o' = bare opt" by auto
    then have "\<exists>o' \<in> set (options p'). assign_ref o' = Some x" using opt(2) by (metis bare_sel)
    then show ?thesis using clear_all_store [of "options p'" x "default_val opt" m'] only new(2) by auto
  qed
  have other: "m'' x = m x" if none: "\<forall>opt \<in> set (options p). assign_ref opt \<noteq> Some x" for x
  proof -
    have "assign_ref o' \<noteq> Some x" if "o' \<in> set (options p')" for o'
    proof -
      have "bare o' \<in> set ?T" using that T by (metis image_eqI set_map)
      then obtain o1 where "o1 \<in> set (options p)" "bare o1 = bare o'" by auto
      then show ?thesis using none by (metis bare_sel)
    qed
    then have "m'' x = m' x" using clear_all_store [of "options p'" x None m'] new(2) by auto
    moreover have "m' x = m x" using kept none by (simp add: same_table_def)
    ultimately show ?thesis by simp
  qed
  have "options p'' = options p \<and> m'' = m"
    if fresh: "\<forall>opt \<in> set (options p). values_list opt = [] \<and> default_val opt \<noteq> None"
  proof
    show "options p'' = options p" unfolding new(1) using fresh by (intro map_idI) (simp add: bare_def)
    have "default_val opt = m x" if "opt \<in> set (options p)" "assign_ref opt = Some x" for opt x
    proof -
      have "tracks opt m" using assms(2) that(1) by (auto simp: tracking_def in_set_conv_nth)
      then show ?thesis using fresh that by (auto simp: tracks_def current_val_def is_set_def)
    qed
    then show "m'' = m" using pointed other fresh by (intro ext) metis
  qed
  then show ?thesis using new pointed other by blast
qed

theorem parser_reset_undoes_parse_witness:
  "case parse_argv [''prog'', ''-vv'', ''extra'', ''--level=7''] sample_table sample_store of
     (r, p, m) \<Rightarrow> m ''level'' = Some (V_int 7) \<and> options (fst (parser_reset p m)) = options sample_table \<and>
       snd (parser_reset p m) = sample_store"
proof -
  let ?r = "parse_argv [''prog'', ''-vv'', ''extra'', ''--level=7''] sample_table sample_store"
  obtain r p m where r: "?r = (r, p, m)" by (metis prod.collapse)
  have fresh: "\<forall>opt \<in> set (options sample_table). values_list opt = [] \<and> default_val opt \<noteq> None"
    by (simp add: sample_table_def)
  have level: "snd (snd ?r) ''level'' = Some (V_int 7)" by code_simp
  have split: "parser_reset p m = (fst (parser_reset p m), snd (parser_reset p m))" by simp
  have "options (fst (parser_reset p m)) = options sample_table \<and> snd (parser_reset p m) = sample_store"
    using parser_reset_undoes_parse [OF r sample_tracking split] fresh by blast
  then show ?thesis using level by (simp add: r)
qed

text \<open>Two dashes do not end the options: the arguments after them are recorded as arguments that
  are no options and then parsed as options all the same.\<close>

theorem dashes_do_not_end_options:
  assumes "named_table (options p)" and "k < length (options p)" and "can_spell (options p ! k) s"
  shows "parse_args (''--'' # spell (options p ! k) joined s) p m =
    parse_at k long_name s
      (p\<lparr>non_option_args := non_option_args p @ spell (options p ! k) joined s\<rparr>) m"
proof -
  let ?p = "p\<lparr>non_option_args := non_option_args p @ spell (options p ! k) joined s\<rparr>"
  have "parse_args (''--'' # spell (options p ! k) joined s) p m =
      parse_args (spell (options ?p ! k) joined s @ []) ?p m"
    by (simp add: parse_args.simps(2) parse_one_def)
  also have "\<dots> = parse_at k long_name s ?p m"
    using parse_args_spell [of ?p k s joined "[]" m] assms
    by (simp split: prod.splits option.splits)
  finally show ?thesis .
qed

theorem dashes_do_not_end_options_witness:
  "case parse_args [''--'', ''--level=4''] sample_table sample_store of
     (r, p, m) \<Rightarrow> non_option_args p = [''--level=4''] \<and> m ''level'' = Some (V_int 4)"
proof -
  have k: "1 < length (options sample_table)" by (simp add: sample_table_def)
  have can: "can_spell (options sample_table ! 1) ''4''"
    by (simp add: sample_table_def can_spell_def argument_type_def)
  have sp: "spell (options sample_table ! 1) True ''4'' = [''--level=4'']"
    by (simp add: sample_table_def spell_def argument_type_def Let_def)
  have "case parse_at 1 long_name ''4'' (sample_table\<lparr>non_option_args :=
      non_option_args sample_table @ [''--level=4'']\<rparr>) sample_store of
     (r, p, m) \<Rightarrow> non_option_args p = [''--level=4''] \<and> m ''level'' = Some (V_int 4)"
    by code_simp
  then show ?thesis using dashes_do_not_end_options [OF sample_named k can, of True, unfolded sp] by simp
qed


text \<open>C29. An ini file and the command line agree: the lines \<open>name=value\<close> of a file have the same
  effect, failure included, as these arguments in the same order: \<open>--name=value\<close> for an option that
  takes a value, and \<open>--name\<close> alone for a switch, which the line sets whatever the value says,
  \<open>0\<close> and \<open>false\<close> included. This is for names and values that need no trimming and for values
  that are not empty: \<open>--name=\<close> takes the next argument for the value, and a line has none.\<close>

theorem ini_file_equals_command_line:
  assumes "named_table (options p)" and "\<forall>ks \<in> set ss. ini_setting (options p) ks"
  shows "parse_ini (Some (concat (map (\<lambda>ks. ini_line (options p) ks @ [newline]) ss))) p m =
    parse_args (map (ini_argument (options p)) ss) p m"
proof -
  let ?ss = "map (\<lambda>ks. (fst ks, True, argument_value (options p) ks)) ss"
  have ok: "\<forall>(k, joined, s) \<in> set ?ss. k < length (options p) \<and> can_spell (options p ! k) s"
    using assms(2)
    by (auto simp: ini_setting_def ini_word_def can_spell_def argument_value_def split: Argument.splits)
  have sp: "map (\<lambda>(k, joined, s). spell (options p ! k) joined s) ?ss =
      map (\<lambda>ks. [ini_argument (options p) ks]) ss"
    using assms(2)
    by (auto simp: spell_def ini_argument_def argument_value_def ini_line_def ini_setting_def ini_word_def Let_def)
  have flat: "concat (map (\<lambda>ks. [ini_argument (options p) ks]) ss) = map (ini_argument (options p)) ss"
    by (induction ss) simp_all
  have unzip: "map (\<lambda>(k, joined, s). (k, s)) ?ss = map (\<lambda>ks. (fst ks, argument_value (options p) ks)) ss"
    by simp
  have "\<forall>(k, s) \<in> set ss. k < length (options p)" using assms(2) by (auto simp: ini_setting_def)
  from apply_settings_arguments [OF this refl] show ?thesis
    using parse_args_spelled [OF assms(1) ok, of m] parse_ini_settings [OF assms, of m]
    unfolding sp flat unzip by simp
qed

theorem ini_file_equals_command_line_witness:
  "parse_ini (Some (''level=5'' @ newline # ''verbose=0'' @ [newline])) sample_table sample_store =
     parse_args [''--level=5'', ''--verbose''] sample_table sample_store"
proof -
  have ok: "\<forall>ks \<in> set [(1, ''5''), (0, ''0'')]. ini_setting (options sample_table) ks" by code_simp
  have line: "ini_line (options sample_table) (1, ''5'') = ''level=5''"
    "ini_line (options sample_table) (0, ''0'') = ''verbose=0''"
    "ini_argument (options sample_table) (1, ''5'') = ''--level=5''"
    "ini_argument (options sample_table) (0, ''0'') = ''--verbose''"
    by (simp_all add: ini_line_def ini_argument_def argument_type_def sample_table_def)
  show ?thesis
    using ini_file_equals_command_line [OF sample_named ok, of sample_store]
    unfolding list.map concat.simps line by simp
qed


end
