(* ===== verification/Popl_Printer.thy ===== *)
theory Popl_Printer
  imports Popl_Parser
begin

text \<open>
  The three printers of \<^verbatim>\<open>src/src/popl.hpp\<close>: for the console, for man pages, and for bash
  completion. The parser they print is a pointer, which may be null (\<open>None\<close>).
\<close>

section \<open>Console\<close>

text \<open>The default of an option, in the form the console and the groff printer share.\<close>

definition argument_text :: "Option \<Rightarrow> string" where
  "argument_text opt = (case argument_type opt of
       required_argument \<Rightarrow>
         '' arg'' @ (case print_default opt of
            Some d \<Rightarrow> if d \<noteq> [] then '' (='' @ d @ '')'' else [] | None \<Rightarrow> [])
     | optional_argument \<Rightarrow>
         (case print_default opt of Some d \<Rightarrow> '' [=arg(='' @ d @ '')]'' | None \<Rightarrow> [])
     | no_argument \<Rightarrow> [])"

definition console_option :: "Option \<Rightarrow> string" where
  "console_option opt =
     (if option_short_name opt \<noteq> NUL then
        ''  -'' @ [option_short_name opt] @ (if opt_long opt \<noteq> [] then '', '' else [])
      else ''  '') @
     (if opt_long opt \<noteq> [] then ''--'' @ opt_long opt else []) @ argument_text opt"

definition right_margin :: "Option list \<Rightarrow> nat" where
  "right_margin opts =
     min (40 - 2) (fold (\<lambda>opt margin. max margin (length (console_option opt) + 2)) opts 20)"

definition spaces :: "nat \<Rightarrow> string" where
  "spaces n = replicate n (CHR '' '')"

text \<open>The first column of an option, and the lines of its description.\<close>

definition option_column :: "nat \<Rightarrow> Option \<Rightarrow> string" where
  "option_column margin opt =
     (let s = console_option opt
      in if length s < margin then s @ spaces (margin - length s)
         else s @ [newline] @ spaces margin)"

fun description_lines :: "nat \<Rightarrow> nat \<Rightarrow> string list \<Rightarrow> string" where
  "description_lines margin n [] = []"
| "description_lines margin n (l # ls) =
     (if 0 < n then [newline] @ spaces margin else []) @ l @ description_lines margin (Suc n) ls"

definition visible :: "Attribute \<Rightarrow> Option \<Rightarrow> bool" where
  "visible max_attribute opt \<longleftrightarrow> \<not> (opt_attribute opt \<le> hidden \<or> max_attribute < opt_attribute opt)"

definition console_entry :: "nat \<Rightarrow> Option \<Rightarrow> string" where
  "console_entry margin opt =
     option_column margin opt @ description_lines margin 0 (getlines (opt_description opt)) @ [newline]"

definition attribute_error :: failure where
  "attribute_error = Raise (Invalid_argument
     (''attribute must be '' @ apostrophe @ ''optional'' @ apostrophe @ '', '' @ apostrophe @
      ''advanced'' @ apostrophe @ '', or '' @ apostrophe @ ''default'' @ apostrophe))"

definition console_print :: "OptionParser option \<Rightarrow> Attribute \<Rightarrow> string res" where
  "console_print op max_attribute = (case op of
       None \<Rightarrow> Inr []
     | Some p \<Rightarrow>
         if max_attribute < optional then Inl attribute_error
         else Inr ((if parser_description p \<noteq> [] then parser_description p @ '':'' @ [newline] else []) @
           concat (map (console_entry (right_margin (options p)))
             (filter (visible max_attribute) (options p)))))"

text \<open>\<^verbatim>\<open>OptionParser::help\<close>, and \<^verbatim>\<open>operator<<\<close>, which prints it for \<^verbatim>\<open>optional\<close>.\<close>

definition parser_help :: "OptionParser \<Rightarrow> Attribute \<Rightarrow> string res" where
  "parser_help p max_attribute = console_print (Some p) max_attribute"

definition print_parser :: "OptionParser \<Rightarrow> string res" where
  "print_parser p = parser_help p optional"

section \<open>Man pages\<close>

definition groff_option :: "Option \<Rightarrow> string" where
  "groff_option opt =
     (if option_short_name opt \<noteq> NUL then
        ''-'' @ [option_short_name opt] @ (if opt_long opt \<noteq> [] then '', '' else []) else []) @
     (if opt_long opt \<noteq> [] then ''--'' @ opt_long opt else []) @ argument_text opt"

definition backslash :: char where
  "backslash = char_of (92::nat)"

definition groff_entry :: "Option \<Rightarrow> string" where
  "groff_entry opt =
     ''.TP'' @ [newline, backslash] @ ''fB'' @ groff_option opt @ [backslash] @ ''fR'' @ [newline] @
     (if opt_description opt \<noteq> [] then opt_description opt @ [newline] else [])"

definition groff_print :: "OptionParser option \<Rightarrow> Attribute \<Rightarrow> string res" where
  "groff_print op max_attribute = (case op of
       None \<Rightarrow> Inr []
     | Some p \<Rightarrow>
         if max_attribute < optional then Inl attribute_error
         else Inr ((if parser_description p \<noteq> [] then
             ''.SS '' @ parser_description p @ '':'' @ [newline] else []) @
           concat (map groff_entry (filter (visible max_attribute) (options p)))))"

section \<open>Bash completion\<close>

definition tab :: char where
  "tab = char_of (9::nat)"

definition bash_option :: "Option \<Rightarrow> string" where
  "bash_option opt =
     (if hidden < opt_attribute opt then
        (if option_short_name opt \<noteq> NUL then ''-'' @ [option_short_name opt] @ '' '' else []) @
        (if opt_long opt \<noteq> [] then ''--'' @ opt_long opt @ '' '' else [])
      else [])"

definition bash_print :: "OptionParser option \<Rightarrow> string \<Rightarrow> string" where
  "bash_print op program_name = (case op of
       None \<Rightarrow> []
     | Some p \<Rightarrow>
         ''_'' @ program_name @ ''()'' @ [newline] @
         ''{'' @ [newline, tab] @ ''local cur prev opts'' @ [newline, tab] @ ''COMPREPLY=()'' @
         [newline, tab] @ ''cur='' @ quotation @ ''${COMP_WORDS[COMP_CWORD]}'' @ quotation @
         [newline, tab] @ ''prev='' @ quotation @ ''${COMP_WORDS[COMP_CWORD-1]}'' @ quotation @
         [newline, tab] @ ''opts='' @ quotation @
         concat (map bash_option (options p)) @ quotation @ [newline, tab] @
         ''if [[ ${cur} == -* ]] ; then'' @ [newline, tab, tab] @
         ''COMPREPLY=( $(compgen -W '' @ quotation @ ''${opts}'' @ quotation @ '' -- ${cur}) )'' @
         [newline, tab, tab] @ ''return 0'' @ [newline, tab] @ ''fi'' @ [newline] @ ''}'' @
         [newline] @ ''complete -F '' @ ''_'' @ program_name @ '' '' @ program_name @ [newline])"

section \<open>The layout of the help\<close>

text \<open>The column at which the next character of a text goes.\<close>

definition column :: "string \<Rightarrow> nat" where
  "column s = length (takeWhile (\<lambda>c. c \<noteq> newline) (rev s))"

lemma newline_not_space: "newline \<noteq> CHR '' ''"
  by code_simp

lemma column_no_newline: "newline \<notin> set s \<Longrightarrow> column s = length s"
  by (simp add: column_def takeWhile_neq_all)

lemma column_after_newline: "newline \<notin> set s \<Longrightarrow> column (t @ newline # s) = length s"
  using takeWhile_neq_append [of newline "rev s" "rev t"] by (simp add: column_def)

lemma spaces_no_newline: "newline \<notin> set (spaces n)"
  using newline_not_space by (simp add: spaces_def)

lemma fold_max_le: "n \<le> fold (\<lambda>opt m. max m (f opt)) opts n" for f :: "'a \<Rightarrow> nat"
proof (induction opts arbitrary: n)
  case (Cons opt opts)
  show ?case using Cons [of "max n (f opt)"] by simp
qed simp

lemma fold_max_ge: "opt \<in> set opts \<Longrightarrow> f opt \<le> fold (\<lambda>opt m. max m (f opt)) opts n" for f :: "'a \<Rightarrow> nat"
proof (induction opts arbitrary: n)
  case (Cons x opts)
  then show ?case using fold_max_le [of "max n (f x)" f opts] by auto
qed simp

section \<open>Properties\<close>

text \<open>The layout of the help: the descriptions of all options start at the same column, which is
  between 20 and 38, and the option is on the line of its description, with two blanks between
  them, unless it is too long for that column; no option is wrapped that needs no more than 36
  characters.\<close>

theorem help_columns:
  assumes "opt \<in> set (options p)" and "newline \<notin> set (console_option opt)"
  shows "20 \<le> right_margin (options p) \<and> right_margin (options p) \<le> 38 \<and>
    column (option_column (right_margin (options p)) opt) = right_margin (options p) \<and>
    (length (console_option opt) \<le> 36 \<longrightarrow>
       option_column (right_margin (options p)) opt =
         console_option opt @ spaces (right_margin (options p) - length (console_option opt)) \<and>
       length (console_option opt) + 2 \<le> right_margin (options p))"
proof -
  let ?m = "right_margin (options p)" and ?s = "console_option opt"
  have m: "20 \<le> ?m" "?m \<le> 38" "length ?s \<le> 36 \<longrightarrow> length ?s + 2 \<le> ?m"
    using fold_max_le [of 20 "\<lambda>opt. length (console_option opt) + 2" "options p"]
      fold_max_ge [OF assms(1), of "\<lambda>opt. length (console_option opt) + 2" 20]
    by (auto simp: right_margin_def)
  have "column (option_column ?m opt) = ?m"
  proof (cases "length ?s < ?m")
    case True
    then show ?thesis
      using assms(2) spaces_no_newline [of "?m - length ?s"]
      by (simp add: option_column_def column_no_newline Let_def) (simp add: spaces_def)
  next
    case False
    then show ?thesis
      using column_after_newline [OF spaces_no_newline [of ?m], of ?s]
      by (simp add: option_column_def) (simp add: spaces_def)
  qed
  then show ?thesis using m by (auto simp: option_column_def Let_def)
qed

theorem help_columns_witness:
  "column (option_column (right_margin (options sample_table)) (options sample_table ! 1)) =
     right_margin (options sample_table) \<and> right_margin (options sample_table) \<le> 38"
proof -
  have "options sample_table ! 1 \<in> set (options sample_table)" by (simp add: sample_table_def)
  moreover have "newline \<notin> set (console_option (options sample_table ! 1))" by code_simp
  ultimately show ?thesis using help_columns by blast
qed

end
