(* ===== verification/Popl_Types.thy ===== *)
theory Popl_Types
  imports Popl_Parser
begin

text \<open>
  Types of the values of options. In the source the type \<^verbatim>\<open>T\<close> of \<^verbatim>\<open>Value<T>\<close> makes an option, its
  default and the variable it points to agree; here it is an invariant of the table and the
  variables, which parsing keeps.
\<close>

section \<open>Typing\<close>

fun type_of_val :: "val \<Rightarrow> val_type" where
  "type_of_val (V_string s) = T_string"
| "type_of_val (V_bool b) = T_bool"
| "type_of_val (V_uint16 w) = T_uint16"
| "type_of_val (V_size w) = T_size"
| "type_of_val (V_int i) = T_int"
| "type_of_val (V_double x) = T_double"

definition typed_option :: "Option \<Rightarrow> bool" where
  "typed_option opt \<longleftrightarrow>
     (\<forall>v \<in> set (values_list opt) \<union> set_option (default_val opt). type_of_val v = opt_type opt) \<and>
     (opt_class opt = Switch \<longrightarrow> opt_type opt = T_bool)"

definition typed_var :: "store \<Rightarrow> Option \<Rightarrow> bool" where
  "typed_var m opt \<longleftrightarrow>
     (\<forall>x. assign_ref opt = Some x \<longrightarrow> (\<exists>v. m x = Some v \<and> type_of_val v = opt_type opt))"

text \<open>Options that point to the same variable have the same type.\<close>

definition well_typed :: "Option list \<Rightarrow> store \<Rightarrow> bool" where
  "well_typed opts m \<longleftrightarrow>
     (\<forall>opt \<in> set opts. typed_option opt \<and> typed_var m opt) \<and>
     (\<forall>a \<in> set opts. \<forall>b \<in> set opts. \<forall>x. assign_ref a = Some x \<longrightarrow> assign_ref b = Some x \<longrightarrow>
        opt_type a = opt_type b)"

section \<open>Parsing a value\<close>

definition number_type :: "val_type \<Rightarrow> bool" where
  "number_type ty \<longleftrightarrow> ty \<noteq> T_string \<and> ty \<noteq> T_bool"

lemma read_val_type: "number_type ty \<Longrightarrow> type_of_val (fst (read_val ty s)) = ty"
  by (cases ty) (auto simp: read_val_def number_type_def split: prod.splits)

lemma extraction_type:
  "extraction (read_val ty) i = (Some v, j) \<Longrightarrow> number_type ty \<Longrightarrow> type_of_val v = ty"
  using read_val_type [of ty]
  by (auto simp: extraction_def Let_def split: if_splits list.splits prod.splits)
    (metis fst_conv)

lemma extraction_None: "extraction f i = (None, j) \<Longrightarrow> failbit j"
  by (auto simp: extraction_def Let_def split: if_splits list.splits prod.splits)

text \<open>What the loop ends with: a value of the type, if it read at all and did not fail.\<close>

lemma read_loop_type:
  assumes "read_loop ty i v n = (j, v', n')" and "number_type ty"
    and "\<forall>x. v = Some x \<longrightarrow> type_of_val x = ty"
  shows "(\<forall>x. v' = Some x \<longrightarrow> type_of_val x = ty) \<and> (v \<noteq> None \<longrightarrow> v' \<noteq> None) \<and>
    (good i \<and> unread i \<noteq> [] \<and> \<not> failbit j \<longrightarrow> v' \<noteq> None)"
  using assms
proof (induction ty i v n rule: read_loop.induct)
  case (1 ty i v n)
  consider (stop) "\<not> good i \<or> unread i = []" | (go) c cs where "good i" "unread i = c # cs"
    by (cases "unread i") auto
  then show ?case
  proof cases
    case stop
    then show ?thesis
      using "1.prems" by (auto simp: read_loop.simps [of ty i] peek_def split: if_splits)
  next
    case go
    then have peek: "peek i = (Some c, i)" by (simp add: peek_def)
    obtain x k where x: "extraction (read_val ty) i = (x, k)" by (cases "extraction (read_val ty) i")
    let ?v = "if x = None then v else x"
    have ty: "\<forall>y. ?v = Some y \<longrightarrow> type_of_val y = ty"
      using extraction_type [of ty i _ k] x "1.prems"(2,3) by auto
    have none: "x = None \<Longrightarrow> failbit k" using extraction_None x by blast
    show ?thesis
    proof (cases "good k")
      case True
      then have "read_loop ty k ?v (Suc n) = (j, v', n')"
        using "1.prems"(1) go peek x by (simp add: read_loop.simps [of ty i])
      moreover have "x \<noteq> None" using True none by (auto simp: good_def)
      ultimately show ?thesis
        using "1.IH" [OF _ peek [symmetric] refl x [symmetric] True _ "1.prems"(2) ty] go by auto
    next
      case False
      then have "(j, v', n') = (k, ?v, Suc n)"
        using "1.prems"(1) go peek x by (simp add: read_loop.simps [of ty i])
      then show ?thesis using ty none by auto
    qed
  qed
qed

lemma parse_number_type:
  assumes "parse_number opt nm s = Inr v" and "number_type (opt_type opt)"
  shows "type_of_val v = opt_type opt"
proof -
  obtain j w n where r: "read_loop (opt_type opt) (istringstream s) None 0 = (j, w, n)"
    by (metis prod.collapse)
  have "s \<noteq> []" "\<not> failbit j" "v = the w"
    using assms(1) r by (auto simp: parse_number_def split: if_splits)
  moreover have "good (istringstream s)" "unread (istringstream s) = s"
    by (simp_all add: good_def istringstream_def)
  ultimately show ?thesis using read_loop_type [OF r assms(2)] by auto
qed

lemma parse_value_type:
  assumes "parse_value opt nm s = Inr v"
  shows "type_of_val v = opt_type opt"
  using assms parse_number_type [of opt nm s v]
  by (auto simp: parse_value_def parse_string_def parse_bool_def number_type_def
      split: val_type.splits if_splits)

text \<open>Every class of options adds a value of the option's type.\<close>

lemma option_parse_typed:
  assumes "option_parse opt m nm s = Inr (opt', m')" and "typed_option opt"
  shows "\<exists>v. add_value opt m v = (opt', m') \<and> type_of_val v = opt_type opt"
  using assms parse_value_type [of opt nm s]
  by (auto simp: option_parse_def res_bind_Inr get_default_def typed_option_def
      split: option_class.splits if_splits option.splits)

lemma well_typed_add:
  assumes "well_typed opts m" and "k < length opts" and "type_of_val v = opt_type (opts ! k)"
  shows "well_typed (opts[k := fst (add_value (opts ! k) m v)]) (snd (add_value (opts ! k) m v))"
proof -
  let ?o = "opts ! k" and ?m = "snd (add_value (opts ! k) m v)"
  let ?o' = "?o\<lparr>values_list := values_list ?o @ [v]\<rparr>"
  have o: "?o \<in> set opts" using assms(2) by simp
  have var: "typed_var ?m opt" if opt: "opt \<in> set opts" for opt
  proof -
    have "\<exists>w. ?m x = Some w \<and> type_of_val w = opt_type opt" if x: "assign_ref opt = Some x" for x
    proof (cases "assign_ref ?o = Some x")
      case True
      then have "opt_type ?o = opt_type opt" using assms(1) o opt x unfolding well_typed_def by blast
      then show ?thesis using True assms(3) by simp
    next
      case False
      then have "?m x = m x" by (simp split: option.split)
      moreover have "typed_var m opt" using assms(1) opt by (simp add: well_typed_def)
      ultimately show ?thesis using x by (simp add: typed_var_def)
    qed
    then show ?thesis by (simp add: typed_var_def)
  qed
  have sub: "set (opts[k := ?o']) \<subseteq> insert ?o' (set opts)" by (rule set_update_subset_insert)
  have opts: "\<forall>opt \<in> set opts. typed_option opt" using assms(1) by (simp add: well_typed_def)
  then have "typed_option ?o" using o by blast
  then have new: "typed_option ?o'" "typed_var ?m ?o'"
    using assms(3) var [OF o] by (auto simp: typed_option_def typed_var_def simp del: add_value_sel)
  have same: "\<exists>b \<in> set opts. assign_ref a = assign_ref b \<and> opt_type a = opt_type b"
    if a: "a \<in> set (opts[k := ?o'])" for a
  proof (cases "a = ?o'")
    case True
    then show ?thesis using o by (intro bexI [of _ ?o]) simp_all
  next
    case False
    then show ?thesis using a sub by blast
  qed
  have "opt_type a = opt_type b"
    if "a \<in> set (opts[k := ?o'])" "b \<in> set (opts[k := ?o'])" "assign_ref a = Some x" "assign_ref b = Some x"
    for a b x
    using same [OF that(1)] same [OF that(2)] that(3,4) assms(1) unfolding well_typed_def by metis
  moreover have "typed_option a \<and> typed_var ?m a" if "a \<in> set (opts[k := ?o'])" for a
    using that sub new var opts by blast
  ultimately have "well_typed (opts[k := ?o']) ?m" unfolding well_typed_def by blast
  then show ?thesis by (simp only: add_value_sel(1))
qed

lemma well_typed_parse_at:
  assumes "parse_at k nm s p m = (r, p', m')" and "k < length (options p)" and "well_typed (options p) m"
  shows "well_typed (options p') m'"
proof (cases "option_parse (options p ! k) m nm s")
  case (Inl f)
  then show ?thesis using assms by (simp add: parse_at_def)
next
  case (Inr om)
  have "typed_option (options p ! k)" using assms(2,3) by (simp add: well_typed_def)
  then obtain v where v: "add_value (options p ! k) m v = om" "type_of_val v = opt_type (options p ! k)"
    using option_parse_typed [of "options p ! k" m nm s "fst om" "snd om"] Inr by auto
  have "well_typed ((options p)[k := fst om]) (snd om)"
    using well_typed_add [OF assms(3,2) v(2)] by (simp only: v(1))
  then show ?thesis using Inr assms(1) by (auto simp: parse_at_def split: prod.splits)
qed

interpretation types: kept_by_parse "\<lambda>r p m. well_typed (options p) m"
  by unfold_locales (auto intro: well_typed_parse_at)

lemma sample_well_typed: "well_typed (options sample_table) sample_store"
  by (auto simp: well_typed_def typed_option_def typed_var_def sample_table_def sample_store_def)

section \<open>Properties\<close>

text \<open>Parsing preserves types: whatever the command line or the ini file, and also when parsing
  throws, every value of an option and every variable that an option points to has the type of
  the option.\<close>

theorem parsing_preserves_types:
  assumes "well_typed (options p) m"
    and "parse_argv argv p m = (r, p', m') \<or> parse_ini content p m = (r, p', m')"
  shows "well_typed (options p') m'"
  using assms(2) types.keeps_parse_argv [OF _ assms(1)] types.keeps_parse_ini [OF _ assms(1)] by blast

theorem parsing_preserves_types_witness:
  "\<exists>r p m. parse_argv [''prog'', ''--level=4'', ''-v'', ''--level=5 6''] sample_table sample_store = (r, p, m) \<and>
     well_typed (options p) m"
proof -
  obtain r p m where
    "parse_argv [''prog'', ''--level=4'', ''-v'', ''--level=5 6''] sample_table sample_store = (r, p, m)"
    by (metis prod.collapse)
  then show ?thesis using parsing_preserves_types [OF sample_well_typed] by blast
qed

end
