(* ===== verification/Popl_Spelling.thy ===== *)
theory Popl_Spelling
  imports Popl_Parser
begin

text \<open>
  Two more facts about the command line of \<^verbatim>\<open>src/src/popl.hpp\<close>: arguments that are no options
  of the table are only recorded, and short options are another spelling of the long ones.
\<close>

section \<open>Recorded arguments\<close>

text \<open>The lists of recorded arguments with more entries in front.\<close>

definition recorded :: "string list \<Rightarrow> string list \<Rightarrow> OptionParser \<Rightarrow> OptionParser" where
  "recorded ns us p =
     p\<lparr>non_option_args := ns @ non_option_args p, unknown_options := us @ unknown_options p\<rparr>"

lemma recorded_sel [simp]:
  "options (recorded ns us p) = options p" "parser_description (recorded ns us p) = parser_description p"
  "non_option_args (recorded ns us p) = ns @ non_option_args p"
  "unknown_options (recorded ns us p) = us @ unknown_options p"
  by (simp_all add: recorded_def)

lemma recorded_lookup [simp]:
  "find_long (recorded ns us p) nm = find_long p nm" "find_short (recorded ns us p) c = find_short p c"
  "active_option (recorded ns us p) k = active_option p k"
  by (simp_all add: find_long_def find_short_def active_option_def cong: option.case_cong)

definition recorded_result :: "string list \<Rightarrow> string list \<Rightarrow> parse_result \<Rightarrow> parse_result" where
  "recorded_result ns us x = (case x of (r, p, m) \<Rightarrow> (r, recorded ns us p, m))"

lemma recorded_result_simps [simp]:
  "recorded_result ns us (r, p, m) = (r, recorded ns us p, m)"
  by (simp add: recorded_result_def)

lemma recorded_parse_at [simp]:
  "parse_at k nm s (recorded ns us p) m = recorded_result ns us (parse_at k nm s p m)"
  by (simp add: parse_at_def recorded_def split: sum.split prod.split)

lemma recorded_add_unknown [simp]: "add_unknown arg (recorded ns us p) = recorded ns us (add_unknown arg p)"
  by (simp add: add_unknown_def recorded_def)

lemma recorded_non_option [simp]:
  "(recorded ns us p)\<lparr>non_option_args := ns @ xs\<rparr> = recorded ns us (p\<lparr>non_option_args := xs\<rparr>)"
  by (simp add: recorded_def)

lemma recorded_parse_long:
  "parse_long arg rest (recorded ns us p) m =
     (recorded_result ns us (fst (parse_long arg rest p m)), snd (parse_long arg rest p m))"
  by (simp add: parse_long_def split: prod.split option.split Argument.split)

lemma recorded_parse_shorts:
  "parse_shorts cs unknown rest (recorded ns us p) m =
     (case parse_shorts cs unknown rest p m of ((x, u), rest') \<Rightarrow> ((recorded_result ns us x, u), rest'))"
proof (induction cs unknown rest p m rule: parse_shorts.induct)
  case (2 c cs unknown rest p m)
  show ?case
  proof (cases "active_option p (find_short p c)")
    case None
    then show ?thesis using 2 by simp
  next
    case (Some k)
    then show ?thesis
      using "2.IH"(2) [OF Some]
      by (cases "argument_type (options p ! k)"; cases "parse_at k short_name [] p m")
        (auto split: prod.split option.split)
  qed
qed simp

lemma recorded_parse_one:
  "parse_one arg rest (recorded ns us p) m =
     (recorded_result ns us (fst (parse_one arg rest p m)), snd (parse_one arg rest p m))"
proof -
  have "parse_short arg rest (recorded ns us p) m =
      (recorded_result ns us (fst (parse_short arg rest p m)), snd (parse_short arg rest p m))"
    by (simp add: parse_short_def recorded_parse_shorts split: prod.split option.split)
  then show ?thesis
    by (simp add: parse_one_def recorded_parse_long)
qed

lemma recorded_parse_args:
  "parse_args args (recorded ns us p) m = recorded_result ns us (parse_args args p m)"
proof (induction args p m rule: parse_args.induct)
  case (2 arg rest p m)
  obtain r1 p1 m1 rest1 where one: "parse_one arg rest p m = ((r1, p1, m1), rest1)"
    by (metis prod.collapse)
  show ?case
    using "2.IH" [OF one [symmetric] refl _ refl] one
    by (cases r1) (simp_all add: parse_args.simps(2) [of arg rest] recorded_parse_one)
qed simp

text \<open>Arguments that parsing only records: unknown long options and what is no option at all.\<close>

definition unknown_long :: "Option list \<Rightarrow> string \<Rightarrow> bool" where
  "unknown_long opts arg \<longleftrightarrow> (\<exists>w. w \<noteq> [] \<and> arg = ''--'' @ w \<and> fst (split_equal w) \<notin> set (map opt_long opts))"

definition non_option :: "string \<Rightarrow> bool" where
  "non_option arg \<longleftrightarrow> \<not> starts_with ''-'' arg"

lemma parse_one_records:
  assumes "unknown_long (options p) arg \<or> non_option arg"
  shows "parse_one arg rest p m = ((None, p\<lparr>
      non_option_args := non_option_args p @ (if non_option arg then [arg] else []),
      unknown_options := unknown_options p @ (if non_option arg then [] else [arg])\<rparr>, m), rest)"
proof (cases "non_option arg")
  case True
  moreover have "\<not> starts_with ''--'' arg \<and> arg \<noteq> ''--''"
    using True by (cases arg) (auto simp: non_option_def starts_with_def)
  ultimately show ?thesis by (simp add: parse_one_def non_option_def)
next
  case False
  then obtain w where w: "w \<noteq> []" "arg = ''--'' @ w" "fst (split_equal w) \<notin> set (map opt_long (options p))"
    using assms by (auto simp: unknown_long_def)
  then have "\<forall>x \<in> set (options p). opt_long x \<noteq> fst (split_equal w)" by force
  then have "find_long p (fst (split_equal w)) = None"
    unfolding find_long_def by (rule find_index_None)
  then have "parse_one arg rest p m = ((None, add_unknown arg p, m), rest)"
    using w(1,2) by (cases "split_equal w") (simp add: parse_one_def starts_with_def parse_long_def active_option_def)
  then show ?thesis using False by (simp add: add_unknown_def)
qed

text \<open>Such arguments in front of a command line leave what the rest of it does as it is.\<close>

lemma unknown_arguments_recorded:
  assumes "\<forall>arg \<in> set xs. unknown_long (options p) arg \<or> non_option arg"
    and "non_option_args p = []" and "unknown_options p = []"
    and "parse_args args p m = (r, p', m')"
  shows "\<exists>ns us. parse_args (xs @ args) p m = (r, p'\<lparr>non_option_args := ns @ non_option_args p',
      unknown_options := us @ unknown_options p'\<rparr>, m') \<and>
    ns = filter non_option xs \<and> us = filter (\<lambda>arg. \<not> non_option arg) xs"
proof -
  have "parse_args (xs @ args) p m =
      recorded_result (filter non_option xs) (filter (\<lambda>arg. \<not> non_option arg) xs) (parse_args args p m)"
    using assms(1)
  proof (induction xs)
    case Nil
    then show ?case by (cases "parse_args args p m") (simp add: recorded_def)
  next
    case (Cons arg xs)
    let ?ns = "if non_option arg then [arg] else []" and ?us = "if non_option arg then [] else [arg]"
    have "parse_one arg (xs @ args) p m = ((None, recorded ?ns ?us p, m), xs @ args)"
      using parse_one_records [of p arg "xs @ args" m] Cons.prems assms(2,3)
      by (auto simp: recorded_def)
    then have "parse_args ((arg # xs) @ args) p m = recorded_result ?ns ?us (parse_args (xs @ args) p m)"
      by (simp only: append_Cons parse_args.simps(2) recorded_parse_args [symmetric]) simp
    then show ?case
      using Cons by (cases "parse_args args p m") (simp add: recorded_def)
  qed
  then show ?thesis using assms(4) by (simp add: recorded_def)
qed

section \<open>Short options\<close>

definition short_table :: "Option list \<Rightarrow> bool" where
  "short_table opts \<longleftrightarrow>
     (\<forall>i < length opts. \<forall>j < length opts. i \<noteq> j \<longrightarrow> option_short_name (opts ! i) \<noteq> NUL \<longrightarrow>
        option_short_name (opts ! i) \<noteq> option_short_name (opts ! j)) \<and>
     (\<forall>opt \<in> set opts. opt_attribute opt \<noteq> inactive \<and> option_short_name opt \<noteq> CHR ''-'')"

text \<open>A group of short switches \<open>ks\<close>, with a last option \<open>k\<close> and its text, and when it is accepted.\<close>

definition short_group :: "Option list \<Rightarrow> nat list \<Rightarrow> nat \<Rightarrow> string \<Rightarrow> string" where
  "short_group opts ks k s =
     ''-'' @ map (\<lambda>i. option_short_name (opts ! i)) ks @ [option_short_name (opts ! k)] @ s"

definition short_switch :: "Option list \<Rightarrow> nat \<Rightarrow> bool" where
  "short_switch opts i \<longleftrightarrow>
     i < length opts \<and> opt_class (opts ! i) = Switch \<and> option_short_name (opts ! i) \<noteq> NUL"

definition group_ok :: "Option list \<Rightarrow> nat list \<Rightarrow> nat \<Rightarrow> string \<Rightarrow> bool" where
  "group_ok opts ks k s \<longleftrightarrow> named_table opts \<and> short_table opts \<and> (\<forall>i \<in> set ks. short_switch opts i) \<and>
     k < length opts \<and> opt_class (opts ! k) = Value \<and> option_short_name (opts ! k) \<noteq> NUL \<and> s \<noteq> [] \<and>
     is_ok (parse_value (opts ! k) long_name s)"

lemma spell_bare [simp]: "spell (bare opt) joined s = spell opt joined s"
  by (simp add: spell_def argument_type_def)

lemma parse_value_bare [simp]: "parse_value (bare opt) nm s = parse_value opt nm s"
  by (simp add: bare_def)

lemma group_ok_bare: "group_ok (map bare opts) ks k s = group_ok opts ks k s"
proof -
  have "named_table (map bare opts) = named_table opts" by (simp add: named_table_def comp_def)
  moreover have "short_table (map bare opts) = short_table opts" by (simp add: short_table_def)
  moreover have "short_switch (map bare opts) i = short_switch opts i" for i
    by (auto simp: short_switch_def)
  ultimately show ?thesis by (auto simp: group_ok_def)
qed

lemma find_short_named:
  assumes "short_table (options p)" and "k < length (options p)" and "option_short_name (options p ! k) \<noteq> NUL"
  shows "active_option p (find_short p (option_short_name (options p ! k))) = Some k"
proof -
  have "find_short p (option_short_name (options p ! k)) = Some k"
    unfolding find_short_def
  proof (rule find_index_first)
    show "\<forall>j < k. option_short_name (options p ! j) \<noteq> option_short_name (options p ! k)"
      using assms unfolding short_table_def by (metis less_trans less_irrefl)
  qed (use assms(2) in simp_all)
  moreover have "opt_attribute (options p ! k) \<noteq> inactive"
    using assms(1,2) by (simp add: short_table_def)
  ultimately show ?thesis by (simp add: active_option_def)
qed

text \<open>The name an option is given by matters for its failures only.\<close>

lemma parse_value_name: "parse_value opt nm s = Inr v \<Longrightarrow> parse_value opt nm' s = Inr v"
  by (auto simp: parse_value_def parse_string_def parse_number_def
      split: val_type.splits if_splits prod.splits)

lemma parse_at_switch_name:
  "opt_class (options p ! k) = Switch \<Longrightarrow> parse_at k nm s p m = parse_at k nm' s' p m"
  by (simp add: parse_at_def option_parse_def)

lemma parse_at_value_name:
  assumes "opt_class (options p ! k) = Value" and "parse_value (options p ! k) nm s = Inr v"
  shows "parse_at k nm s p m = parse_at k nm' s p m"
  using assms(1) parse_value_name [OF assms(2)] by (simp add: parse_at_def option_parse_def)

lemma parse_at_bare: "parse_at k nm s p m = (r, p', m') \<Longrightarrow> k < length (options p) \<Longrightarrow>
    map bare (options p') = map bare (options p)"
  using table.keeps_parse_at [of k nm s p m r p' m' "map bare (options p)" m] by (simp add: same_table_def)

lemma nth_bare: "map bare opts = map bare opts' \<Longrightarrow> k < length opts \<Longrightarrow> bare (opts ! k) = bare (opts' ! k)"
  by (metis length_map nth_map)

text \<open>The group is parsed as its options one after the other.\<close>

lemma parse_shorts_group:
  assumes "group_ok (options p) ks k s"
  shows "\<exists>p' m'. apply_settings (map (\<lambda>i. (i, [])) ks @ [(k, s)]) p m = (None, p', m') \<and>
    parse_shorts (tl (short_group (options p) ks k s)) False rest p m = (((None, p', m'), False), rest)"
  using assms
proof (induction ks arbitrary: p m)
  case Nil
  then have k: "short_table (options p)" "k < length (options p)" "opt_class (options p ! k) = Value"
    "option_short_name (options p ! k) \<noteq> NUL" "s \<noteq> []" "is_ok (parse_value (options p ! k) long_name s)"
    by (simp_all add: group_ok_def)
  then obtain v where v: "parse_value (options p ! k) long_name s = Inr v" by (auto simp: is_ok_iff)
  have req: "argument_type (options p ! k) = required_argument" using k(3) by (simp add: argument_type_def)
  obtain p' m' where at: "parse_at k long_name s p m = (None, p', m')"
    using parse_at_accepts [OF accepts_value [OF k(3) v]] by blast
  then have "parse_at k short_name s p m = (None, p', m')"
    using parse_at_value_name [OF k(3) v] by metis
  then show ?case
    using at k(5) find_short_named [OF k(1,2,4)] req by (simp add: short_group_def next_argument_def)
next
  case (Cons i ks)
  then have i: "short_table (options p)" "i < length (options p)" "opt_class (options p ! i) = Switch"
    "option_short_name (options p ! i) \<noteq> NUL" and k: "k < length (options p)"
    and ks: "\<forall>j \<in> set ks. j < length (options p)"
    by (auto simp: group_ok_def short_switch_def)
  have no: "argument_type (options p ! i) = no_argument" using i(3) by (simp add: argument_type_def)
  obtain p1 m1 where at: "parse_at i long_name [] p m = (None, p1, m1)"
    using parse_at_accepts [OF accepts_switch [OF i(3)]] by blast
  then have at': "parse_at i short_name [] p m = (None, p1, m1)"
    using parse_at_switch_name [OF i(3)] by metis
  have bare1: "map bare (options p1) = map bare (options p)" using parse_at_bare [OF at i(2)] .
  then have "group_ok (options p1) ks k s"
    using Cons.prems group_ok_bare by (metis group_ok_def list.set_intros(2))
  moreover have "option_short_name (options p1 ! j) = option_short_name (options p ! j)"
    if "j < length (options p)" for j
    using nth_bare [OF bare1 [symmetric] that] by (metis short_name_bare)
  then have "tl (short_group (options p) (i # ks) k s) =
      option_short_name (options p ! i) # tl (short_group (options p1) ks k s)"
    using k ks by (simp add: short_group_def)
  ultimately show ?case
    using Cons.IH [of p1 m1] at at' find_short_named [OF i(1,2,4)] no by simp
qed

text \<open>The same options spelled long.\<close>

lemma parse_args_long_group:
  assumes "group_ok (options p) ks k s"
    and "apply_settings (map (\<lambda>i. (i, [])) ks @ [(k, s)]) p m = (None, p', m')"
  shows "parse_args (concat (map (\<lambda>i. spell (options p ! i) True []) ks) @ spell (options p ! k) True s @ rest) p m =
    parse_args rest p' m'"
  using assms
proof (induction ks arbitrary: p m)
  case Nil
  then have "named_table (options p)" "k < length (options p)" "can_spell (options p ! k) s"
    by (simp_all add: group_ok_def can_spell_def argument_type_def)
  from parse_args_spell [OF this, of True rest m] Nil.prems(2) show ?case
    by (auto split: prod.splits option.splits)
next
  case (Cons i ks)
  then have i: "named_table (options p)" "i < length (options p)" "can_spell (options p ! i) []"
    and k: "k < length (options p)" and ks: "\<forall>j \<in> set ks. j < length (options p)"
    by (auto simp: group_ok_def short_switch_def can_spell_def argument_type_def)
  obtain p1 m1 where at: "parse_at i long_name [] p m = (None, p1, m1)"
    and rest: "apply_settings (map (\<lambda>i. (i, [])) ks @ [(k, s)]) p1 m1 = (None, p', m')"
    using Cons.prems(2) by (auto split: prod.splits option.splits)
  have bare1: "map bare (options p1) = map bare (options p)" using parse_at_bare [OF at i(2)] .
  then have ok: "group_ok (options p1) ks k s"
    using Cons.prems(1) group_ok_bare by (metis group_ok_def list.set_intros(2))
  have sp: "spell (options p1 ! j) joined t = spell (options p ! j) joined t"
    if "j < length (options p)" for j joined t
    using nth_bare [OF bare1 [symmetric] that] by (metis spell_bare)
  then have "map (\<lambda>i. spell (options p1 ! i) True []) ks = map (\<lambda>i. spell (options p ! i) True []) ks"
    using ks by simp
  then have "parse_args (concat (map (\<lambda>i. spell (options p ! i) True []) ks) @ spell (options p ! k) True s @ rest)
      p1 m1 = parse_args rest p' m'"
    using Cons.IH [OF ok rest] sp [OF k] by (simp only:)
  then show ?case using parse_args_spell [OF i, of True _ m] at by simp
qed

section \<open>Properties\<close>

text \<open>C33. Short options are another spelling of the long ones: a group \<open>-abk\<close> of switches, ended by
  an option with its text in the same argument, has the same effect as the long options one
  after the other, on the options, the variables and the arguments that follow.\<close>

theorem short_options_like_long:
  assumes "group_ok (options p) ks k s"
  shows "parse_args (short_group (options p) ks k s # rest) p m =
    parse_args (concat (map (\<lambda>i. spell (options p ! i) True []) ks) @ spell (options p ! k) True s @ rest) p m"
proof -
  obtain p' m' where ap: "apply_settings (map (\<lambda>i. (i, [])) ks @ [(k, s)]) p m = (None, p', m')"
    and sh: "parse_shorts (tl (short_group (options p) ks k s)) False rest p m = (((None, p', m'), False), rest)"
    using parse_shorts_group [OF assms] by blast
  let ?i = "hd (ks @ [k])"
  have "?i < length (options p)" "short_table (options p)"
    using assms by (cases ks; simp add: group_ok_def short_switch_def)+
  then have "option_short_name (options p ! ?i) \<noteq> CHR ''-''" by (simp add: short_table_def)
  moreover have "short_group (options p) ks k s = CHR ''-'' # tl (short_group (options p) ks k s)"
    "tl (short_group (options p) ks k s) \<noteq> []"
    "hd (tl (short_group (options p) ks k s)) = option_short_name (options p ! ?i)"
    by (cases ks; simp add: short_group_def)+
  ultimately have "parse_one (short_group (options p) ks k s) rest p m = ((None, p', m'), rest)"
    using sh by (cases "tl (short_group (options p) ks k s)")
      (auto simp: parse_one_def starts_with_def parse_short_def)
  then show ?thesis
    using parse_args_long_group [OF assms ap] by (simp add: parse_args.simps(2))
qed

definition sample_shorts :: OptionParser where
  "sample_shorts = sample_table\<lparr>options :=
     [options sample_table ! 0, (options sample_table ! 1)\<lparr>opt_short := ''l''\<rparr>]\<rparr>"

theorem short_options_like_long_witness:
  "short_group (options sample_shorts) [0, 0] 1 ''4'' = ''-vvl4'' \<and>
   parse_args [''-vvl4'', ''x''] sample_shorts sample_store =
     parse_args [''--verbose'', ''--verbose'', ''--level=4'', ''x''] sample_shorts sample_store \<and>
   snd (snd (parse_args [''-vvl4'', ''x''] sample_shorts sample_store)) ''level'' = Some (V_int 4)"
proof -
  have group: "short_group (options sample_shorts) [0, 0] 1 ''4'' = ''-vvl4''" by code_simp
  have named: "named_table (options sample_shorts)"
    by (simp add: named_table_def sample_shorts_def sample_table_def)
  have short: "short_table (options sample_shorts)"
    by (auto simp: short_table_def sample_shorts_def sample_table_def option_short_name_def nth_Cons
        split: nat.splits)
  have "is_ok (parse_value (options sample_shorts ! 1) long_name ''4'')" by code_simp
  moreover have "CHR ''v'' \<noteq> NUL" "CHR ''l'' \<noteq> NUL" by code_simp+
  ultimately have ok: "group_ok (options sample_shorts) [0, 0] 1 ''4''"
    using named short
    by (simp add: group_ok_def short_switch_def sample_shorts_def sample_table_def option_short_name_def)
  have long: "concat (map (\<lambda>i. spell (options sample_shorts ! i) True []) [0, 0]) @
      spell (options sample_shorts ! 1) True ''4'' @ [''x''] = [''--verbose'', ''--verbose'', ''--level=4'', ''x'']"
    by code_simp
  have "snd (snd (parse_args [''-vvl4'', ''x''] sample_shorts sample_store)) ''level'' = Some (V_int 4)"
    by code_simp
  then show ?thesis
    using short_options_like_long [OF ok, of "[''x'']" sample_store] group unfolding long by simp
qed

end
