(* ===== verification/Scriptor_Run.thy ===== *)
theory Scriptor_Run
  imports Popl_Printer Popl_Types Popl_Spelling Server
begin

text \<open>
  \<^verbatim>\<open>src/src/scriptor.h\<close> and \<^verbatim>\<open>src/src/scriptor.cpp\<close>: the function \<^verbatim>\<open>run\<close> from the command
  line to the construction of the server, with the table of options, the handling of help and
  the clauses that catch exceptions; and \<^verbatim>\<open>stop\<close>, by which a signal handler ends the program.
  The file system is a parameter, as are the services of the server. The rest of \<^verbatim>\<open>run\<close>, which
  goes on beside the threads of the server, is in \<open>Program\<close>.
\<close>

section \<open>Options and variables\<close>

text \<open>The fields of \<^verbatim>\<open>opt\<close>, as variables that options point to.\<close>

definition options_store :: "Options \<Rightarrow> store" where
  "options_store opt = (\<lambda>x. None)
     (''socket_file'' \<mapsto> V_string (socket_file opt),
      ''socket_address'' \<mapsto> V_string (socket_address opt),
      ''socket_port'' \<mapsto> V_uint16 (socket_port opt),
      ''identity'' \<mapsto> V_string (identity opt),
      ''n_threads'' \<mapsto> V_size (n_threads opt),
      ''file_sink_filename'' \<mapsto> V_string (file_sink_filename opt),
      ''file_sink_max_file_size'' \<mapsto> V_double (file_sink_max_file_size opt),
      ''file_sink_max_files'' \<mapsto> V_size (file_sink_max_files opt),
      ''file_sink_log_level'' \<mapsto> V_int (file_sink_log_level opt),
      ''systemd_sink_use'' \<mapsto> V_bool (systemd_sink_use opt),
      ''systemd_sink_log_level'' \<mapsto> V_int (systemd_sink_log_level opt),
      ''syslog_sink_use'' \<mapsto> V_bool (syslog_sink_use opt),
      ''syslog_sink_log_level'' \<mapsto> V_int (syslog_sink_log_level opt),
      ''eventlog_sink_use'' \<mapsto> V_bool (eventlog_sink_use opt),
      ''eventlog_sink_log_level'' \<mapsto> V_int (eventlog_sink_log_level opt))"

definition string_at :: "store \<Rightarrow> string \<Rightarrow> string" where
  "string_at m x = (case m x of Some (V_string s) \<Rightarrow> s | _ \<Rightarrow> [])"

definition int_at :: "store \<Rightarrow> string \<Rightarrow> int" where
  "int_at m x = (case m x of Some (V_int i) \<Rightarrow> i | _ \<Rightarrow> 0)"

definition bool_at :: "store \<Rightarrow> string \<Rightarrow> bool" where
  "bool_at m x = (case m x of Some (V_bool b) \<Rightarrow> b | _ \<Rightarrow> False)"

definition size_at :: "store \<Rightarrow> string \<Rightarrow> 64 word" where
  "size_at m x = (case m x of Some (V_size w) \<Rightarrow> w | _ \<Rightarrow> 0)"

definition port_at :: "store \<Rightarrow> string \<Rightarrow> 16 word" where
  "port_at m x = (case m x of Some (V_uint16 w) \<Rightarrow> w | _ \<Rightarrow> 0)"

definition double_at :: "store \<Rightarrow> string \<Rightarrow> double" where
  "double_at m x = (case m x of Some (V_double d) \<Rightarrow> d | _ \<Rightarrow> Fin 0 0)"

definition options_of :: "store \<Rightarrow> Options" where
  "options_of m =
     \<lparr>socket_file = string_at m ''socket_file'', socket_address = string_at m ''socket_address'',
      socket_port = port_at m ''socket_port'', identity = string_at m ''identity'',
      n_threads = size_at m ''n_threads'',
      file_sink_filename = string_at m ''file_sink_filename'',
      file_sink_max_file_size = double_at m ''file_sink_max_file_size'',
      file_sink_max_files = size_at m ''file_sink_max_files'',
      file_sink_log_level = int_at m ''file_sink_log_level'',
      systemd_sink_use = bool_at m ''systemd_sink_use'',
      systemd_sink_log_level = int_at m ''systemd_sink_log_level'',
      syslog_sink_use = bool_at m ''syslog_sink_use'',
      syslog_sink_log_level = int_at m ''syslog_sink_log_level'',
      eventlog_sink_use = bool_at m ''eventlog_sink_use'',
      eventlog_sink_log_level = int_at m ''eventlog_sink_log_level''\<rparr>"

lemma options_of_store: "options_of (options_store opt) = opt"
  by (cases opt)
    (simp add: options_of_def options_store_def string_at_def int_at_def bool_at_def size_at_def
      port_at_def double_at_def)

text \<open>The calls of \<^verbatim>\<open>op.add\<close>, in order.\<close>

definition value_option ::
    "val_type \<Rightarrow> string \<Rightarrow> string \<Rightarrow> val \<Rightarrow> string \<Rightarrow> store \<Rightarrow> (Option \<times> store) res" where
  "value_option ty name descr v x m = new_value Value ty [] name descr v (Some x) m"

definition run_options :: "Options \<Rightarrow> (store \<Rightarrow> (Option \<times> store) res) list" where
  "run_options opt =
     [new_switch ''h'' ''help'' ''Display this help message'' None,
      value_option T_string ''socket_file'' ''The unix socket filename''
        (V_string (socket_file opt)) ''socket_file'',
      value_option T_string ''socket_address'' ''The tcp socket address''
        (V_string (socket_address opt)) ''socket_address'',
      value_option T_uint16 ''socket_port'' ''The tcp socket port''
        (V_uint16 (socket_port opt)) ''socket_port'',
      value_option T_string ''identity'' ''The identity name''
        (V_string (identity opt)) ''identity'',
      value_option T_size ''threads'' ''The number of producer threads''
        (V_size (n_threads opt)) ''n_threads'',
      value_option T_string ''filelog_filename'' ''The filelog filename''
        (V_string (file_sink_filename opt)) ''file_sink_filename'',
      value_option T_double ''filelog_max_file_mb'' ''The filelog max file size in MB''
        (V_double (file_sink_max_file_size opt)) ''file_sink_max_file_size'',
      value_option T_size ''filelog_max_files'' ''The filelog max files''
        (V_size (file_sink_max_files opt)) ''file_sink_max_files'',
      value_option T_int ''filelog_level'' ''The filelog log level (0>=level<=5)''
        (V_int (file_sink_log_level opt)) ''file_sink_log_level'',
      new_switch [] ''systemd_logging'' ''Enables logging to systemd (Linux only)''
        (Some ''systemd_sink_use''),
      value_option T_int ''systemd_level'' ''The systemd log level (0>=level<=5)''
        (V_int (systemd_sink_log_level opt)) ''systemd_sink_log_level'',
      new_switch [] ''syslog_logging'' ''Enables logging to syslog (Linux only)''
        (Some ''syslog_sink_use''),
      value_option T_int ''syslog_level'' ''The syslog log level (0>=level<=5)''
        (V_int (syslog_sink_log_level opt)) ''syslog_sink_log_level'',
      new_switch [] ''eventlog_logging'' ''Enables logging to eventlog (Windows only)''
        (Some ''eventlog_sink_use''),
      value_option T_int ''eventlog_level'' ''The eventlog log level (0>=level<=5)''
        (V_int (eventlog_sink_log_level opt)) ''eventlog_sink_log_level'']"

fun add_all ::
    "(store \<Rightarrow> (Option \<times> store) res) list \<Rightarrow> OptionParser \<Rightarrow> store \<Rightarrow> parse_result" where
  "add_all [] p m = (None, p, m)"
| "add_all (x # xs) p m = (case add_option optional x p m of
       (Some f, p', m') \<Rightarrow> (Some f, p', m')
     | (None, p', m') \<Rightarrow> add_all xs p' m')"

text \<open>
  The first of them, that of the help switch, is before the \<^verbatim>\<open>try\<close> block; it cannot throw, as the
  parser has no option yet.
\<close>

definition setup_parser :: "Options \<Rightarrow> parse_result" where
  "setup_parser opt =
     add_all (run_options opt)
       (new_parser ''scriptor - A high-performance logger using unix/tcp sockets'')
       (options_store opt)"

section \<open>run\<close>

record file_system =
  fs_exists :: "string \<Rightarrow> bool res"
  fs_remove :: "string \<Rightarrow> failure option"

definition sample_fs :: file_system where
  "sample_fs = \<lparr>fs_exists = (\<lambda>f. Inr True), fs_remove = (\<lambda>f. None)\<rparr>"

text \<open>
  How the main thread ends: with an exit code and what it has written to the two outputs, in
  undefined behaviour, or in a call of \<^verbatim>\<open>std::terminate\<close>.
\<close>

datatype run_end = Exits int string string | Undefined ub | Aborts

definition help_count :: "OptionParser \<Rightarrow> nat" where
  "help_count p = option_count (options p ! 0)"

text \<open>The help that \<^verbatim>\<open>std::cout << op\<close> prints; for this attribute printing does not throw.\<close>

definition help_text :: "OptionParser \<Rightarrow> string" where
  "help_text p = (case print_parser p of Inr s \<Rightarrow> s | Inl f \<Rightarrow> [])"

lemma print_parser_ok: "\<exists>s. print_parser p = Inr s"
  by (simp add: print_parser_def parser_help_def console_print_def less_Attribute_def)

definition fatal :: "string \<Rightarrow> run_end" where
  "fatal txt = Exits 1 [] (''Fatal Error: '' @ txt @ [newline])"

text \<open>The clauses that catch what the body throws.\<close>

definition caught :: "OptionParser \<Rightarrow> failure \<Rightarrow> run_end" where
  "caught p f = (case f of
       Raise (Invalid_option opt error nm v txt) \<Rightarrow>
         if 1 \<le> help_count p then Exits 0 (help_text p) [] else fatal txt
     | Raise e \<Rightarrow> fatal (case what e of Some txt \<Rightarrow> txt | None \<Rightarrow> ''Unknown'')
     | Undef u \<Rightarrow> Undefined u
     | Terminated \<Rightarrow> Aborts)"

definition remove_socket :: "file_system \<Rightarrow> string \<Rightarrow> failure option" where
  "remove_socket fs file = (case fs_exists fs file of
       Inl f \<Rightarrow> Some f
     | Inr there \<Rightarrow> if there then fs_remove fs file else None)"

text \<open>
  \<open>stop\<close> stores the signal in \<open>g_signal\<close>. The signals are the two that \<^verbatim>\<open>main\<close> registers its
  handler for.
\<close>

datatype posix_signal = SIGINT | SIGTERM

fun signal_num :: "posix_signal \<Rightarrow> int" where
  "signal_num SIGINT = 2"
| "signal_num SIGTERM = 15"

definition stop :: "int \<Rightarrow> int \<Rightarrow> int" where
  "stop signal g_signal = signal"

definition signal_handler :: "int \<Rightarrow> int \<Rightarrow> int" where
  "signal_handler signal g_signal = stop signal g_signal"

definition arrive :: "posix_signal list \<Rightarrow> int \<Rightarrow> int" where
  "arrive signals g_signal = fold (\<lambda>s. signal_handler (signal_num s)) signals g_signal"

text \<open>
  The body of \<^verbatim>\<open>run\<close> up to the construction of the server: how it ends there, or the parser and
  the options.
\<close>

definition run_setup ::
    "platform \<Rightarrow> file_system \<Rightarrow> string list \<Rightarrow> run_end + OptionParser \<times> Options" where
  "run_setup P fs argv =
     (case setup_parser (default_options P) of
        (Some f, p, m) \<Rightarrow> Inl (caught p f)
      | (None, p, m) \<Rightarrow>
          (case parse_argv argv p m of
             (Some f, p', m') \<Rightarrow> Inl (caught p' f)
           | (None, p', m') \<Rightarrow>
               (if 1 \<le> help_count p' then Inl (Exits 0 (help_text p') [])
                else let opt = options_of m'
                     in case remove_socket fs (socket_file opt) of
                          Some f \<Rightarrow> Inl (caught p' f)
                        | None \<Rightarrow> Inr (p', opt))))"

text \<open>The body up to the loop: how it ends there, or the server it has constructed.\<close>

definition run_start ::
    "platform \<Rightarrow> os \<Rightarrow> ('a, 's) services \<Rightarrow> file_system \<Rightarrow> string list \<Rightarrow>
     run_end + ('a, 's) Server" where
  "run_start P sys S fs argv =
     (case run_setup P fs argv of
        Inl e \<Rightarrow> Inl e
      | Inr (p, opt) \<Rightarrow>
          (case new_server sys S opt of
             (Some f, server) \<Rightarrow> Inl (caught p f)
           | (None, server) \<Rightarrow> Inr server))"

lemma arrive_zero: "arrive ss 0 = 0 \<longleftrightarrow> ss = []"
proof -
  have "g \<noteq> 0 \<Longrightarrow> arrive ss g \<noteq> 0" for g
    by (induction ss arbitrary: g)
      (simp_all add: arrive_def signal_handler_def stop_def split: list.splits,
        metis signal_num.elims numeral_neq_zero)
  then show ?thesis
    by (cases ss) (simp_all add: arrive_def signal_handler_def stop_def,
        metis signal_num.elims numeral_neq_zero)
qed

section \<open>The table\<close>

text \<open>The options that the calls of \<^verbatim>\<open>add\<close> leave in the parser.\<close>

definition value_entry :: "val_type \<Rightarrow> string \<Rightarrow> string \<Rightarrow> val \<Rightarrow> string \<Rightarrow> Option" where
  "value_entry ty name descr v x =
     \<lparr>opt_class = Value, opt_type = ty, opt_short = [], opt_long = name, opt_description = descr,
      opt_attribute = optional, default_val = Some v, assign_ref = Some x, values_list = []\<rparr>"

definition switch_entry :: "string \<Rightarrow> string \<Rightarrow> string \<Rightarrow> string option \<Rightarrow> Option" where
  "switch_entry short name descr x =
     \<lparr>opt_class = Switch, opt_type = T_bool, opt_short = short, opt_long = name,
      opt_description = descr, opt_attribute = optional, default_val = Some (V_bool False),
      assign_ref = x, values_list = []\<rparr>"

lemma value_option_adds:
  assumes "m x = Some v" and "name \<noteq> []"
  shows "value_option ty name descr v x m = Inr (value_entry ty name descr v x, m)"
  using assms
  by (auto simp: value_option_def new_value_def new_plain_value_def new_option_def set_default_def update_reference_def
      is_set_def value_entry_def Let_def)

lemma new_switch_adds:
  assumes "\<forall>y. x = Some y \<longrightarrow> m y = Some (V_bool False)" and "name \<noteq> []" and "length short \<le> 1"
  shows "new_switch short name descr x m = Inr (switch_entry short name descr x, m)"
  using assms
  by (auto simp: new_switch_def new_value_def new_plain_value_def new_option_def set_default_def update_reference_def
      is_set_def switch_entry_def Let_def split: option.splits)

lemma add_option_entry:
  assumes "mk m = Inr (opt, m)" and "opt_attribute opt = optional" and "duplicate opt (options p) = None"
  shows "add_option optional mk p m = (None, p\<lparr>options := options p @ [opt]\<rparr>, m)"
  using assms by (simp add: add_option_def set_attribute_def)

definition run_table :: "Options \<Rightarrow> Option list" where
  "run_table opt =
     [switch_entry ''h'' ''help'' ''Display this help message'' None,
      value_entry T_string ''socket_file'' ''The unix socket filename''
        (V_string (socket_file opt)) ''socket_file'',
      value_entry T_string ''socket_address'' ''The tcp socket address''
        (V_string (socket_address opt)) ''socket_address'',
      value_entry T_uint16 ''socket_port'' ''The tcp socket port''
        (V_uint16 (socket_port opt)) ''socket_port'',
      value_entry T_string ''identity'' ''The identity name''
        (V_string (identity opt)) ''identity'',
      value_entry T_size ''threads'' ''The number of producer threads''
        (V_size (n_threads opt)) ''n_threads'',
      value_entry T_string ''filelog_filename'' ''The filelog filename''
        (V_string (file_sink_filename opt)) ''file_sink_filename'',
      value_entry T_double ''filelog_max_file_mb'' ''The filelog max file size in MB''
        (V_double (file_sink_max_file_size opt)) ''file_sink_max_file_size'',
      value_entry T_size ''filelog_max_files'' ''The filelog max files''
        (V_size (file_sink_max_files opt)) ''file_sink_max_files'',
      value_entry T_int ''filelog_level'' ''The filelog log level (0>=level<=5)''
        (V_int (file_sink_log_level opt)) ''file_sink_log_level'',
      switch_entry [] ''systemd_logging'' ''Enables logging to systemd (Linux only)''
        (Some ''systemd_sink_use''),
      value_entry T_int ''systemd_level'' ''The systemd log level (0>=level<=5)''
        (V_int (systemd_sink_log_level opt)) ''systemd_sink_log_level'',
      switch_entry [] ''syslog_logging'' ''Enables logging to syslog (Linux only)''
        (Some ''syslog_sink_use''),
      value_entry T_int ''syslog_level'' ''The syslog log level (0>=level<=5)''
        (V_int (syslog_sink_log_level opt)) ''syslog_sink_log_level'',
      switch_entry [] ''eventlog_logging'' ''Enables logging to eventlog (Windows only)''
        (Some ''eventlog_sink_use''),
      value_entry T_int ''eventlog_level'' ''The eventlog log level (0>=level<=5)''
        (V_int (eventlog_sink_log_level opt)) ''eventlog_sink_log_level'']"

definition run_parser :: "Options \<Rightarrow> OptionParser" where
  "run_parser opt =
     (new_parser ''scriptor - A high-performance logger using unix/tcp sockets'')
       \<lparr>options := run_table opt\<rparr>"

lemma entry_sel [simp]:
  "opt_long (value_entry ty name descr v x) = name" "opt_short (value_entry ty name descr v x) = []"
  "opt_attribute (value_entry ty name descr v x) = optional"
  "opt_long (switch_entry short name descr y) = name"
  "opt_short (switch_entry short name descr y) = short"
  "opt_attribute (switch_entry short name descr y) = optional"
  "opt_class (value_entry ty name descr v x) = Value"
  "opt_class (switch_entry short name descr y) = Switch"
  "opt_type (value_entry ty name descr v x) = ty"
  "assign_ref (value_entry ty name descr v x) = Some x"
  "assign_ref (switch_entry short name descr y) = y"
  "default_val (value_entry ty name descr v x) = Some v"
  "default_val (switch_entry short name descr y) = Some (V_bool False)"
  "values_list (value_entry ty name descr v x) = []"
  "values_list (switch_entry short name descr y) = []"
  by (simp_all add: value_entry_def switch_entry_def)

lemma setup_parser_run:
  assumes "\<not> systemd_sink_use opt" and "\<not> syslog_sink_use opt" and "\<not> eventlog_sink_use opt"
  shows "setup_parser opt = (None, run_parser opt, options_store opt)"
  using assms
  by (simp add: setup_parser_def run_options_def add_option_entry value_option_adds new_switch_adds
      options_store_def option_short_name_def run_parser_def run_table_def new_parser_def NUL_def)

section \<open>Options on the command line\<close>

lemma run_table_length [simp]: "length (run_table d) = 16"
  by (simp add: run_table_def)

lemma run_table_named: "named_table (run_table d)"
  by (simp add: named_table_def run_table_def)

lemma run_table_refs:
  "map assign_ref (run_table d) =
     [None, Some ''socket_file'', Some ''socket_address'', Some ''socket_port'', Some ''identity'',
      Some ''n_threads'', Some ''file_sink_filename'', Some ''file_sink_max_file_size'',
      Some ''file_sink_max_files'', Some ''file_sink_log_level'', Some ''systemd_sink_use'',
      Some ''systemd_sink_log_level'', Some ''syslog_sink_use'', Some ''syslog_sink_log_level'',
      Some ''eventlog_sink_use'', Some ''eventlog_sink_log_level'']"
  by (simp add: run_table_def)

lemma run_table_tracking:
  assumes "\<not> systemd_sink_use d" and "\<not> syslog_sink_use d" and "\<not> eventlog_sink_use d"
  shows "tracking (run_table d) (options_store d)"
proof -
  have "distinct (map assign_ref (run_table d))" unfolding run_table_refs by simp
  then have "distinct_refs (run_table d)"
    by (auto simp: distinct_refs_def distinct_conv_nth)
  moreover have "\<forall>opt \<in> set (run_table d). tracks opt (options_store d)"
    using assms by (simp add: run_table_def tracks_def current_val_def is_set_def options_store_def)
  ultimately show ?thesis by (simp add: tracking_def)
qed

text \<open>The settings by which a command line differs from the defaults \<open>d\<close>.\<close>

definition setting :: "bool \<Rightarrow> nat \<Rightarrow> val \<Rightarrow> (nat \<times> string \<times> val) list" where
  "setting c k v = (if c then [(k, show_val v, v)] else [])"

definition switch_setting :: "bool \<Rightarrow> nat \<Rightarrow> (nat \<times> string \<times> val) list" where
  "switch_setting c k = (if c then [(k, [], V_bool True)] else [])"

definition option_settings :: "Options \<Rightarrow> Options \<Rightarrow> (nat \<times> string \<times> val) list" where
  "option_settings d o' =
     setting (socket_file o' \<noteq> socket_file d) 1 (V_string (socket_file o')) @
     setting (socket_address o' \<noteq> socket_address d) 2 (V_string (socket_address o')) @
     setting (socket_port o' \<noteq> socket_port d) 3 (V_uint16 (socket_port o')) @
     setting (identity o' \<noteq> identity d) 4 (V_string (identity o')) @
     setting (n_threads o' \<noteq> n_threads d) 5 (V_size (n_threads o')) @
     setting (file_sink_filename o' \<noteq> file_sink_filename d) 6 (V_string (file_sink_filename o')) @
     setting (file_sink_max_files o' \<noteq> file_sink_max_files d) 8 (V_size (file_sink_max_files o')) @
     setting (file_sink_log_level o' \<noteq> file_sink_log_level d) 9 (V_int (file_sink_log_level o')) @
     switch_setting (systemd_sink_use o') 10 @
     setting (systemd_sink_log_level o' \<noteq> systemd_sink_log_level d) 11
       (V_int (systemd_sink_log_level o')) @
     switch_setting (syslog_sink_use o') 12 @
     setting (syslog_sink_log_level o' \<noteq> syslog_sink_log_level d) 13
       (V_int (syslog_sink_log_level o')) @
     switch_setting (eventlog_sink_use o') 14 @
     setting (eventlog_sink_log_level o' \<noteq> eventlog_sink_log_level d) 15
       (V_int (eventlog_sink_log_level o'))"

definition command_line :: "Options \<Rightarrow> Options \<Rightarrow> string list" where
  "command_line d o' =
     concat (map (\<lambda>(k, s, v). spell (run_table d ! k) True s) (option_settings d o'))"

text \<open>
  What a command line can say: texts that are empty only by default, numbers of the type \<^verbatim>\<open>int\<close>.
  The size of the log files is left at its default.
\<close>

definition int_range :: "int \<Rightarrow> bool" where
  "int_range i \<longleftrightarrow> INT_MIN \<le> i \<and> i \<le> INT_MAX"

definition expressible :: "Options \<Rightarrow> Options \<Rightarrow> bool" where
  "expressible d o' \<longleftrightarrow>
     (socket_file o' = [] \<longrightarrow> socket_file d = []) \<and>
     (socket_address o' = [] \<longrightarrow> socket_address d = []) \<and>
     (identity o' = [] \<longrightarrow> identity d = []) \<and>
     (file_sink_filename o' = [] \<longrightarrow> file_sink_filename d = []) \<and>
     file_sink_max_file_size o' = file_sink_max_file_size d \<and>
     int_range (file_sink_log_level o') \<and> int_range (systemd_sink_log_level o') \<and>
     int_range (syslog_sink_log_level o') \<and> int_range (eventlog_sink_log_level o')"

definition setting_ok :: "Options \<Rightarrow> nat \<times> string \<times> val \<Rightarrow> bool" where
  "setting_ok d x \<longleftrightarrow> (case x of (k, s, v) \<Rightarrow>
     k < 16 \<and> accepts (run_table d ! k) s v \<and> can_spell (run_table d ! k) s)"

lemma show_val_nonempty: "has_type ty v \<Longrightarrow> show_val v \<noteq> []"
  by (cases v; cases ty) (simp_all add: show_dec_nonempty show_int_nonempty)

lemma setting_accepted:
  assumes "c \<Longrightarrow> has_type (opt_type (run_table d ! k)) v" and "k < 16"
    and "opt_class (run_table d ! k) = Value"
  shows "\<forall>x \<in> set (setting c k v). setting_ok d x"
proof (cases c)
  case True
  then have t: "has_type (opt_type (run_table d ! k)) v" by (rule assms(1))
  have "accepts (run_table d ! k) (show_val v) v"
    using assms(3) parse_value_show_val [OF t] by (rule accepts_value)
  moreover have "can_spell (run_table d ! k) (show_val v)"
    using assms(3) show_val_nonempty [OF t] by (simp add: can_spell_def argument_type_def)
  ultimately show ?thesis using assms(2) by (simp add: setting_def setting_ok_def)
next
  case False
  then show ?thesis by (simp add: setting_def)
qed

lemma switch_setting_accepted:
  assumes "k < 16" and "opt_class (run_table d ! k) = Switch"
  shows "\<forall>x \<in> set (switch_setting c k). setting_ok d x"
  using assms accepts_switch
  by (simp add: switch_setting_def setting_ok_def can_spell_def argument_type_def)

lemma option_settings_accepted:
  assumes "expressible d o'"
  shows "\<forall>x \<in> set (option_settings d o'). setting_ok d x"
  unfolding option_settings_def set_append ball_Un
  by (intro conjI setting_accepted switch_setting_accepted)
    (use assms in \<open>auto simp: run_table_def expressible_def int_range_def\<close>)


section \<open>How run ends\<close>

lemma default_setup:
  "setup_parser (default_options P) =
     (None, run_parser (default_options P), options_store (default_options P))"
  by (rule setup_parser_run) (simp_all add: default_options_def)

lemma run_parser_sel [simp]:
  "options (run_parser d) = run_table d"
  "parser_description (run_parser d) = ''scriptor - A high-performance logger using unix/tcp sockets''"
  by (simp_all add: run_parser_def new_parser_def)

lemma run_table_bare: "map bare (run_table d) = run_table d"
  by (simp add: run_table_def bare_def value_entry_def switch_entry_def)

lemma run_table_constructed: "constructed (run_table d)"
  by (simp add: constructed_def run_table_def)

lemma run_reports:
  assumes "parse_argv argv (run_parser d) m = (r, p', m')"
  shows "reports (run_table d) (parser_description (run_parser d)) r p' m'"
  using outcome.keeps_parse_argv [OF assms]
  by (simp add: reports_def run_table_bare run_table_constructed)

text \<open>The help depends on the table only.\<close>

lemma argument_bare [simp]:
  "argument_type (bare opt) = argument_type opt" "print_default (bare opt) = print_default opt"
  "option_short_name (bare opt) = option_short_name opt" "visible a (bare opt) = visible a opt"
  by (simp_all add: argument_type_def print_default_def option_short_name_def visible_def)

lemma console_option_bare [simp]: "console_option (bare opt) = console_option opt"
  unfolding console_option_def argument_text_def argument_bare bare_sel ..

lemma console_entry_bare [simp]: "console_entry n (bare opt) = console_entry n opt"
  by (simp add: console_entry_def option_column_def)

lemma help_text_bare:
  assumes "map bare (options p) = map bare (options q)"
    and "parser_description p = parser_description q"
  shows "help_text p = help_text q"
proof -
  have "fold (\<lambda>opt margin. max margin (length (console_option opt) + 2)) (map bare opts) n =
      fold (\<lambda>opt margin. max margin (length (console_option opt) + 2)) opts n" for opts n
    by (induction opts arbitrary: n) simp_all
  then have margin: "right_margin (map bare opts) = right_margin opts" for opts
    by (simp add: right_margin_def)
  have entries: "map (console_entry n) (filter (visible a) (map bare opts)) =
      map (console_entry n) (filter (visible a) opts)" for n a opts
    by (simp add: filter_map comp_def)
  have "console_print (Some (p\<lparr>options := map bare (options p)\<rparr>)) a = console_print (Some p) a" for p a
    by (simp add: console_print_def margin entries)
  moreover have "console_print (Some (p\<lparr>options := T\<rparr>)) a = console_print (Some (q\<lparr>options := T\<rparr>)) a" for T a
    using assms(2) by (simp add: console_print_def)
  ultimately show ?thesis
    using assms(1) by (metis help_text_def parser_help_def print_parser_def)
qed

lemma help_text_run:
  assumes "reports (run_table d) (parser_description (run_parser d)) r p' m'"
  shows "help_text p' = help_text (run_parser d)"
  using assms by (intro help_text_bare) (simp_all add: reports_def run_table_bare)

lemma caught_run:
  assumes "reports T descr (Some f) p' m'" and "1 \<le> help_count p'"
  shows "caught p' f = Exits 0 (help_text p') []"
  using assms by (auto simp: reports_def reported_def invalid_def caught_def)

lemma caught_ends:
  "caught p f = Exits 0 (help_text p) [] \<and> 1 \<le> help_count p \<or> (\<exists>txt. caught p f = fatal txt) \<or>
   (\<exists>u. f = Undef u \<and> caught p f = Undefined u) \<or> (f = Terminated \<and> caught p f = Aborts)"
  by (auto simp: caught_def split: failure.splits exn.splits)

text \<open>The help switch, once given, stays given.\<close>

definition help_given :: "Option list \<Rightarrow> store \<Rightarrow> bool" where
  "help_given opts m \<longleftrightarrow> opts \<noteq> [] \<and> values_list (opts ! 0) \<noteq> []"

interpretation helped: kept_by_values help_given
  by unfold_locales (auto simp: help_given_def nth_list_update)

lemma help_given_count: "help_given (options p) m \<Longrightarrow> 1 \<le> help_count p"
  by (simp add: help_given_def help_count_def option_count_def Suc_le_eq)

lemma find_help:
  "active_option (run_parser d) (find_long (run_parser d) ''help'') = Some 0"
  "active_option (run_parser d) (find_short (run_parser d) (CHR ''h'')) = Some 0"
  by (simp_all add: active_option_def find_long_def find_short_def option_short_name_def run_table_def)

lemma parse_help:
  assumes "arg \<in> {''--help'', ''-h''}" and "parse_argv (prog # arg # args) (run_parser d) m = (r, p', m')"
  shows "1 \<le> help_count p'"
proof -
  have entry: "run_table d ! 0 = switch_entry ''h'' ''help'' ''Display this help message'' None"
    by (simp add: run_table_def)
  define p1 where "p1 = (run_parser d)\<lparr>options := (run_table d)
    [0 := (run_table d ! 0)\<lparr>values_list := [V_bool True]\<rparr>]\<rparr>"
  have at: "parse_at 0 nm [] (run_parser d) m = (None, p1, m)" for nm
    by (simp add: parse_at_def option_parse_def entry p1_def add_value_def update_reference_def)
  have switch: "argument_type (run_table d ! 0) = no_argument" by (simp add: entry argument_type_def)
  have "parse_one arg args (run_parser d) m = ((None, p1, m), args)"
    using assms(1) find_help [of d] at switch
    by (auto simp: parse_one_def starts_with_def parse_long_def split_equal_def parse_short_def)
  moreover obtain r2 p2 m2 where rest: "parse_args args p1 m = (r2, p2, m2)"
    by (metis prod.collapse)
  ultimately have "p' = p2"
    using assms(2) by (cases r2) (auto simp: parse_argv_def parse_args.simps(2) [of arg args])
  moreover have "help_given (options p1) m" by (simp add: p1_def help_given_def run_table_def)
  from helped.keeps_parse_args [OF rest this] have "help_given (options p2) m2" .
  ultimately show ?thesis using help_given_count by blast
qed

lemma run_table_optional: "opt \<in> set (run_table d) \<Longrightarrow> opt_attribute opt = optional"
  by (auto simp: run_table_def)

text \<open>What a list of settings, given as arguments, leaves in the variables.\<close>

lemma parse_settings_run:
  assumes "\<forall>x \<in> set ss. setting_ok d x"
    and "\<not> systemd_sink_use d" and "\<not> syslog_sink_use d" and "\<not> eventlog_sink_use d"
  obtains p' m' where
    "parse_argv (prog # concat (map (\<lambda>(k, s, v). spell (run_table d ! k) True s) ss)) (run_parser d)
       (options_store d) = (None, p', m')"
    and "help_count p' = length (vals 0 ss)"
    and "\<And>k x. k < 16 \<Longrightarrow> assign_ref (run_table d ! k) = Some x \<Longrightarrow>
      m' x = (if vals k ss = [] then default_val (run_table d ! k) else Some (last (vals k ss)))"
proof -
  let ?p = "run_parser d" and ?m = "options_store d"
  let ?ss = "map (\<lambda>(k, s, v). (k, True, s)) ss"
  have acc: "\<forall>(k, s, v) \<in> set ss. k < length (options ?p) \<and> accepts (options ?p ! k) s v"
    using assms(1) by (auto simp: setting_ok_def)
  obtain p' m' where done_ss: "apply_settings (map (\<lambda>(k, s, v). (k, s)) ss) ?p ?m = (None, p', m')"
    and bare: "map bare (options p') = map bare (options ?p)"
    and vals: "\<forall>k < length (options ?p). values_list (options p' ! k) = values_list (options ?p ! k) @ vals k ss"
    using apply_settings_values [OF acc, of ?m] by blast
  have can: "\<forall>(k, joined, s) \<in> set ?ss. k < length (options ?p) \<and> can_spell (options ?p ! k) s"
    using assms(1) by (auto simp: setting_ok_def)
  have named: "named_table (options ?p)" using run_table_named by simp
  have zip: "map (\<lambda>(k, joined, s). (k, s)) ?ss = map (\<lambda>(k, s, v). (k, s)) ss"
    "map (\<lambda>(k, joined, s). spell (options ?p ! k) joined s) ?ss =
       map (\<lambda>(k, s, v). spell (run_table d ! k) True s) ss"
    by (simp_all add: comp_def case_prod_beta)
  have args: "parse_args (concat (map (\<lambda>(k, s, v). spell (run_table d ! k) True s) ss)) ?p ?m = (None, p', m')"
    using parse_args_spelled [OF named can, of ?m] done_ss unfolding zip by simp
  have "opt_attribute opt = optional" if "opt \<in> set (options p')" for opt
  proof -
    have "bare opt \<in> set (run_table d)" using bare that by (metis image_eqI run_parser_sel(1) run_table_bare set_map)
    then have "opt_attribute (bare opt) = optional" using run_table_optional by blast
    then show ?thesis by simp
  qed
  then have "check_required opts = None" if "set opts \<subseteq> set (options p')" for opts
    using that by (induction opts) auto
  then have parse: "parse_argv (prog # concat (map (\<lambda>(k, s, v). spell (run_table d ! k) True s) ss)) ?p ?m =
      (None, p', m')"
    using args by (simp add: parse_argv_def)
  have empty: "values_list (run_table d ! k) = []" if "k < 16" for k
    using that run_table_bare [of d] by (metis bare_sel(9) nth_map run_table_length)
  then have vals': "values_list (options p' ! k) = vals k ss" if "k < 16" for k
    using vals that by simp
  have tr: "tracking (options p') m'"
    using follow.keeps_parse_args [OF args] run_table_tracking [OF assms(2-4)] by simp
  have len: "length (options p') = 16" using bare by (metis length_map run_parser_sel(1) run_table_length)
  have vars: "m' x = (if vals k ss = [] then default_val (run_table d ! k) else Some (last (vals k ss)))"
    if k: "k < 16" "assign_ref (run_table d ! k) = Some x" for k x
  proof -
    have "bare (options p' ! k) = run_table d ! k"
      using bare k(1) len by (metis nth_map run_parser_sel(1) run_table_bare)
    then have "assign_ref (options p' ! k) = Some x" "default_val (options p' ! k) = default_val (run_table d ! k)"
      using k(2) by (metis bare_sel(8), metis bare_sel(7))
    moreover have "tracks (options p' ! k) m'" using tr k(1) len by (simp add: tracking_def)
    ultimately show ?thesis
      using vals' [OF k(1)] by (simp add: tracks_def current_val_def is_set_def)
  qed
  show thesis
    by (rule that [OF parse _ vars]) (simp_all add: help_count_def option_count_def vals')
qed

lemma run_table_at:
  "assign_ref (run_table d ! 1) = Some ''socket_file''" "default_val (run_table d ! 1) = Some (V_string (socket_file d))"
  "assign_ref (run_table d ! 2) = Some ''socket_address''" "default_val (run_table d ! 2) = Some (V_string (socket_address d))"
  "assign_ref (run_table d ! 3) = Some ''socket_port''" "default_val (run_table d ! 3) = Some (V_uint16 (socket_port d))"
  "assign_ref (run_table d ! 4) = Some ''identity''" "default_val (run_table d ! 4) = Some (V_string (identity d))"
  "assign_ref (run_table d ! 5) = Some ''n_threads''" "default_val (run_table d ! 5) = Some (V_size (n_threads d))"
  "assign_ref (run_table d ! 6) = Some ''file_sink_filename''" "default_val (run_table d ! 6) = Some (V_string (file_sink_filename d))"
  "assign_ref (run_table d ! 7) = Some ''file_sink_max_file_size''" "default_val (run_table d ! 7) = Some (V_double (file_sink_max_file_size d))"
  "assign_ref (run_table d ! 8) = Some ''file_sink_max_files''" "default_val (run_table d ! 8) = Some (V_size (file_sink_max_files d))"
  "assign_ref (run_table d ! 9) = Some ''file_sink_log_level''" "default_val (run_table d ! 9) = Some (V_int (file_sink_log_level d))"
  "assign_ref (run_table d ! 10) = Some ''systemd_sink_use''" "default_val (run_table d ! 10) = Some (V_bool False)"
  "assign_ref (run_table d ! 11) = Some ''systemd_sink_log_level''" "default_val (run_table d ! 11) = Some (V_int (systemd_sink_log_level d))"
  "assign_ref (run_table d ! 12) = Some ''syslog_sink_use''" "default_val (run_table d ! 12) = Some (V_bool False)"
  "assign_ref (run_table d ! 13) = Some ''syslog_sink_log_level''" "default_val (run_table d ! 13) = Some (V_int (syslog_sink_log_level d))"
  "assign_ref (run_table d ! 14) = Some ''eventlog_sink_use''" "default_val (run_table d ! 14) = Some (V_bool False)"
  "assign_ref (run_table d ! 15) = Some ''eventlog_sink_log_level''" "default_val (run_table d ! 15) = Some (V_int (eventlog_sink_log_level d))"
  by (simp_all add: run_table_def)

lemma vals_setting [simp]:
  "vals k (setting c j v) = (if c \<and> j = k then [v] else [])"
  "vals k (switch_setting c j) = (if c \<and> j = k then [V_bool True] else [])"
  by (simp_all add: setting_def switch_setting_def)

lemma vals_option_settings:
  "vals 0 (option_settings d o') = []"
  "vals 1 (option_settings d o') =
     (if socket_file o' \<noteq> socket_file d then [V_string (socket_file o')] else [])"
  "vals 2 (option_settings d o') =
     (if socket_address o' \<noteq> socket_address d then [V_string (socket_address o')] else [])"
  "vals 3 (option_settings d o') =
     (if socket_port o' \<noteq> socket_port d then [V_uint16 (socket_port o')] else [])"
  "vals 4 (option_settings d o') =
     (if identity o' \<noteq> identity d then [V_string (identity o')] else [])"
  "vals 5 (option_settings d o') =
     (if n_threads o' \<noteq> n_threads d then [V_size (n_threads o')] else [])"
  "vals 6 (option_settings d o') =
     (if file_sink_filename o' \<noteq> file_sink_filename d then [V_string (file_sink_filename o')] else [])"
  "vals 7 (option_settings d o') = []"
  "vals 8 (option_settings d o') =
     (if file_sink_max_files o' \<noteq> file_sink_max_files d then [V_size (file_sink_max_files o')] else [])"
  "vals 9 (option_settings d o') =
     (if file_sink_log_level o' \<noteq> file_sink_log_level d then [V_int (file_sink_log_level o')] else [])"
  "vals 10 (option_settings d o') = (if systemd_sink_use o' then [V_bool True] else [])"
  "vals 11 (option_settings d o') =
     (if systemd_sink_log_level o' \<noteq> systemd_sink_log_level d then [V_int (systemd_sink_log_level o')] else [])"
  "vals 12 (option_settings d o') = (if syslog_sink_use o' then [V_bool True] else [])"
  "vals 13 (option_settings d o') =
     (if syslog_sink_log_level o' \<noteq> syslog_sink_log_level d then [V_int (syslog_sink_log_level o')] else [])"
  "vals 14 (option_settings d o') = (if eventlog_sink_use o' then [V_bool True] else [])"
  "vals 15 (option_settings d o') =
     (if eventlog_sink_log_level o' \<noteq> eventlog_sink_log_level d then [V_int (eventlog_sink_log_level o')] else [])"
  by (simp_all add: option_settings_def)

lemma option_settings_vars:
  assumes "file_sink_max_file_size o' = file_sink_max_file_size d"
    and vars: "\<And>k x. k < 16 \<Longrightarrow> assign_ref (run_table d ! k) = Some x \<Longrightarrow>
      m x = (if vals k (option_settings d o') = [] then default_val (run_table d ! k)
        else Some (last (vals k (option_settings d o'))))"
  shows "options_of m = o'"
proof -
  have v1: "m ''socket_file'' = Some (V_string (socket_file o'))"
    using vars [of 1] by (simp add: run_table_at vals_option_settings assms(1) del: One_nat_def)
  have v2: "m ''socket_address'' = Some (V_string (socket_address o'))"
    using vars [of 2] by (simp add: run_table_at vals_option_settings assms(1) del: One_nat_def)
  have v3: "m ''socket_port'' = Some (V_uint16 (socket_port o'))"
    using vars [of 3] by (simp add: run_table_at vals_option_settings assms(1) del: One_nat_def)
  have v4: "m ''identity'' = Some (V_string (identity o'))"
    using vars [of 4] by (simp add: run_table_at vals_option_settings assms(1) del: One_nat_def)
  have v5: "m ''n_threads'' = Some (V_size (n_threads o'))"
    using vars [of 5] by (simp add: run_table_at vals_option_settings assms(1) del: One_nat_def)
  have v6: "m ''file_sink_filename'' = Some (V_string (file_sink_filename o'))"
    using vars [of 6] by (simp add: run_table_at vals_option_settings assms(1) del: One_nat_def)
  have v7: "m ''file_sink_max_file_size'' = Some (V_double (file_sink_max_file_size o'))"
    using vars [of 7] by (simp add: run_table_at vals_option_settings assms(1) del: One_nat_def)
  have v8: "m ''file_sink_max_files'' = Some (V_size (file_sink_max_files o'))"
    using vars [of 8] by (simp add: run_table_at vals_option_settings assms(1) del: One_nat_def)
  have v9: "m ''file_sink_log_level'' = Some (V_int (file_sink_log_level o'))"
    using vars [of 9] by (simp add: run_table_at vals_option_settings assms(1) del: One_nat_def)
  have v10: "m ''systemd_sink_use'' = Some (V_bool (systemd_sink_use o'))"
    using vars [of 10] by (simp add: run_table_at vals_option_settings assms(1) del: One_nat_def)
  have v11: "m ''systemd_sink_log_level'' = Some (V_int (systemd_sink_log_level o'))"
    using vars [of 11] by (simp add: run_table_at vals_option_settings assms(1) del: One_nat_def)
  have v12: "m ''syslog_sink_use'' = Some (V_bool (syslog_sink_use o'))"
    using vars [of 12] by (simp add: run_table_at vals_option_settings assms(1) del: One_nat_def)
  have v13: "m ''syslog_sink_log_level'' = Some (V_int (syslog_sink_log_level o'))"
    using vars [of 13] by (simp add: run_table_at vals_option_settings assms(1) del: One_nat_def)
  have v14: "m ''eventlog_sink_use'' = Some (V_bool (eventlog_sink_use o'))"
    using vars [of 14] by (simp add: run_table_at vals_option_settings assms(1) del: One_nat_def)
  have v15: "m ''eventlog_sink_log_level'' = Some (V_int (eventlog_sink_log_level o'))"
    using vars [of 15] by (simp add: run_table_at vals_option_settings assms(1) del: One_nat_def)
  show ?thesis
    by (cases o') (simp add: options_of_def string_at_def int_at_def bool_at_def size_at_def port_at_def
      double_at_def v1 v2 v3 v4 v5 v6 v7 v8 v9 v10 v11 v12 v13 v14 v15)
qed

lemma run_command_line:
  assumes "expressible d o'" and "d = default_options P"
  obtains p' m' where
    "parse_argv (prog # command_line d o') (run_parser d) (options_store d) = (None, p', m')"
    and "options_of m' = o'" and "help_count p' = 0"
proof -
  have off: "\<not> systemd_sink_use d" "\<not> syslog_sink_use d" "\<not> eventlog_sink_use d"
    using assms(2) by (simp_all add: default_options_def)
  obtain p' m' where all: "parse_argv (prog # command_line d o') (run_parser d) (options_store d) = (None, p', m')"
    and count: "help_count p' = length (vals 0 (option_settings d o'))"
    and vars: "\<And>k x. k < 16 \<Longrightarrow> assign_ref (run_table d ! k) = Some x \<Longrightarrow>
      m' x = (if vals k (option_settings d o') = [] then default_val (run_table d ! k)
        else Some (last (vals k (option_settings d o'))))"
    using parse_settings_run [OF option_settings_accepted [OF assms(1)] off, of prog]
    unfolding command_line_def by blast
  have "options_of m' = o'"
    by (rule option_settings_vars [OF _ vars]) (use assms(1) in \<open>simp_all add: expressible_def\<close>)
  then show thesis using all count that by (simp add: vals_option_settings)
qed

lemma run_setup_command_line:
  assumes "expressible (default_options P) opt" and "remove_socket fs (socket_file opt) = None"
  obtains p where "run_setup P fs (prog # command_line (default_options P) opt) = Inr (p, opt)"
proof -
  obtain p' m' where all: "parse_argv (prog # command_line (default_options P) opt)
      (run_parser (default_options P)) (options_store (default_options P)) = (None, p', m')"
    and opt: "options_of m' = opt" and count: "help_count p' = 0"
    using run_command_line [OF assms(1) refl, of prog] by blast
  show thesis using assms(2) that by (simp add: run_setup_def default_setup all opt count)
qed

lemma run_start_command_line:
  assumes "expressible (default_options P) opt" and "remove_socket fs (socket_file opt) = None"
    and "new_server sys S opt = (None, v)"
  shows "run_start P sys S fs (prog # command_line (default_options P) opt) = Inr v"
  by (rule run_setup_command_line [OF assms(1,2), of prog]) (simp add: run_start_def assms(3))

lemma sample_expressible: "expressible (default_options sample_platform) sample_options"
  by (simp add: expressible_def sample_options_def default_options_def int_range_def INT_MIN_def INT_MAX_def)

lemma sample_socket_removed: "remove_socket sample_fs (socket_file sample_options) = None"
  by (simp add: remove_socket_def sample_fs_def)

lemma run_undefined:
  assumes "parse_argv argv (run_parser (default_options P)) (options_store (default_options P)) = (None, p', m')"
    and "help_count p' = 0" and "remove_socket fs (socket_file (options_of m')) = None"
    and "fst (new_server sys S (options_of m')) = Some (Undef u)"
  shows "run_start P sys S fs argv = Inl (Undefined u)"
proof -
  obtain v where "new_server sys S (options_of m') = (Some (Undef u), v)"
    using assms(4) by (cases "new_server sys S (options_of m')") auto
  then show ?thesis
    using assms(1-3) by (simp add: run_start_def run_setup_def default_setup caught_def)
qed

text \<open>How the main thread can end before there is a server to construct.\<close>

lemma run_setup_help:
  assumes "arg \<in> {''--help'', ''-h''}"
  shows "run_setup P fs (prog # arg # args) =
    Inl (Exits 0 (help_text (run_parser (default_options P))) [])"
proof -
  let ?d = "default_options P"
  obtain r p' m' where all: "parse_argv (prog # arg # args) (run_parser ?d) (options_store ?d) = (r, p', m')"
    by (metis prod.collapse)
  note count = parse_help [OF assms all] and rep = run_reports [OF all]
  note helptext = help_text_run [OF rep]
  show ?thesis
    using count helptext caught_run [OF _ count, of "run_table ?d" "parser_description (run_parser ?d)"] rep
    by (cases r) (simp_all add: run_setup_def default_setup all)
qed

definition library_failures ::
    "file_system \<Rightarrow> ('a, 's) services \<Rightarrow> failure set" where
  "library_failures fs S =
     {f. \<exists>x. fs_exists fs x = Inl f} \<union> {f. \<exists>x. fs_remove fs x = Some f} \<union>
     (\<Union>opt. constructor_failures S opt)"

definition ends_early :: "platform \<Rightarrow> file_system \<Rightarrow> ('a, 's) services \<Rightarrow> run_end \<Rightarrow> bool" where
  "ends_early P fs S e \<longleftrightarrow>
     e = Exits 0 (help_text (run_parser (default_options P))) [] \<or>
     (\<exists>txt. e = Exits 1 [] (''Fatal Error: '' @ txt @ [newline])) \<or>
     (\<exists>u. e = Undefined u \<and> Undef u \<in> library_failures fs S) \<or>
     (e = Aborts \<and> Terminated \<in> library_failures fs S)"

lemma caught_early:
  assumes "help_text p = help_text (run_parser (default_options P))"
    and "f \<in> library_failures fs S \<or> (\<exists>ex. f = Raise ex)"
  shows "ends_early P fs S (caught p f)"
  using caught_ends [of p f] assms by (auto simp: ends_early_def fatal_def)

lemma run_setup_ends:
  assumes "run_setup P fs argv = r"
  shows "(\<exists>e. r = Inl e \<and> ends_early P fs S e) \<or>
    (\<exists>p opt. r = Inr (p, opt) \<and> help_text p = help_text (run_parser (default_options P)) \<and>
       \<not> 1 \<le> help_count p)"
proof -
  let ?d = "default_options P"
  obtain q p' m' where all: "parse_argv argv (run_parser ?d) (options_store ?d) = (q, p', m')"
    by (metis prod.collapse)
  note rep = run_reports [OF all]
  note helptext = help_text_run [OF rep]
  note early = caught_early [OF helptext, of _ fs S]
  have raised: "\<exists>ex. f = Raise ex" if "q = Some f" for f
    using rep that by (auto simp: reports_def reported_def invalid_def)
  show ?thesis
  proof (cases q)
    case (Some f)
    then show ?thesis using early [of f] raised [of f] assms by (auto simp: run_setup_def default_setup all)
  next
    case None
    have removed: "f \<in> library_failures fs S" if "remove_socket fs x = Some f" for f x
      using that by (auto simp: remove_socket_def library_failures_def split: sum.splits if_splits)
    show ?thesis
    proof (cases "remove_socket fs (socket_file (options_of m'))")
      case rm: None
      then show ?thesis
        using None assms helptext
        by (auto simp: run_setup_def default_setup all Let_def ends_early_def split: if_splits)
    next
      case (Some f)
      then show ?thesis
        using None assms helptext early [of f] removed [OF Some]
        by (auto simp: run_setup_def default_setup all Let_def ends_early_def split: if_splits)
    qed
  qed
qed

text \<open>Reading a variable as a value of a type.\<close>

fun read_at :: "val_type \<Rightarrow> store \<Rightarrow> string \<Rightarrow> val" where
  "read_at T_string m x = V_string (string_at m x)"
| "read_at T_bool m x = V_bool (bool_at m x)"
| "read_at T_uint16 m x = V_uint16 (port_at m x)"
| "read_at T_size m x = V_size (size_at m x)"
| "read_at T_int m x = V_int (int_at m x)"
| "read_at T_double m x = V_double (double_at m x)"

lemma read_at_typed: "m x = Some v \<Longrightarrow> type_of_val v = ty \<Longrightarrow> m x = Some (read_at ty m x)"
  by (cases v; cases ty)
    (simp_all add: string_at_def int_at_def bool_at_def size_at_def port_at_def double_at_def)

lemma run_table_reads:
  "\<forall>opt \<in> set (run_table d). \<forall>y. assign_ref opt = Some y \<longrightarrow>
     options_store (options_of m) y = Some (read_at (opt_type opt) m y)"
  by (simp add: run_table_def options_store_def options_of_def switch_entry_def)

lemma run_table_covers:
  "x \<in> dom (options_store d) \<Longrightarrow> \<exists>opt \<in> set (run_table d). assign_ref opt = Some x"
  by (auto simp: run_table_def options_store_def split: if_splits)

lemma run_table_well_typed:
  assumes "\<not> systemd_sink_use d" and "\<not> syslog_sink_use d" and "\<not> eventlog_sink_use d"
  shows "well_typed (run_table d) (options_store d)"
proof -
  have "\<forall>opt \<in> set (run_table d). typed_option opt \<and> typed_var (options_store d) opt"
    by (simp add: run_table_def typed_option_def typed_var_def value_entry_def switch_entry_def
        options_store_def)
  moreover have "distinct_refs (run_table d)"
    using run_table_tracking [OF assms] by (simp add: tracking_def)
  then have "opt_type a = opt_type b"
    if "a \<in> set (run_table d)" "b \<in> set (run_table d)" "assign_ref a = Some y" "assign_ref b = Some y" for a b y
    using that unfolding distinct_refs_def in_set_conv_nth by (metis option.distinct(1))
  ultimately show ?thesis unfolding well_typed_def by blast
qed

lemma recorded_run [simp]:
  "help_count (recorded ns us p) = help_count p" "help_text (recorded ns us p) = help_text p"
  "caught (recorded ns us p) f = caught p f"
proof -
  show count: "help_count (recorded ns us p) = help_count p" by (simp add: help_count_def)
  show shown: "help_text (recorded ns us p) = help_text p" by (rule help_text_bare) simp_all
  show "caught (recorded ns us p) f = caught p f" unfolding caught_def count shown ..
qed

lemma run_setup_ignores_unknown:
  assumes "\<forall>arg \<in> set xs. unknown_long (run_table (default_options P)) arg \<or> non_option arg"
  obtains ns us where "run_setup P fs (prog # xs @ args) =
    map_sum id (\<lambda>(p, opt). (recorded ns us p, opt)) (run_setup P fs (prog # args))"
proof -
  let ?d = "default_options P"
  obtain r p' m' where rest: "parse_args args (run_parser ?d) (options_store ?d) = (r, p', m')"
    by (metis prod.collapse)
  have empty: "non_option_args (run_parser ?d) = []" "unknown_options (run_parser ?d) = []"
    by (simp_all add: run_parser_def new_parser_def)
  obtain ns us where "parse_args (xs @ args) (run_parser ?d) (options_store ?d) = (r, recorded ns us p', m')"
    using unknown_arguments_recorded [OF _ empty rest, of xs] assms by (auto simp: recorded_def)
  then have "run_setup P fs (prog # xs @ args) =
    map_sum id (\<lambda>(p, opt). (recorded ns us p, opt)) (run_setup P fs (prog # args))"
    using rest
    by (cases r) (simp_all add: run_setup_def default_setup parse_argv_def Let_def split: option.split prod.split)
  then show thesis by (rule that)
qed

section \<open>Properties\<close>

text \<open>C14. Options and command lines: for all options that a command line can express, the arguments
  that spell those which differ from the defaults (every text, port, count and level, and every
  switch) are parsed without an exception, and the variables of \<^verbatim>\<open>run\<close> then hold exactly these
  options.\<close>

theorem run_options_roundtrip:
  assumes "expressible (default_options P) opt"
  shows "\<exists>p m p' m'. setup_parser (default_options P) = (None, p, m) \<and>
    parse_argv (prog # command_line (default_options P) opt) p m = (None, p', m') \<and>
    options_of m' = opt"
proof -
  obtain p' m' where "parse_argv (prog # command_line (default_options P) opt)
      (run_parser (default_options P)) (options_store (default_options P)) = (None, p', m')"
    and "options_of m' = opt"
    using run_command_line [OF assms refl, of prog] by metis
  then show ?thesis by (intro exI conjI) (rule default_setup)
qed

theorem run_options_roundtrip_witness:
  "\<exists>p m p' m'. setup_parser (default_options sample_platform) = (None, p, m) \<and>
    parse_argv [''scriptor'', ''--socket_file=/tmp/log.sock'', ''--socket_address=127.0.0.1'',
       ''--threads=3'', ''--syslog_logging'', ''--syslog_level=-1''] p m = (None, p', m') \<and>
    options_of m' = sample_options\<lparr>syslog_sink_log_level := - 1\<rparr>"
proof -
  let ?d = "default_options sample_platform" and ?o = "sample_options\<lparr>syslog_sink_log_level := - 1\<rparr>"
  have e: "expressible ?d ?o"
    by (simp add: expressible_def sample_options_def default_options_def int_range_def INT_MIN_def INT_MAX_def)
  have args: "command_line ?d ?o = [''--socket_file=/tmp/log.sock'', ''--socket_address=127.0.0.1'',
       ''--threads=3'', ''--syslog_logging'', ''--syslog_level=-1'']"
    by code_simp
  show ?thesis using run_options_roundtrip [OF e, of "''scriptor''"] unfolding args by simp
qed

text \<open>A negative size for the log files is accepted from the command line and then converted to
  an unsigned integer, which is undefined.\<close>

theorem negative_file_size_undefined:
  assumes "s \<noteq> []" and "f \<noteq> []" and "remove_socket fs s = None"
    and "open_listener S (UnixAcceptor s) = None"
  shows "run_start P sys S fs
      [prog, ''--socket_file='' @ s, ''--filelog_filename='' @ f, ''--filelog_max_file_mb=-1''] =
    Inl (Undefined Float_to_int_overflow)"
proof -
  let ?d = "default_options P" and ?x = "Fin (- 4503599627370496) (- 52)"
  let ?ss = "[(1, s, V_string s), (6, f, V_string f), (7, ''-1'', V_double ?x)]"
  have "read_loop T_double (istringstream ''-1'') None 0 =
      (\<lparr>unread = [], eofbit = True, failbit = False\<rparr>, Some (V_double ?x), 1)"
    by code_simp
  then have size: "parse_value (run_table ?d ! 7) long_name ''-1'' = Inr (V_double ?x)"
    by (simp add: parse_value_def parse_number_def run_table_def)
  have ok: "\<forall>y \<in> set ?ss. setting_ok ?d y"
    using assms(1,2) size
    by (auto simp: setting_ok_def can_spell_def argument_type_def run_table_def parse_value_def
        parse_string_def intro!: accepts_value)
  have args: "concat (map (\<lambda>(k, s, v). spell (run_table ?d ! k) True s) ?ss) =
      [''--socket_file='' @ s, ''--filelog_filename='' @ f, ''--filelog_max_file_mb=-1'']"
    using assms(1,2) by (simp add: spell_def run_table_def argument_type_def Let_def)
  obtain p' m' where all: "parse_argv [prog, ''--socket_file='' @ s, ''--filelog_filename='' @ f,
      ''--filelog_max_file_mb=-1''] (run_parser ?d) (options_store ?d) = (None, p', m')"
    and count: "help_count p' = 0"
    and vars: "\<And>k x. k < 16 \<Longrightarrow> assign_ref (run_table ?d ! k) = Some x \<Longrightarrow>
      m' x = (if vals k ?ss = [] then default_val (run_table ?d ! k) else Some (last (vals k ?ss)))"
    using parse_settings_run [OF ok, of prog] unfolding args
    by (auto simp: default_options_def)
  let ?o = "options_of m'"
  have o: "socket_file ?o = s" "socket_address ?o = []" "file_sink_filename ?o = f"
      "file_sink_max_file_size ?o = ?x"
    using vars [of 1] vars [of 2] vars [of 6] vars [of 7]
    by (simp_all add: options_of_def string_at_def double_at_def run_table_at default_options_def del: One_nat_def)
  have "double_to_int 0 (2 ^ 64 - 1) (double_mul ?x (double_of_int 1000000)) = Inl (Undef Float_to_int_overflow)"
    by code_simp
  then have "max_file_bytes ?o = Inl (Undef Float_to_int_overflow)" by (simp add: max_file_bytes_def o)
  then have "fst (new_server sys S ?o) = Some (Undef Float_to_int_overflow)"
    using assms(1,2,4) by (simp add: new_server_def server_ctor_def ctor_then_def setup_defs add_acceptor_def empty_server_def o)
  then show ?thesis using run_undefined [OF all count] assms(3) o(1) by simp
qed

theorem negative_file_size_undefined_witness:
  "run_start sample_platform Linux sample_services sample_fs
     [''scriptor'', ''--socket_file=/tmp/log.sock'', ''--filelog_filename=app.log'',
      ''--filelog_max_file_mb=-1''] = Inl (Undefined Float_to_int_overflow)"
  using negative_file_size_undefined [of "''/tmp/log.sock''" "''app.log''" sample_fs sample_services]
  by (simp add: remove_socket_def sample_fs_def sample_services_def)

text \<open>After parsing any command line, one that is rejected included, the fifteen variables of
  \<^verbatim>\<open>run\<close> are set and of the declared types: reading the options back from them loses nothing.\<close>

theorem run_variables_complete:
  assumes "setup_parser (default_options P) = (None, p, m)" and "parse_argv argv p m = (r, p', m')"
    and "x \<in> dom m"
  shows "m' x = options_store (options_of m') x"
proof -
  let ?d = "default_options P"
  have p: "p = run_parser ?d" and m: "m = options_store ?d" using assms(1) default_setup [of P] by simp_all
  note all = assms(2) [unfolded p m]
  have "well_typed (run_table ?d) (options_store ?d)"
    by (rule run_table_well_typed) (simp_all add: default_options_def)
  then have wt: "well_typed (options p') m'"
    using types.keeps_parse_argv [OF all] by simp
  have bare: "map bare (options p') = run_table ?d" using run_reports [OF all] by (simp add: reports_def)
  obtain opt where opt: "opt \<in> set (run_table ?d)" "assign_ref opt = Some x"
    using assms(3) run_table_covers unfolding m by blast
  obtain o' where o': "o' \<in> set (options p')" "opt = bare o'" using opt(1) unfolding bare [symmetric] by auto
  have "typed_var m' o'" using wt o'(1) unfolding well_typed_def by blast
  then obtain v where "m' x = Some v" "type_of_val v = opt_type opt"
    using opt(2) o'(2) by (auto simp: typed_var_def)
  then have "m' x = Some (read_at (opt_type opt) m' x)" by (rule read_at_typed)
  then show ?thesis using run_table_reads [of ?d m'] opt by simp
qed

theorem run_variables_complete_witness:
  "\<exists>p m p' m'. setup_parser (default_options sample_platform) = (None, p, m) \<and>
     parse_argv [''scriptor'', ''--threads=8'', ''--socket_port=http''] p m = (p', m') \<and>
     snd m' ''n_threads'' = options_store (options_of (snd m')) ''n_threads''"
proof -
  let ?d = "default_options sample_platform"
  let ?r = "parse_argv [''scriptor'', ''--threads=8'', ''--socket_port=http''] (run_parser ?d) (options_store ?d)"
  obtain r p' m' where r: "?r = (r, p', m')" by (metis prod.collapse)
  have "''n_threads'' \<in> dom (options_store ?d)" by (simp add: options_store_def)
  from run_variables_complete [OF default_setup r this] show ?thesis
    using default_setup [of sample_platform] r by (metis snd_conv)
qed

end
