(* ===== verification/Program.thy ===== *)
theory Program
  imports Server_Liveness Scriptor_Run
begin

text \<open>
  The program from the construction of the server to its exit: the main thread in the last part
  of \<^verbatim>\<open>run\<close> (\<^verbatim>\<open>src/src/scriptor.cpp\<close>), the signal handler and \<^verbatim>\<open>main\<close>
  (\<^verbatim>\<open>src/src/main.cpp\<close>) and the server with all its threads (\<open>Server_Run\<close>) take steps in any
  order. The destructor of the server starts when the main thread has left the loop, and not
  before. \<open>run\<close> and \<open>main\<close> are relations between the arguments, the signals and every way the
  program can end, those in which another thread ends it included. The theory shows that the
  program returns after a signal and only then, what it has written by then, and that no input of
  a client ends it.
\<close>

section \<open>State and steps\<close>

text \<open>
  The main thread: in the loop; leaving the \<^verbatim>\<open>try\<close> block, which destroys the server; returned
  with exit code 0. \<open>signalled\<close> is a history: the signals since \<open>g_signal\<close> was set to zero.
\<close>

datatype main_state = Polling | Unwinding | Returned

record ('a, 's) program =
  prog_sys :: "('a, 's) server_sys"
  g_signal :: int
  main_at :: main_state
  signalled :: "posix_signal list"

definition prog_start ::
    "('a, 's) Server \<Rightarrow> world \<Rightarrow> posix_signal list \<Rightarrow> ('a, 's) program" where
  "prog_start v w signals =
     \<lparr>prog_sys = start_sys v w, g_signal = arrive signals 0, main_at = Polling, signalled = signals\<rparr>"

definition on_signal :: "posix_signal \<Rightarrow> ('a, 's) program \<Rightarrow> ('a, 's) program" where
  "on_signal s p = p\<lparr>g_signal := signal_handler (signal_num s) (g_signal p), signalled := signalled p @ [s]\<rparr>"

definition poll :: "('a, 's) program \<Rightarrow> ('a, 's) program" where
  "poll p = (if g_signal p = 0 then p else p\<lparr>main_at := Unwinding\<rparr>)"

inductive program_step ::
    "'j json_ops \<Rightarrow> platform \<Rightarrow> (sink_spec \<Rightarrow> int \<Rightarrow> 's sink_ops) \<Rightarrow>
     ('a, 's) program \<Rightarrow> ('a, 's) program \<Rightarrow> bool" for J P ops where
  signals: "main_at p \<noteq> Returned \<Longrightarrow> program_step J P ops p (on_signal s p)"
| polls: "main_at p = Polling \<Longrightarrow> program_step J P ops p (poll p)"
| serves: "main_at p \<noteq> Returned \<Longrightarrow> server_step J P ops (prog_sys p) y \<Longrightarrow>
     (main_at p = Polling \<Longrightarrow> server_phase y = Serving) \<Longrightarrow>
     program_step J P ops p (p\<lparr>prog_sys := y\<rparr>)"
| returns: "main_at p = Unwinding \<Longrightarrow>
     server_phase (prog_sys p) = Clearing (length (m_loggers (server (prog_sys p)))) \<Longrightarrow>
     program_step J P ops p (p\<lparr>main_at := Returned\<rparr>)"

inductive program_reachable ::
    "'j json_ops \<Rightarrow> platform \<Rightarrow> (sink_spec \<Rightarrow> int \<Rightarrow> 's sink_ops) \<Rightarrow>
     ('a, 's) program \<Rightarrow> ('a, 's) program \<Rightarrow> bool" for J P ops where
  begun: "program_reachable J P ops p p"
| continued: "program_reachable J P ops p q \<Longrightarrow> \<not> terminated (prog_sys q) \<Longrightarrow>
     program_step J P ops q q' \<Longrightarrow> program_reachable J P ops p q'"

text \<open>
  The steps by which the program goes on towards its end: those of the server that \<open>server_work\<close>
  names, the poll that finds a signal, the call of the destructor, and the return.
\<close>

inductive program_work ::
    "(sink_spec \<Rightarrow> int \<Rightarrow> 's sink_ops) \<Rightarrow> ('a, 's) program \<Rightarrow> ('a, 's) program \<Rightarrow> bool" for ops
  where
  leave_work: "main_at p = Polling \<Longrightarrow> g_signal p \<noteq> 0 \<Longrightarrow> program_work ops p (poll p)"
| serve_work: "main_at p \<noteq> Returned \<Longrightarrow> server_work ops (prog_sys p) y \<Longrightarrow>
     program_work ops p (p\<lparr>prog_sys := y\<rparr>)"
| stop_work: "main_at p = Unwinding \<Longrightarrow> server_phase (prog_sys p) = Serving \<Longrightarrow>
     program_work ops p (p\<lparr>prog_sys := (prog_sys p)\<lparr>server := (server (prog_sys p))\<lparr>ioc_stopped := True\<rparr>,
       server_phase := Stopping\<rparr>\<rparr>)"
| return_work: "main_at p = Unwinding \<Longrightarrow>
     server_phase (prog_sys p) = Clearing (length (m_loggers (server (prog_sys p)))) \<Longrightarrow>
     program_work ops p (p\<lparr>main_at := Returned\<rparr>)"

section \<open>What the steps keep\<close>

lemma signal_num_nonzero: "signal_num s \<noteq> 0"
  by (cases s) simp_all

lemma arrive_snoc: "arrive (ss @ [s]) g = signal_handler (signal_num s) (arrive ss g)"
  by (simp add: arrive_def)

definition main_inv :: "('a, 's) program \<Rightarrow> bool" where
  "main_inv p \<longleftrightarrow> g_signal p = arrive (signalled p) 0 \<and>
     (main_at p = Polling \<longrightarrow> server_phase (prog_sys p) = Serving) \<and>
     (main_at p \<noteq> Polling \<longrightarrow> g_signal p \<noteq> 0) \<and>
     (main_at p = Returned \<longrightarrow>
        server_phase (prog_sys p) = Clearing (length (m_loggers (server (prog_sys p)))))"

lemma on_signal_sel [simp]:
  "prog_sys (on_signal s p) = prog_sys p" "main_at (on_signal s p) = main_at p"
  "signalled (on_signal s p) = signalled p @ [s]" "g_signal (on_signal s p) = signal_num s"
  by (simp_all add: on_signal_def signal_handler_def stop_def)

lemma poll_sel [simp]:
  "prog_sys (poll p) = prog_sys p" "g_signal (poll p) = g_signal p" "signalled (poll p) = signalled p"
  "main_at (poll p) = (if g_signal p = 0 then main_at p else Unwinding)"
  by (simp_all add: poll_def)

lemma program_step_main_inv: "program_step J P ops p q \<Longrightarrow> main_inv p \<Longrightarrow> main_inv q"
proof (induction rule: program_step.induct)
  case (signals p s)
  then show ?case
    by (simp add: main_inv_def arrive_snoc signal_num_nonzero) (simp add: signal_handler_def stop_def)
qed (auto simp: main_inv_def)

lemma program_step_server:
  "program_step J P ops p q \<Longrightarrow> prog_sys q = prog_sys p \<or> server_step J P ops (prog_sys p) (prog_sys q)"
  by (induction rule: program_step.induct) simp_all

lemma program_reachable_facts:
  assumes "program_reachable J P ops (prog_start v w signals) p"
  shows "main_inv p" and "server_reachable J P ops (start_sys v w) (prog_sys p)"
proof -
  have "main_inv p \<and> server_reachable J P ops (start_sys v w) (prog_sys p)"
    using assms
  proof (induction "prog_start v w signals" p rule: program_reachable.induct)
    case begun
    then show ?case by (simp add: main_inv_def prog_start_def start_sys_def server_reachable.started)
  next
    case (continued q q')
    then show ?case
      using program_step_main_inv program_step_server server_reachable.goes_on by metis
  qed
  then show "main_inv p" and "server_reachable J P ops (start_sys v w) (prog_sys p)" by simp_all
qed

lemma program_work_step:
  assumes "program_work ops p q" and "main_inv p"
  shows "program_step J P ops p q"
  using assms
proof (induction rule: program_work.induct)
  case (serve_work p y)
  then show ?case
    using server_work_frame(3) [OF serve_work(2)]
    by (intro program_step.serves) (auto simp: main_inv_def intro: server_work_step)
next
  case (stop_work p)
  then show ?case by (intro program_step.serves server_step.stops) simp_all
qed (auto intro: program_step.intros)

section \<open>The way to the end\<close>

fun main_rank :: "main_state \<Rightarrow> nat" where
  "main_rank Polling = 2"
| "main_rank Unwinding = 1"
| "main_rank Returned = 0"

definition program_rank :: "('a, 's) program \<Rightarrow> nat" where
  "program_rank p = main_rank (main_at p) + server_rank (prog_sys p)"

lemma program_work_rank:
  assumes "program_work ops p q" and "phase_inv (prog_sys p)" and "loggers_inv ops (prog_sys p)"
    and "sinks_ok ops (configs (prog_sys p))"
  shows "program_rank q < program_rank p"
  using assms
proof (induction rule: program_work.induct)
  case (serve_work p y)
  then show ?case using server_work_rank by (simp add: program_rank_def)
next
  case (stop_work p)
  then show ?case by (simp add: program_rank_def server_rank_def conns_rank_def loggers_rank_def)
qed (simp_all add: program_rank_def)

lemma program_work_frame:
  "program_work ops p q \<Longrightarrow> aborted (prog_sys q) = aborted (prog_sys p) \<and>
     stream_of (prog_sys q) = stream_of (prog_sys p) \<and> signalled q = signalled p"
  by (induction rule: program_work.induct) (auto simp: server_work_frame stream_of_def)

text \<open>The states of a program whose sinks do not throw, in which no handler has failed.\<close>

definition program_ok ::
    "'j json_ops \<Rightarrow> platform \<Rightarrow> (sink_spec \<Rightarrow> int \<Rightarrow> 's sink_ops) \<Rightarrow> os \<Rightarrow> ('a, 's) services \<Rightarrow> Options \<Rightarrow>
     ('a, 's) Server \<Rightarrow> world \<Rightarrow> posix_signal list \<Rightarrow> ('a, 's) program \<Rightarrow> bool" where
  "program_ok J P ops sys S opt v w signals p \<longleftrightarrow>
     new_server sys S opt = (None, v) \<and> sinks_ok ops (wanted_sinks sys opt) \<and>
     program_reachable J P ops (prog_start v w signals) p \<and> \<not> aborted (prog_sys p)"

lemma program_ok_server:
  "program_ok J P ops sys S opt v w signals p \<Longrightarrow> server_ok J P ops sys S opt v w (prog_sys p)"
  unfolding program_ok_def server_ok_def using program_reachable_facts(2) by blast

lemma program_ok_facts:
  assumes "program_ok J P ops sys S opt v w signals p"
  shows "main_inv p" and "phase_inv (prog_sys p)" and "loggers_inv ops (prog_sys p)"
    and "clearing_inv (prog_sys p)" and "sent_inv (prog_sys p)"
    and "sinks_ok ops (configs (prog_sys p))" and "\<not> terminated (prog_sys p)"
proof -
  have p: "new_server sys S opt = (None, v)" "program_reachable J P ops (prog_start v w signals) p"
    using assms by (simp_all add: program_ok_def)
  note reach = program_reachable_facts [OF p(2)]
  show "main_inv p" by (rule reach)
  show "clearing_inv (prog_sys p)" "sent_inv (prog_sys p)"
    by (rule server_reachable_facts [OF p(1) reach(2)])+
  show "phase_inv (prog_sys p)" "loggers_inv ops (prog_sys p)" "sinks_ok ops (configs (prog_sys p))"
    "\<not> terminated (prog_sys p)"
    by (rule server_ok_facts [OF program_ok_server [OF assms]])+
qed

interpretation returning: bounded_work "program_work ops" program_rank
    "program_ok J P ops sys S opt v w signals" for J P ops sys S opt v w signals
proof unfold_locales
  fix p q
  assume p: "program_ok J P ops sys S opt v w signals p" and step: "program_work ops p q"
  note ok = program_ok_facts [OF p]
  show "program_rank q < program_rank p" using step ok(2,3,6) by (rule program_work_rank)
  have "program_reachable J P ops (prog_start v w signals) q"
    using p ok(7) program_work_step [OF step ok(1)]
    by (auto simp: program_ok_def intro: program_reachable.continued)
  then show "program_ok J P ops sys S opt v w signals q"
    using p program_work_frame [OF step] by (simp add: program_ok_def)
qed

lemma program_work_run:
  assumes "program_ok J P ops sys S opt v w signals p" and "(program_work ops ^^ n) p q"
  shows "program_ok J P ops sys S opt v w signals q \<and> n + program_rank q \<le> program_rank p \<and>
    stream_of (prog_sys q) = stream_of (prog_sys p) \<and> signalled q = signalled p"
  using returning.work_bounded [OF assms]
    returning.work_keeps [of ops "\<lambda>p. stream_of (prog_sys p)", OF _ assms(2)]
    returning.work_keeps [of ops signalled, OF _ assms(2)] program_work_frame
  by blast

text \<open>After a signal the only state in which the program cannot go on is the one in which it has
  returned.\<close>

lemma stuck_returned:
  assumes "\<nexists>u. program_work ops p u" and "signalled p \<noteq> []" and "main_inv p"
    and "phase_inv (prog_sys p)" and "loggers_inv ops (prog_sys p)" and "clearing_inv (prog_sys p)"
    and "sent_inv (prog_sys p)" and "sinks_ok ops (configs (prog_sys p))"
  shows "main_at p = Returned"
proof (cases "main_at p")
  case Polling
  then show ?thesis
    using assms(1-3) arrive_zero [of "signalled p"] program_work.leave_work [of p ops]
    by (auto simp: main_inv_def)
next
  case Unwinding
  then have "\<nexists>y. server_work ops (prog_sys p) y" using assms(1) program_work.serve_work [of p ops] by auto
  note stuck = no_work_left(3) [OF this assms(4-8)]
  show ?thesis
    using stuck assms(1) program_work.stop_work [OF Unwinding] program_work.return_work [OF Unwinding]
    by blast
qed


section \<open>run and main\<close>

text \<open>
  The first statement of \<^verbatim>\<open>run\<close>, and the program when the server has been constructed:
  \<open>during\<close> are the signals that have arrived since that statement.
\<close>

definition run_begin :: "int \<Rightarrow> int" where
  "run_begin g = 0"

definition run_state ::
    "('a, 's) Server \<Rightarrow> world \<Rightarrow> int \<Rightarrow> posix_signal list \<Rightarrow> ('a, 's) program" where
  "run_state v w g during =
     \<lparr>prog_sys = start_sys v w, g_signal = arrive during g, main_at = Polling, signalled = during\<rparr>"

text \<open>
  A constructor that throws, at the moment when its last step is tried: the loggers that have been
  constructed work, and so do the threads that have been started, among them one that has been
  started and cannot be stored. What follows (the threads are stopped and joined, then the
  members are destroyed) are the steps of the server that is shut down.
\<close>

definition threads_started :: "('a, 's) services \<Rightarrow> ('a, 's) Server \<Rightarrow> nat" where
  "threads_started S u =
     (let n = length (m_ioc_threads u) in if start_io_thread S n = None then Suc n else n)"

definition unwinding :: "('a, 's) services \<Rightarrow> ('a, 's) Server \<Rightarrow> ('a, 's) Server" where
  "unwinding S u = u\<lparr>ioc_stopped := False, m_ioc_threads := replicate (threads_started S u) True\<rparr>"

definition destructed :: "('a, 's) server_sys \<Rightarrow> bool" where
  "destructed z \<longleftrightarrow> server_phase z = Clearing (length (m_loggers (server z))) \<and> \<not> terminated z"

text \<open>
  How the program ends: the main thread does, with \<open>run_end\<close>, and leaves of the server, if it
  started to construct one, what its destructor has left; or another thread ends the program while
  the server is as it is. What the sinks have been given and what the loggers have written to the
  error stream is in the loggers of that server (\<open>log_calls\<close>, \<open>errors\<close>).
\<close>

datatype ('a, 's) run_outcome =
    Ends run_end "('a, 's) server_sys option"
  | Terminates "('a, 's) server_sys"

text \<open>
  \<open>g\<close> is what the signal variable holds when \<open>run\<close> is called, \<open>signals\<close> are the signals from its
  first statement to the end.
\<close>

inductive run ::
    "'j json_ops \<Rightarrow> platform \<Rightarrow> (sink_spec \<Rightarrow> int \<Rightarrow> 's sink_ops) \<Rightarrow> os \<Rightarrow> ('a, 's) services \<Rightarrow>
     file_system \<Rightarrow> world \<Rightarrow> int \<Rightarrow> posix_signal list \<Rightarrow> string list \<Rightarrow> ('a, 's) run_outcome \<Rightarrow> bool"
  for J P ops sys S fs w g signals argv where
  ends_before: "run_setup P fs argv = Inl e \<Longrightarrow> run J P ops sys S fs w g signals argv (Ends e None)"
| not_caught: "run_setup P fs argv = Inr (p, opt) \<Longrightarrow> new_server sys S opt = (Some f, u) \<Longrightarrow>
     (\<And>ex. f \<noteq> Raise ex) \<Longrightarrow> run J P ops sys S fs w g signals argv (Ends (caught p f) None)"
| unwinds: "run_setup P fs argv = Inr (p, opt) \<Longrightarrow> new_server sys S opt = (Some (Raise ex), u) \<Longrightarrow>
     server_reachable J P ops (start_sys (unwinding S u) w) z \<Longrightarrow> destructed z \<Longrightarrow>
     run J P ops sys S fs w g signals argv (Ends (caught p (Raise ex)) (Some z))"
| unwinding_fails: "run_setup P fs argv = Inr (p, opt) \<Longrightarrow> new_server sys S opt = (Some (Raise ex), u) \<Longrightarrow>
     server_reachable J P ops (start_sys (unwinding S u) w) z \<Longrightarrow> terminated z \<Longrightarrow>
     run J P ops sys S fs w g signals argv (Terminates z)"
| serves_and_returns: "run_start P sys S fs argv = Inr v \<Longrightarrow>
     program_reachable J P ops (run_state v w (run_begin g) during) p \<Longrightarrow> main_at p = Returned \<Longrightarrow>
     signalled p = signals \<Longrightarrow>
     run J P ops sys S fs w g signals argv (Ends (Exits 0 [] []) (Some (prog_sys p)))"
| serves_and_fails: "run_start P sys S fs argv = Inr v \<Longrightarrow>
     program_reachable J P ops (run_state v w (run_begin g) during) p \<Longrightarrow> terminated (prog_sys p) \<Longrightarrow>
     signalled p = signals \<Longrightarrow> run J P ops sys S fs w g signals argv (Terminates (prog_sys p))"

text \<open>
  \<^verbatim>\<open>main\<close> registers the handlers and calls \<open>run\<close>; \<open>early\<close> are the signals that arrive between that
  and the first statement of \<open>run\<close>.
\<close>

definition main ::
    "'j json_ops \<Rightarrow> platform \<Rightarrow> (sink_spec \<Rightarrow> int \<Rightarrow> 's sink_ops) \<Rightarrow> os \<Rightarrow> ('a, 's) services \<Rightarrow>
     file_system \<Rightarrow> world \<Rightarrow> posix_signal list \<Rightarrow> posix_signal list \<Rightarrow> string list \<Rightarrow>
     ('a, 's) run_outcome \<Rightarrow> bool" where
  "main J P ops sys S fs w early signals argv out \<longleftrightarrow>
     run J P ops sys S fs w (arrive early 0) signals argv out"

lemma run_state_start: "run_state v w (run_begin g) during = prog_start v w during"
  by (simp add: run_state_def run_begin_def prog_start_def)

lemma run_start_server:
  assumes "run_start P sys S fs argv = Inr v"
  obtains p opt where "run_setup P fs argv = Inr (p, opt)" and "new_server sys S opt = (None, v)"
  using assms by (auto simp: run_start_def split: prod.splits option.splits sum.splits)

text \<open>What a destructor that has returned leaves behind.\<close>

definition shut :: "(sink_spec \<Rightarrow> int \<Rightarrow> 's sink_ops) \<Rightarrow> ('a, 's) server_sys \<Rightarrow> bool" where
  "shut ops z \<longleftrightarrow> busy z = 0 \<and> True \<notin> set (m_ioc_threads (server z)) \<and>
     (\<forall>k < length (m_loggers (server z)). dtor_at (logger_at z k) = Destroyed \<and>
        worker_at (logger_at z k) = Exited \<and>
        (sinks_ok ops (configs z) \<longrightarrow> errors (logger_at z k) = []))"

lemma fresh_server_facts:
  assumes "\<forall>l \<in> set (m_loggers s). slot_logger l = new_logger (m_sink (slot_logger l))"
    and "\<not> ioc_stopped s" and "server_reachable J P ops (start_sys s w) z"
  shows "phase_inv z" and "loggers_inv ops z" and "clearing_inv z" and "configs z = map slot_config (m_loggers s)"
proof -
  have alive: "dtor_at (slot_logger l) = Alive" if "l \<in> set (m_loggers s)" for l
    using assms(1) that by (metis Logger.select_convs(5) new_logger_def)
  have phase: "phase_inv (start_sys s w)"
    using alive assms(2) by (auto simp: phase_inv_def start_sys_def alive_from_def logger_at_def)
  have loggers: "loggers_inv ops (start_sys s w)"
    using assms(1) logger_reachable.constructed
    by (metis loggers_inv_def select_convs(1) server_sys.select_convs(1) start_sys_def)
  show "phase_inv z" using assms(3) phase by (rule server_reachable_phase_inv)
  show "loggers_inv ops z" using assms(3) phase loggers by (rule server_reachable_loggers_inv)
  have "phase_inv (start_sys s w) \<and> clearing_inv (start_sys s w) \<and>
      configs (start_sys s w) = map slot_config (m_loggers s)"
    using phase by (simp add: clearing_inv_def start_sys_def)
  with assms(3) have "phase_inv z \<and> clearing_inv z \<and> configs z = map slot_config (m_loggers s)"
  proof (induction rule: server_reachable.induct)
    case (goes_on y z z')
    then show ?case using server_step_phase_inv server_step_clearing_inv server_step_configs by metis
  qed simp
  then show "clearing_inv z" "configs z = map slot_config (m_loggers s)" by simp_all
qed

lemma destructed_shut:
  assumes "phase_inv z" and "loggers_inv ops z" and "clearing_inv z"
    and "server_phase z = Clearing (length (m_loggers (server z)))"
  shows "shut ops z"
proof -
  have "dtor_at (logger_at z k) = Destroyed" if "k < length (m_loggers (server z))" for k
    using assms(3,4) that by (simp add: clearing_inv_def)
  moreover note logger_facts [OF assms(2) _ refl]
  ultimately show ?thesis
    using assms(1,3,4) by (auto simp: shut_def phase_inv_def clearing_inv_def wake_inv_def quiet_def logger_at_def)
qed

section \<open>Failures that no client can bring about\<close>

text \<open>
  The JSON and the format library fail in no other way than by exceptions derived from
  \<^verbatim>\<open>std::exception\<close>; a JSON number that does not fit the integer type asked for becomes some integer.
\<close>

definition std_result :: "'b res \<Rightarrow> bool" where
  "std_result r \<longleftrightarrow> (\<forall>f. r = Inl f \<longrightarrow> (\<exists>ex. f = Raise ex \<and> ex \<noteq> Foreign))"

definition std_failures :: "'j json_ops \<Rightarrow> bool" where
  "std_failures J \<longleftrightarrow> (\<forall>t. std_result (json_parse J t)) \<and>
     (\<forall>v. std_result (json_get_int64 J v) \<and> std_result (json_get_string J v) \<and>
       std_result (json_get_double J v) \<and> std_result (json_get_int J v)) \<and>
     (\<forall>x xs. std_result (fmt_format J x xs))"

text \<open>
  The platform goes on after a conversion or a multiplication whose result does not fit, as those
  do on which the tests of the repository pass.
\<close>

definition total_arithmetic :: "platform \<Rightarrow> bool" where
  "total_arithmetic P \<longleftrightarrow>
     (\<forall>t. \<exists>r. overflowed P t = Some r) \<and> (\<forall>x. \<exists>r. unrepresentable P x = Some r)"

lemma std_result_simps [simp]:
  "std_result (Inr x)" "std_result (Inl (Raise ex)) \<longleftrightarrow> ex \<noteq> Foreign"
  by (simp_all add: std_result_def)

lemma std_result_bind: "std_result r \<Longrightarrow> (\<And>x. std_result (g x)) \<Longrightarrow> std_result (res_bind r g)"
  by (cases r) (auto simp: std_result_def)

lemma std_result_numbers: "std_result (stoi t)" "std_result (stod t)"
  by (auto simp: stoi_def stod_def Let_def split: option.splits)

lemma compiled_total:
  assumes "total_arithmetic P"
  shows "std_result (compiled (overflowed P t) u)" and "std_result (compiled (unrepresentable P x) u)"
proof -
  obtain r r' where "overflowed P t = Some r" "unrepresentable P x = Some r'"
    using assms unfolding total_arithmetic_def by blast
  then show "std_result (compiled (overflowed P t) u)" "std_result (compiled (unrepresentable P x) u)"
    by (simp_all add: compiled_def)
qed

lemma std_result_time: "total_arithmetic P \<Longrightarrow> std_result (to_time_point P x)"
  unfolding to_time_point_def Let_def
  by (rule std_result_bind) (simp_all add: compiled_total split: sum.splits)

lemma std_result_field: "std_failures J \<Longrightarrow> std_result (find_string J data t)"
  by (auto simp: find_string_def std_failures_def intro: std_result_bind split: option.splits)

lemma from_json_std:
  assumes "std_failures J" and "total_arithmetic P"
  shows "std_result (fst (from_json J P text w))"
proof -
  have parse: "std_result (json_parse J text)" and gets: "std_result (json_get_string J v)"
    "std_result (json_get_double J v)" "std_result (json_get_int J v)" and fmt: "std_result (fmt_format J x xs)"
    for v x xs using assms(1) by (simp_all add: std_failures_def)
  have time: "std_result (fst (read_time J P data w))" for data
    using gets std_result_numbers std_result_time [OF assms(2)]
    by (auto simp: read_time_def read_seconds_def log_clock_now_def Let_def intro!: std_result_bind split: option.splits)
  have level: "std_result (read_level J data)" for data
    using gets std_result_numbers
    by (auto simp: read_level_def read_level_num_def intro!: std_result_bind split: option.splits)
  have "std_result (Inl e :: string res)" if "first_failure (find_string J data) ts = Some e" for data ts e
    using first_failure_Some [OF that] std_result_field [OF assms(1)] by (metis std_result_def)
  then have message: "std_result (read_message J P data)" for data
    using fmt by (auto simp: read_message_def split: option.splits)
  show ?thesis
  proof (cases "json_parse J text")
    case (Inl f)
    then show ?thesis using parse by (simp add: from_json_def std_result_def)
  next
    case (Inr data)
    then show ?thesis
      using time [of data] level message
      by (auto simp: from_json_def case_prod_unfold Let_def intro!: std_result_bind)
  qed
qed

lemma read_start_not_aborted:
  assumes "std_failures J" and "total_arithmetic P" and "fmt_positional J" and "\<not> aborted y"
  shows "\<not> aborted (read_start J P i ev y)"
proof -
  have "caught_std f \<noteq> None" if r: "fst (from_json J P t w) = Inl f" for t w f
  proof -
    obtain ex where "f = Raise ex" "ex \<noteq> Foreign"
      using from_json_std [OF assms(1,2), of t w] r by (auto simp: std_result_def)
    then show ?thesis by (cases ex) simp_all
  qed
  then have returns: "\<exists>es p' w'. process J P q w data = (Inr es, p', w')" for q w data
    using process_returns [OF assms(3)] by blast
  show ?thesis
  proof (cases "transferred ev")
    case None
    then show ?thesis using assms(4) by (simp add: read_start_def Let_def)
  next
    case (Some n)
    let ?s = "deliver (conn_session (conns y ! i)) ev"
    obtain es p' w' where "process J P (m_processor ?s) (server_clock y) (take n (m_buffer ?s)) = (Inr es, p', w')"
      using returns by blast
    then show ?thesis using Some assms(4) by (simp add: read_start_def Let_def)
  qed
qed

lemma server_step_not_aborted:
  assumes "server_step J P ops y z" and "std_failures J" and "total_arithmetic P" and "fmt_positional J"
    and "\<not> aborted y"
  shows "\<not> aborted z"
  using assms
proof (induction rule: server_step.induct)
  case (accept_finished y hs j ec hs' junk)
  then show ?case by (simp add: accept_callback_def on_accept_def)
next
  case (read_completes y i ev)
  then show ?case by (intro read_start_not_aborted)
qed (simp_all add: accept_start_def push_one_def read_finish_def)

lemma server_reachable_not_aborted:
  assumes "server_reachable J P ops y z" and "std_failures J" and "total_arithmetic P" and "fmt_positional J"
    and "\<not> aborted y"
  shows "\<not> aborted z"
  using assms by (induction rule: server_reachable.induct) (auto dest: server_step_not_aborted)

section \<open>A program for the witnesses\<close>

lemma server_step_serving:
  "server_step J P ops y z \<Longrightarrow> server_phase z = Serving \<Longrightarrow> server_phase y = Serving"
  by (induction rule: server_step.induct) (simp_all add: accept_callback_def)

lemma serving_reachable:
  assumes "server_reachable J P ops (start_sys v w) z" and "server_phase z = Serving"
  shows "program_reachable J P ops (prog_start v w signals) ((prog_start v w signals)\<lparr>prog_sys := z\<rparr>)"
  using assms
proof (induction "start_sys v w" z rule: server_reachable.induct)
  case started
  have "(prog_start v w signals)\<lparr>prog_sys := start_sys v w\<rparr> = prog_start v w signals"
    by (simp add: prog_start_def)
  then show ?case by (simp add: program_reachable.begun)
next
  case (goes_on z z')
  let ?p = "(prog_start v w signals)\<lparr>prog_sys := z\<rparr>"
  have "program_reachable J P ops (prog_start v w signals) ?p"
    using goes_on(2) server_step_serving [OF goes_on(4,5)] by simp
  moreover have "program_step J P ops ?p (?p\<lparr>prog_sys := z'\<rparr>)"
    using goes_on(4,5) by (intro program_step.serves) (simp_all add: prog_start_def)
  ultimately show ?case using goes_on(3) program_reachable.continued by fastforce
qed

text \<open>A signal has arrived while the server is handling a read.\<close>

definition sample_program :: "(string, Element list) program" where
  "sample_program = (prog_start sample_server sample_world [SIGTERM])\<lparr>prog_sys := sample_sys\<rparr>"

lemma sample_stream: "stream_of sample_sys 0 = ''{}''"
  by code_simp

lemma sample_program_reachable:
  "program_reachable sample_json sample_platform sample_ops
     (prog_start sample_server sample_world [SIGTERM]) sample_program"
  unfolding sample_program_def using sample_sys_reachable sample_sys_sel(4) by (rule serving_reachable)

lemma sample_run_start:
  "run_start sample_platform Linux sample_services sample_fs
     (''scriptor'' # command_line (default_options sample_platform) sample_options) = Inr sample_server"
  using sample_expressible sample_socket_removed new_sample_server by (rule run_start_command_line)

lemma sample_program_ok:
  "program_ok sample_json sample_platform sample_ops Linux sample_services sample_options
     sample_server sample_world [SIGTERM] sample_program"
  using new_sample_server sample_ops_sinks_ok sample_program_reachable sample_sys_sel(5)
  by (simp add: program_ok_def sample_program_def)

lemma sample_program_returns:
  obtains n p where "(program_work sample_ops ^^ n) sample_program p" and "main_at p = Returned"
    and "program_reachable sample_json sample_platform sample_ops
      (prog_start sample_server sample_world [SIGTERM]) p"
proof -
  obtain n p where work: "(program_work sample_ops ^^ n) sample_program p" "\<nexists>u. program_work sample_ops p u"
    using returning.work_ends [OF sample_program_ok] by blast
  note run = program_work_run [OF sample_program_ok work(1)]
  note facts = program_ok_facts [OF run [THEN conjunct1]]
  have "signalled p \<noteq> []" using run by (simp add: sample_program_def prog_start_def)
  then have "main_at p = Returned" by (intro stuck_returned [OF work(2)] facts)
  moreover have "program_reachable sample_json sample_platform sample_ops
      (prog_start sample_server sample_world [SIGTERM]) p" using run by (simp add: program_ok_def)
  ultimately show thesis using that work(1) by blast
qed

lemma sample_std_failures: "std_failures sample_json"
proof -
  have "std_result (sample_get_integer lo hi v)" "std_result (sample_get_string v)"
    "std_result (sample_get_double v)" for lo hi v
    by (cases v; simp add: type_error_def split: sum.splits)+
  moreover have "std_result (sample_parse t)" for t
    by (auto simp: sample_parse_def sample_error_def split: option.splits)
  ultimately show ?thesis by (simp add: std_failures_def sample_json_def)
qed

lemma sample_total_arithmetic: "total_arithmetic sample_platform"
  by (simp add: total_arithmetic_def sample_platform_def)

lemma sample_run:
  obtains z where "run sample_json sample_platform sample_ops Linux sample_services sample_fs sample_world g
     [SIGTERM] (''scriptor'' # command_line (default_options sample_platform) sample_options)
     (Ends (Exits 0 [] []) (Some z))"
proof -
  obtain n p where work: "(program_work sample_ops ^^ n) sample_program p" and returned: "main_at p = Returned"
    and reach: "program_reachable sample_json sample_platform sample_ops
      (prog_start sample_server sample_world [SIGTERM]) p" by (rule sample_program_returns)
  have "signalled p = [SIGTERM]"
    using program_work_run [OF sample_program_ok work] by (simp add: sample_program_def prog_start_def)
  then show thesis
    using that serves_and_returns [OF sample_run_start _ returned] reach unfolding run_state_start by blast
qed

section \<open>Every outcome\<close>

text \<open>The relation \<open>run\<close> depends on the arguments only by what they set up.\<close>

lemma run_same_setup:
  assumes "run_setup P fs xs = map_sum id (\<lambda>(p, opt). (recorded ns us p, opt)) (run_setup P fs ys)"
  shows "run J P ops sys S fs w g signals xs out \<longleftrightarrow> run J P ops sys S fs w g signals ys out"
proof -
  have start: "run_start P sys S fs xs = run_start P sys S fs ys"
    unfolding run_start_def assms by (auto split: sum.splits prod.splits option.splits)
  have set_up: "run_setup P fs xs = Inr (p', opt) \<longleftrightarrow>
      (\<exists>p. run_setup P fs ys = Inr (p, opt) \<and> p' = recorded ns us p)" for p' opt
    unfolding assms by (cases "run_setup P fs ys") auto
  have fails: "run_setup P fs xs = Inl e \<longleftrightarrow> run_setup P fs ys = Inl e" for e
    unfolding assms by (cases "run_setup P fs ys") auto
  show ?thesis
  proof
    assume "run J P ops sys S fs w g signals xs out"
    then show "run J P ops sys S fs w g signals ys out"
    proof (induction rule: run.induct)
      case (not_caught p opt f u)
      obtain q where q: "run_setup P fs ys = Inr (q, opt)" "p = recorded ns us q"
        using set_up not_caught(1) by blast
      show ?case using run.not_caught [OF q(1) not_caught(2,3)] q(2) by simp
    qed (auto simp: start set_up fails intro: run.intros)
  next
    assume "run J P ops sys S fs w g signals ys out"
    then show "run J P ops sys S fs w g signals xs out"
    proof (induction rule: run.induct)
      case (not_caught p opt f u)
      then show ?case using run.not_caught [of P fs xs "recorded ns us p" opt sys S f u] set_up by simp
    next
      case (unwinds p opt ex u z)
      then show ?case using run.unwinds [of P fs xs "recorded ns us p" opt sys S ex u J ops w z] set_up by simp
    next
      case (unwinding_fails p opt ex u z)
      then show ?case
        using run.unwinding_fails [of P fs xs "recorded ns us p" opt sys S ex u J ops w z] set_up by simp
    qed (auto simp: start fails intro: run.intros)
  qed
qed

text \<open>Arguments that spell options from which a server is constructed.\<close>

lemma run_command_line_outcomes:
  assumes "expressible (default_options P) opt" and "remove_socket fs (socket_file opt) = None"
    and "new_server sys S opt = (None, v)"
    and "run J P ops sys S fs w g signals (prog # command_line (default_options P) opt) out"
  shows "\<exists>during p. program_reachable J P ops (prog_start v w during) p \<and> signalled p = signals \<and>
    ((main_at p = Returned \<and> out = Ends (Exits 0 [] []) (Some (prog_sys p))) \<or>
     (terminated (prog_sys p) \<and> out = Terminates (prog_sys p)))"
proof -
  obtain q where set_up: "run_setup P fs (prog # command_line (default_options P) opt) = Inr (q, opt)"
    using assms(1,2) by (rule run_setup_command_line)
  have start: "run_start P sys S fs (prog # command_line (default_options P) opt) = Inr v"
    using assms(1-3) by (rule run_start_command_line)
  show ?thesis
    using assms(4) by (cases rule: run.cases) (auto simp: set_up start assms(3) run_state_start)
qed

lemma run_outcome_cases:
  assumes "run J P ops sys S fs w g signals argv out"
  shows "(\<exists>e. out = Ends e None \<and> ends_early P fs S e) \<or>
    (\<exists>txt z. out = Ends (Exits 1 [] (''Fatal Error: '' @ txt @ [newline])) (Some z) \<and> shut ops z) \<or>
    (\<exists>z. out = Ends (Exits 0 [] []) (Some z) \<and> signals \<noteq> [] \<and> shut ops z) \<or>
    (\<exists>z. out = Terminates z \<and> terminated z)"
  using assms
proof (induction rule: run.induct)
  case (ends_before e)
  then show ?case using run_setup_ends [OF ends_before, of S] by simp
next
  case (not_caught p opt f u)
  have "help_text p = help_text (run_parser (default_options P))"
    using run_setup_ends [OF not_caught(1)] by auto
  moreover have "f \<in> library_failures fs S"
    using new_server_failed [OF not_caught(2)] by (auto simp: library_failures_def)
  ultimately show ?case using caught_early by blast
next
  case (unwinds p opt ex u z)
  have "\<not> 1 \<le> help_count p" using run_setup_ends [OF unwinds(1)] by auto
  then obtain m where "caught p (Raise ex) = Exits 1 [] (''Fatal Error: '' @ m @ [newline])"
    using caught_ends [of p "Raise ex"] by (auto simp: fatal_def)
  moreover have "shut ops z"
    using destructed_shut [of z ops] fresh_server_facts [OF _ _ unwinds(3)] new_server_failed [OF unwinds(2)] unwinds(4)
    by (auto simp: unwinding_def destructed_def)
  ultimately show ?case by auto
next
  case (serves_and_returns v during p)
  note reach = program_reachable_facts [OF serves_and_returns(2) [unfolded run_state_start]]
  obtain opt where v: "new_server sys S opt = (None, v)" using serves_and_returns(1) run_start_server by metis
  have "signals \<noteq> []"
    using reach(1) serves_and_returns(3,4) arrive_zero [of signals] by (auto simp: main_inv_def)
  moreover have "shut ops (prog_sys p)"
    using reach(1) serves_and_returns(3) server_reachable_facts(1-3) [OF v reach(2)]
    by (intro destructed_shut) (auto simp: main_inv_def)
  ultimately show ?case by blast
qed blast+

section \<open>Properties\<close>

text \<open>C13. The program serves until it is told to stop: as long as no signal has arrived since \<^verbatim>\<open>run\<close>
  started, the main thread polls, the context is not stopped, and no logger is being destroyed.\<close>

theorem program_serves_until_signal:
  assumes "new_server sys S opt = (None, v)"
    and "program_reachable J P ops (prog_start v w signals) p" and "signalled p = []"
    and "k < length (m_loggers (server (prog_sys p)))"
  shows "main_at p = Polling \<and> \<not> ioc_stopped (server (prog_sys p)) \<and>
    dtor_at (logger_at (prog_sys p) k) = Alive"
proof -
  note reach = program_reachable_facts [OF assms(2)]
  have "main_at p = Polling" "server_phase (prog_sys p) = Serving"
    using reach(1) assms(3) arrive_zero [of "signalled p"] by (auto simp: main_inv_def)
  then show ?thesis
    using server_reachable_facts(1) [OF assms(1) reach(2)] assms(4)
    by (simp add: phase_inv_def alive_from_def)
qed

theorem program_serves_until_signal_witness:
  "\<exists>p. program_reachable sample_json sample_platform sample_ops (prog_start sample_server sample_world []) p \<and>
     prog_sys p = sample_sys \<and> \<not> ioc_stopped (server (prog_sys p))"
proof -
  let ?p = "(prog_start sample_server sample_world [])\<lparr>prog_sys := sample_sys\<rparr>"
  have reach: "program_reachable sample_json sample_platform sample_ops
      (prog_start sample_server sample_world []) ?p"
    using sample_sys_reachable sample_sys_sel(4) by (rule serving_reachable)
  have p: "signalled ?p = []" "0 < length (m_loggers (server (prog_sys ?p)))"
    using sample_slot(1) [OF sample_sys_reachable] by (simp_all add: prog_start_def)
  show ?thesis
    using program_serves_until_signal [OF new_sample_server reach p] reach
    by (intro exI [of _ ?p]) simp
qed

text \<open>C3. The program returns: once a signal has arrived, with sinks that do not throw, every way of
  going on ends within the rank of the state, whichever thread takes the next step, and it ends
  nowhere but where the main thread has returned.\<close>

theorem program_returns:
  assumes "new_server sys S opt = (None, v)" and "sinks_ok ops (wanted_sinks sys opt)"
    and "program_reachable J P ops (prog_start v w signals) p" and "\<not> aborted (prog_sys p)"
    and "signalled p \<noteq> []"
  shows "(\<forall>n q. (program_work ops ^^ n) p q \<longrightarrow> n \<le> program_rank p) \<and>
    (\<exists>n q. (program_work ops ^^ n) p q \<and> (\<nexists>u. program_work ops q u)) \<and>
    (\<forall>n q. (program_work ops ^^ n) p q \<longrightarrow> (\<nexists>u. program_work ops q u) \<longrightarrow> main_at q = Returned)"
proof -
  have ok: "program_ok J P ops sys S opt v w signals p" using assms(1-4) by (simp add: program_ok_def)
  note run = program_work_run [OF ok]
  have "n \<le> program_rank p" if "(program_work ops ^^ n) p q" for n q using run [OF that] by simp
  moreover have "main_at q = Returned"
    if "(program_work ops ^^ n) p q" "\<nexists>u. program_work ops q u" for n q
    using stuck_returned [OF that(2)] program_ok_facts(1-6) [of J P ops sys S opt v w signals q]
      run [OF that(1)] assms(5) by simp
  ultimately show ?thesis using returning.work_ends [OF ok] by blast
qed

theorem program_returns_witness:
  "\<exists>n q. (program_work sample_ops ^^ n) sample_program q \<and> main_at q = Returned"
proof -
  have "\<not> aborted (prog_sys sample_program)" "signalled sample_program \<noteq> []"
    using sample_sys_sel(5) by (simp_all add: sample_program_def prog_start_def)
  then show ?thesis
    using program_returns [OF new_sample_server sample_ops_sinks_ok sample_program_reachable] by blast
qed

text \<open>C1. From the command line to the sinks. Let the arguments spell options that the file system and
  the server accept. Then the program constructs that server, and when it has returned, for
  every sink these options ask for: its logger is destroyed; and what it has written, followed by
  what was left in its queue, is what becomes of everything that was read on any connection: the
  objects of each stream, decoded, in their order, without those below the level of the sink.\<close>

theorem program_delivers:
  assumes "expressible (default_options P) opt" and "remove_socket fs (socket_file opt) = None"
    and "new_server sys S opt = (None, v)" and "sinks_ok ops (wanted_sinks sys opt)"
    and "program_reachable J P ops (prog_start v w signals) p" and "main_at p = Returned"
    and "k < length (wanted_sinks sys opt)" and "slot = m_loggers (server (prog_sys p)) ! k"
  shows "run_start P sys S fs (prog # command_line (default_options P) opt) = Inr v \<and>
    signalled p \<noteq> [] \<and> slot_config slot = wanted_sinks sys opt ! k \<and>
    dtor_at (slot_logger slot) = Destroyed \<and>
    log_of J P (slot_level slot) (prog_sys p)
      (log_calls (slot_logger slot) @ passes (slot_level slot) (m_elements (slot_logger slot)))"
proof -
  note reach = program_reachable_facts [OF assms(5)]
  note facts = server_reachable_facts [OF assms(3) reach(2)]
  have ok: "sinks_ok ops (configs (prog_sys p))" unfolding facts(4) by (rule assms(4))
  have k: "k < length (m_loggers (server (prog_sys p)))" using assms(7) facts(4) by (metis length_map)
  note logger = logger_facts [OF facts(2) k assms(8)]
  have phase: "server_phase (prog_sys p) = Clearing (length (m_loggers (server (prog_sys p))))"
    using reach(1) assms(6) by (simp add: main_inv_def)
  then have d: "dtor_at (slot_logger slot) = Destroyed"
    using facts(3) k assms(8) by (auto simp: clearing_inv_def logger_at_def)
  then have "worker_at (slot_logger slot) = Exited" using logger(1) by (simp add: wake_inv_def)
  then have "log_calls (slot_logger slot) @ passes (slot_level slot) (m_elements (slot_logger slot)) =
      passes (slot_level slot) (arrived (prog_sys p) k)"
    using logger(2) [OF ok] facts(7) k assms(8) by (simp add: accounted_def arrived_inv_def logger_at_def)
  moreover have "busy (prog_sys p) = 0" using facts(1) phase by (simp add: phase_inv_def)
  moreover have "slot_config slot = wanted_sinks sys opt ! k" using facts(4) k assms(8) by (metis nth_map)
  moreover have "signalled p \<noteq> []" using reach(1) assms(6) arrive_zero [of "signalled p"] by (auto simp: main_inv_def)
  ultimately show ?thesis
    using run_start_command_line [OF assms(1-3), of prog] settled_log [OF facts(5,6) _ k facts(8)] d by simp
qed

theorem program_delivers_witness:
  "\<exists>p. program_reachable sample_json sample_platform sample_ops
       (prog_start sample_server sample_world [SIGTERM]) p \<and> main_at p = Returned \<and>
     run_start sample_platform Linux sample_services sample_fs
       (''scriptor'' # command_line (default_options sample_platform) sample_options) = Inr sample_server \<and>
     stream_of (prog_sys p) 0 = ''{}'' \<and> dtor_at (logger_at (prog_sys p) 0) = Destroyed \<and>
     log_of sample_json sample_platform 0 (prog_sys p)
       (log_calls (logger_at (prog_sys p) 0) @ passes 0 (m_elements (logger_at (prog_sys p) 0)))"
proof -
  note e = sample_expressible and r = sample_socket_removed
  obtain n p where work: "(program_work sample_ops ^^ n) sample_program p" and returned: "main_at p = Returned"
    and reach: "program_reachable sample_json sample_platform sample_ops
      (prog_start sample_server sample_world [SIGTERM]) p" by (rule sample_program_returns)
  note run = program_work_run [OF sample_program_ok work]
  have f: "stream_of (prog_sys p) 0 = ''{}''" using run sample_stream by (simp add: sample_program_def)
  have k: "0 < length (wanted_sinks Linux sample_options)" by (simp add: sample_sinks)
  have level: "slot_level (m_loggers (server (prog_sys p)) ! 0) = 0"
    using program_reachable_facts(2) [OF reach] by (rule sample_slot(2))
  show ?thesis
    using program_delivers [OF e r new_sample_server sample_ops_sinks_ok reach returned k refl, of "''scriptor''"]
      returned f reach level by (intro exI [of _ p]) (simp add: logger_at_def)
qed

text \<open>C20. How the program ends, on every path. Before a server is constructed, or because its
  construction is undefined: with the help and 0, with one line \<^verbatim>\<open>Fatal Error\<close> and 1, or, only if
  the libraries or the construction do so, in undefined behaviour or \<^verbatim>\<open>std::terminate\<close>. When the
  constructor throws: with one line \<^verbatim>\<open>Fatal Error\<close> and 1, after what had been constructed has been
  destroyed. When it does not: with 0 after a signal, and the main thread has printed nothing. In
  both cases no handler is under way, every thread is joined and every logger destroyed with its
  worker returned, and with sinks that do not throw no logger has written an error. The only other
  end is a failure that another thread does not catch, while serving or while being destroyed.\<close>

theorem run_ends:
  assumes "run J P ops sys S fs w g signals argv out"
  shows "(\<exists>e. out = Ends e None \<and> ends_early P fs S e) \<or>
    (\<exists>txt z. out = Ends (Exits 1 [] (''Fatal Error: '' @ txt @ [newline])) (Some z) \<and> shut ops z) \<or>
    (\<exists>z. out = Ends (Exits 0 [] []) (Some z) \<and> signals \<noteq> [] \<and> shut ops z) \<or>
    (\<exists>z. out = Terminates z \<and> terminated z)"
  using assms by (rule run_outcome_cases)

theorem run_ends_witness:
  "\<exists>z. run sample_json sample_platform sample_ops Linux sample_services sample_fs sample_world 0 [SIGTERM]
     (''scriptor'' # command_line (default_options sample_platform) sample_options)
     (Ends (Exits 0 [] []) (Some z)) \<and> shut sample_ops z"
proof -
  obtain z where r: "run sample_json sample_platform sample_ops Linux sample_services sample_fs sample_world 0
     [SIGTERM] (''scriptor'' # command_line (default_options sample_platform) sample_options)
     (Ends (Exits 0 [] []) (Some z))" by (rule sample_run)
  then show ?thesis using run_ends [OF r] by auto
qed

text \<open>C10. The program serves until it is told to stop. Let the arguments spell options that the file
  system and the server accept, and let the sinks not throw. Then, in whatever way the program
  ends, either a signal has arrived after the first statement of \<^verbatim>\<open>run\<close> (those that arrived before,
  while the handlers were already registered, are lost), and it exits with 0, the main thread has
  printed nothing, every sink asked for has been shut down and no logger has printed an error; or
  a failure has left a handler. And whenever a signal arrives it can exit so.\<close>

theorem main_serves_until_signal:
  assumes "expressible (default_options P) opt" and "remove_socket fs (socket_file opt) = None"
    and "new_server sys S opt = (None, v)" and "sinks_ok ops (wanted_sinks sys opt)"
  shows "(\<forall>out. main J P ops sys S fs w early signals (prog # command_line (default_options P) opt) out \<longrightarrow>
      (signals \<noteq> [] \<and> (\<exists>z. out = Ends (Exits 0 [] []) (Some z) \<and> configs z = wanted_sinks sys opt \<and>
         shut ops z \<and> (\<forall>k < length (m_loggers (server z)). errors (logger_at z k) = []))) \<or>
      (\<exists>z. out = Terminates z \<and> aborted z)) \<and>
    (signals \<noteq> [] \<longrightarrow> (\<exists>z. main J P ops sys S fs w early signals
      (prog # command_line (default_options P) opt) (Ends (Exits 0 [] []) (Some z))))"
proof (intro conjI allI impI)
  fix out
  assume "main J P ops sys S fs w early signals (prog # command_line (default_options P) opt) out"
  then have r: "run J P ops sys S fs w (arrive early 0) signals (prog # command_line (default_options P) opt) out"
    by (simp add: main_def)
  obtain during p where p: "program_reachable J P ops (prog_start v w during) p" "signalled p = signals"
    and out: "(main_at p = Returned \<and> out = Ends (Exits 0 [] []) (Some (prog_sys p))) \<or>
     (terminated (prog_sys p) \<and> out = Terminates (prog_sys p))"
    using run_command_line_outcomes [OF assms(1-3) r] by blast
  note facts = server_reachable_facts [OF assms(3) program_reachable_facts(2) [OF p(1)]]
  have ok: "sinks_ok ops (configs (prog_sys p))" unfolding facts(4) by (rule assms(4))
  show "(signals \<noteq> [] \<and> (\<exists>z. out = Ends (Exits 0 [] []) (Some z) \<and> configs z = wanted_sinks sys opt \<and>
         shut ops z \<and> (\<forall>k < length (m_loggers (server z)). errors (logger_at z k) = []))) \<or>
      (\<exists>z. out = Terminates z \<and> aborted z)"
    using out
  proof
    assume "main_at p = Returned \<and> out = Ends (Exits 0 [] []) (Some (prog_sys p))"
    then show ?thesis
      using run_outcome_cases [OF r] facts(4) ok by (auto simp: shut_def ends_early_def)
  next
    assume "terminated (prog_sys p) \<and> out = Terminates (prog_sys p)"
    then show ?thesis using sinks_ok_terminated [OF facts(2) ok] by blast
  qed
next
  assume signals: "signals \<noteq> []"
  let ?p = "prog_start v w signals"
  have "\<not> aborted (prog_sys ?p)" by (simp add: prog_start_def start_sys_def)
  then have ok: "program_ok J P ops sys S opt v w signals ?p"
    using assms(3,4) program_reachable.begun by (simp add: program_ok_def)
  obtain n q where q: "(program_work ops ^^ n) ?p q" "\<nexists>u. program_work ops q u"
    using returning.work_ends [OF ok] by blast
  note run = program_work_run [OF ok q(1)]
  have "signalled q = signals" using run by (simp add: prog_start_def)
  moreover have "main_at q = Returned"
    using stuck_returned [OF q(2)] program_ok_facts(1-6) [of J P ops sys S opt v w signals q] run signals calculation
    by simp
  moreover have "program_reachable J P ops (run_state v w (run_begin (arrive early 0)) signals) q"
    using run unfolding run_state_start by (simp add: program_ok_def)
  ultimately show "\<exists>z. main J P ops sys S fs w early signals
      (prog # command_line (default_options P) opt) (Ends (Exits 0 [] []) (Some z))"
    unfolding main_def using serves_and_returns [OF run_start_command_line [OF assms(1-3)]] by blast
qed

theorem main_serves_until_signal_witness:
  "(\<forall>z. \<not> main sample_json sample_platform sample_ops Linux sample_services sample_fs sample_world [SIGTERM] []
     (''scriptor'' # command_line (default_options sample_platform) sample_options) (Ends (Exits 0 [] []) (Some z))) \<and>
   (\<exists>z. main sample_json sample_platform sample_ops Linux sample_services sample_fs sample_world [] [SIGINT]
     (''scriptor'' # command_line (default_options sample_platform) sample_options) (Ends (Exits 0 [] []) (Some z)) \<and>
     configs z = [(syslog_sink ''scriptor'', 0, None)])"
proof -
  note serves = main_serves_until_signal [OF sample_expressible sample_socket_removed new_sample_server
      sample_ops_sinks_ok, of sample_json sample_world _ _ "''scriptor''"]
  show ?thesis
    using serves [of "[SIGTERM]" "[]"] serves [of "[]" "[SIGINT]"] sample_sinks by fastforce
qed

text \<open>C12. No client can end the program. If the sinks do not throw, the libraries that decode a
  record fail by standard exceptions only, and the platform goes on after an integer conversion
  that does not fit, then no failure leaves a thread, whatever bytes arrive on whatever number of
  connections, while the server is being constructed, serves or is being destroyed: the program
  ends in its main thread or not at all.\<close>

theorem clients_cannot_end_program:
  assumes "run J P ops sys S fs w g signals argv out"
    and "std_failures J" and "fmt_positional J" and "total_arithmetic P" and "\<forall>cfg. sinks_ok ops cfg"
  shows "\<exists>e left. out = Ends e left"
proof -
  have alive: False
    if "server_reachable J P ops (start_sys s w) z" "terminated z" "\<not> ioc_stopped s"
      "\<forall>l \<in> set (m_loggers s). slot_logger l = new_logger (m_sink (slot_logger l))" for s z
  proof -
    have "\<not> aborted z"
      using that(1) assms(2,4,3) by (rule server_reachable_not_aborted) (simp add: start_sys_def)
    then show False
      using sinks_ok_terminated [OF fresh_server_facts(2) [OF that(4,3,1)]] assms(5) that(2) by blast
  qed
  show ?thesis
    using assms(1)
  proof (cases rule: run.cases)
    case (unwinding_fails p opt ex u z)
    then show ?thesis
      using alive [OF unwinding_fails(4,5)] new_server_failed [OF unwinding_fails(3)] by (auto simp: unwinding_def)
  next
    case (serves_and_fails v during p)
    obtain opt where v: "new_server sys S opt = (None, v)" using serves_and_fails(2) run_start_server by metis
    show ?thesis
      using alive [OF program_reachable_facts(2) [OF serves_and_fails(3) [unfolded run_state_start]] serves_and_fails(4)]
        new_server_members(6,8) [OF v] by blast
  qed auto
qed

theorem clients_cannot_end_program_witness:
  "\<exists>z. run sample_json sample_platform sample_ops Linux sample_services sample_fs sample_world 0 [SIGTERM]
       (''scriptor'' # command_line (default_options sample_platform) sample_options) (Ends (Exits 0 [] []) (Some z)) \<and>
     (\<forall>y. \<not> run sample_json sample_platform sample_ops Linux sample_services sample_fs sample_world 0 [SIGTERM]
       (''scriptor'' # command_line (default_options sample_platform) sample_options) (Terminates y))"
proof -
  have "\<forall>cfg. sinks_ok sample_ops cfg" by (simp add: sample_ops_sinks_ok)
  note cannot = clients_cannot_end_program [OF _ sample_std_failures sample_fmt_positional
      sample_total_arithmetic this]
  show ?thesis using sample_run [of 0] cannot by (metis run_outcome.distinct(1))
qed

text \<open>C32. With \<^verbatim>\<open>--help\<close> or \<^verbatim>\<open>-h\<close> as the first argument there is exactly one way in which the program
  ends: it prints the help of the table of options and exits with 0, whatever the other arguments,
  those that cannot be parsed included, and whatever signals arrive; no server is constructed and
  no file is removed.\<close>

theorem run_help:
  assumes "arg \<in> {''--help'', ''-h''}"
  shows "run J P ops sys S fs w g signals (prog # arg # args) out \<longleftrightarrow>
    out = Ends (Exits 0 (help_text (run_parser (default_options P))) []) None"
proof -
  note set_up = run_setup_help [OF assms, of P fs prog args]
  have start: "run_start P sys S fs (prog # arg # args) =
      Inl (Exits 0 (help_text (run_parser (default_options P))) [])"
    by (simp add: run_start_def set_up)
  show ?thesis
    using run.ends_before [OF set_up] by (auto simp: set_up start elim: run.cases)
qed

theorem run_help_witness:
  "\<exists>txt. \<forall>out. run sample_json sample_platform sample_ops Linux sample_services sample_fs sample_world 0 []
       [''scriptor'', ''--help'', ''--threads=many''] out \<longleftrightarrow> out = Ends (Exits 0 txt []) None"
  using run_help [of "''--help''"] by blast



end
