(* ===== verification/Server_Sessions.thy ===== *)
theory Server_Sessions
  imports Server_Run
begin

text \<open>
  The server hosts a session machine per connection and a logger machine per sink. \<open>Session\<close> and
  \<open>Logger\<close> treat one of them alone, with every interleaving of its own steps; here every step of
  the server (\<open>Server_Run\<close>) is shown to be steps of those machines, so that what is proved of
  them holds in the running server. The clock, which the sessions share, is free in the
  session machine.
\<close>

section \<open>A connection as a session machine\<close>

text \<open>
  \<open>crashed\<close> is a failure in the handler, which ends the program (\<open>aborted\<close>) and leaves the
  connection as it was before the read; the step that would follow is in \<open>aborted_by_session\<close>.
\<close>

definition conn_reads :: "conn \<Rightarrow> read_result list" where
  "conn_reads c = map Read_ok (received c) @ (if read_failed c then [Read_error] else [])"

definition conn_machine :: "conn \<Rightarrow> session_sys" where
  "conn_machine c =
     \<lparr>sess = conn_session c,
      running = (case conn_work c of Waiting \<Rightarrow> [] | Dispatching es k \<Rightarrow> [Decoded es]),
      completed = conn_reads c, batches = dispatched c, crashed = False\<rparr>"

definition session_fresh :: "session_sys \<Rightarrow> bool" where
  "session_fresh y \<longleftrightarrow> (\<exists>sock junk. outstanding_reads sock = 0 \<and> length junk = buffer_size \<and>
     y = start_session sock junk)"

lemma conn_machine_waiting:
  "conn_work c = Waiting \<Longrightarrow> running (conn_machine c) = []"
  by (simp add: conn_machine_def)

lemma session_step_dispatch:
  assumes "0 < outstanding_reads (m_socket (sess y))" and "running y = []"
    and "\<And>data. ev = Read_ok data \<Longrightarrow> length data \<le> buffer_size"
  shows "session_step J P y
    (y\<lparr>sess := deliver (sess y) ev, running := [Started (transferred ev)], completed := completed y @ [ev]\<rparr>)"
  using session_step.dispatch [of y ev J P] assms by simp

text \<open>A read that fails: the handler starts and ends.\<close>

lemma session_steps_error:
  assumes "0 < outstanding_reads (m_socket (sess y))" and "running y = []"
  shows "(session_step J P)\<^sup>*\<^sup>* y
    (y\<lparr>sess := deliver (sess y) Read_error, completed := completed y @ [Read_error]\<rparr>)"
proof -
  let ?d = "y\<lparr>sess := deliver (sess y) Read_error, running := [Started None],
      completed := completed y @ [Read_error]\<rparr>"
  have "session_step J P y ?d" using session_step_dispatch [of y Read_error J P] assms by simp
  moreover have "session_step J P ?d (?d\<lparr>running := [] @ []\<rparr>)"
    by (rule session_step.finish_error) simp
  moreover have "?d\<lparr>running := [] @ []\<rparr> =
      y\<lparr>sess := deliver (sess y) Read_error, completed := completed y @ [Read_error]\<rparr>"
    using assms(2) by simp
  ultimately show ?thesis by (metis converse_rtranclp_into_rtranclp r_into_rtranclp)
qed

text \<open>A read that succeeds: the handler starts and decodes, with the clock at \<open>w\<close>.\<close>

lemma session_steps_decode:
  assumes "0 < outstanding_reads (m_socket (sess y))" and "running y = []" and "length data \<le> buffer_size"
    and "process J P (m_processor (sess y)) w data = (Inr es, p', w')"
  shows "(session_step J P)\<^sup>*\<^sup>* y
    (y\<lparr>sess := (deliver (sess y) (Read_ok data))\<lparr>m_processor := p'\<rparr>, running := [Decoded es],
      completed := completed y @ [Read_ok data]\<rparr>)"
proof -
  let ?d = "y\<lparr>sess := deliver (sess y) (Read_ok data), running := [Started (Some (length data))],
      completed := completed y @ [Read_ok data]\<rparr>"
  let ?e = "?d\<lparr>sess := (sess ?d)\<lparr>m_processor := p'\<rparr>, running := [] @ Decoded es # []\<rparr>"
  have "session_step J P y ?d"
    using session_step_dispatch [of y "Read_ok data" J P] assms(1-3) by simp
  moreover have "session_step J P ?d ?e"
    by (rule session_step.decode [where n = "length data" and w = w and w' = w']) (use assms(4) in simp_all)
  ultimately have "(session_step J P)\<^sup>*\<^sup>* y ?e" by (simp only: converse_rtranclp_into_rtranclp r_into_rtranclp)
  then show ?thesis by (rule back_subst) simp
qed

lemma session_steps_crash:
  assumes "0 < outstanding_reads (m_socket (sess y))" and "running y = []" and "length data \<le> buffer_size"
    and "process J P (m_processor (sess y)) w data = (Inl f, p', w')"
  shows "\<exists>u. (session_step J P)\<^sup>*\<^sup>* y u \<and> crashed u"
proof -
  let ?d = "y\<lparr>sess := deliver (sess y) (Read_ok data), running := [Started (Some (length data))],
      completed := completed y @ [Read_ok data]\<rparr>"
  have "session_step J P y ?d"
    using session_step_dispatch [of y "Read_ok data" J P] assms(1-3) by simp
  moreover have "session_step J P ?d
      (?d\<lparr>sess := (sess ?d)\<lparr>m_processor := p'\<rparr>, running := [] @ [], crashed := True\<rparr>)"
    by (rule session_step.crash [where n = "length data" and w = w and w' = w' and f = f])
      (use assms(4) in simp_all)
  ultimately show ?thesis
    by (intro exI conjI) (erule converse_rtranclp_into_rtranclp, erule r_into_rtranclp, simp)
qed

text \<open>The end of a handler: the batch is handed on, the next read is requested.\<close>

lemma session_step_finish:
  assumes "running y = [Decoded es]"
  shows "session_step J P y (y\<lparr>sess := session_read (sess y), running := [],
    batches := batches y @ (if es \<noteq> [] then [es] else [])\<rparr>)"
  using session_step.finish [of y "[]" es "[]" J P] assms by simp

section \<open>Steps of the server are steps of the sessions\<close>

text \<open>A read is outstanding only while no handler of the connection is under way.\<close>

lemma conns_inv_idle:
  assumes "conns_inv J P y" and "i < length (conns y)"
    and "0 < outstanding_reads (m_socket (conn_session (conns y ! i)))"
  shows "conn_work (conns y ! i) = Waiting \<and> \<not> read_failed (conns y ! i)"
  using assms nth_mem [OF assms(2)] by (auto simp: conns_inv_def conn_inv_def split: if_splits)

text \<open>A handler starts with elements to push only if it has decoded some.\<close>

definition batches_inv :: "('a, 's) server_sys \<Rightarrow> bool" where
  "batches_inv y \<longleftrightarrow> (\<forall>c \<in> set (conns y). \<forall>k. conn_work c \<noteq> Dispatching [] k)"

lemma batches_inv_update:
  "batches_inv y \<Longrightarrow> conns z = (conns y)[i := c] \<Longrightarrow> (\<And>k. conn_work c \<noteq> Dispatching [] k) \<Longrightarrow>
   batches_inv z"
  using set_update_subset_insert [of "conns y" i c] by (auto simp: batches_inv_def)

lemma batches_inv_same: "conns z = conns y \<Longrightarrow> batches_inv y \<Longrightarrow> batches_inv z"
  by (simp add: batches_inv_def)

lemma batches_inv_at:
  "batches_inv y \<Longrightarrow> i < length (conns y) \<Longrightarrow> conn_work (conns y ! i) \<noteq> Dispatching [] k"
  by (simp add: batches_inv_def)

lemma server_step_batches_inv: "server_step J P ops y z \<Longrightarrow> batches_inv y \<Longrightarrow> batches_inv z"
proof (induction rule: server_step.induct)
  case (accept_finished y hs j ec hs' junk)
  then show ?case by (auto simp: batches_inv_def accept_callback_def on_accept_def)
next
  case (read_completes y i ev)
  note at = batches_inv_at [OF read_completes(5,2)]
  show ?case
  proof (cases rule: read_start_cases [OF refl [of "read_start J P i ev y"]])
    case 1
    show ?thesis unfolding 1(2) by (rule batches_inv_update [OF read_completes(5)]) (auto simp: at)
  next
    case (2 w')
    show ?thesis by (rule batches_inv_same [OF _ read_completes(5)]) (simp add: 2)
  next
    case (3 data es p' w' s)
    show ?thesis unfolding 3(4) by (rule batches_inv_update [OF read_completes(5)]) (auto split: if_splits)
  qed
next
  case (pushes i y es k)
  show ?case
    by (rule batches_inv_update [OF pushes(4)]) (use batches_inv_at [OF pushes(4,1), of k] pushes(2) in auto)
next
  case (read_finished i y es k)
  show ?case unfolding read_finish_def by (rule batches_inv_update [OF read_finished(4)]) auto
qed (auto intro: batches_inv_same)

definition hosts_sessions :: "'j json_ops \<Rightarrow> platform \<Rightarrow> ('a, 's) server_sys \<Rightarrow> bool" where
  "hosts_sessions J P y \<longleftrightarrow> conns_inv J P y \<and> batches_inv y"

lemma session_steps_conn:
  "(session_step J P)\<^sup>*\<^sup>* (conn_machine (cs ! j)) (conn_machine c) \<or> i \<noteq> j \<Longrightarrow> j < length cs \<Longrightarrow>
   (session_step J P)\<^sup>*\<^sup>* (conn_machine (cs ! j)) (conn_machine (cs[i := c] ! j))"
  by (cases "i = j") auto

lemma read_start_sessions:
  assumes "conns_inv J P y" and "i < length (conns y)"
    and "0 < outstanding_reads (m_socket (conn_session (conns y ! i)))"
    and "\<And>data. ev = Read_ok data \<Longrightarrow> length data \<le> buffer_size" and "j < length (conns y)"
  shows "(session_step J P)\<^sup>*\<^sup>* (conn_machine (conns y ! j)) (conn_machine (conns (read_start J P i ev y) ! j))"
proof -
  let ?c = "conns y ! i"
  have idle: "conn_work ?c = Waiting" "\<not> read_failed ?c" using conns_inv_idle [OF assms(1-3)] by auto
  have out: "0 < outstanding_reads (m_socket (sess (conn_machine ?c)))"
    and run: "running (conn_machine ?c) = []"
    using assms(3) idle by (simp_all add: conn_machine_def)
  show ?thesis
  proof (cases rule: read_start_cases [OF refl [of "read_start J P i ev y"]])
    case 1
    have "(session_step J P)\<^sup>*\<^sup>* (conn_machine ?c)
        (conn_machine (?c\<lparr>conn_session := deliver (conn_session ?c) ev, read_failed := True\<rparr>))"
      using session_steps_error [OF out run] idle by (simp add: 1(1) conn_machine_def conn_reads_def)
    then show ?thesis unfolding 1(2) set_conn_sel using assms(5) by (intro session_steps_conn) auto
  next
    case (2 w')
    then show ?thesis by simp
  next
    case (3 data es p' w' s)
    let ?c' = "?c\<lparr>received := received ?c @ [data],
        conn_session := (if es \<noteq> [] then s else session_read s),
        conn_work := (if es \<noteq> [] then Dispatching es 0 else Waiting)\<rparr>"
    let ?d = "(conn_machine ?c)\<lparr>sess := s, running := [Decoded es],
        completed := conn_reads ?c @ [Read_ok data]\<rparr>"
    have dec: "(session_step J P)\<^sup>*\<^sup>* (conn_machine ?c) ?d"
      using session_steps_decode [OF out run assms(4) [OF 3(1)], of J P "server_clock y" es p' w'] 3(1-3)
      by (simp add: conn_machine_def)
    have "(session_step J P)\<^sup>*\<^sup>* (conn_machine ?c) (conn_machine ?c')"
    proof (cases "es = []")
      case True
      have "session_step J P ?d (conn_machine ?c')"
        using session_step_finish [of ?d es J P] True idle
        by (simp add: conn_machine_def conn_reads_def)
      with dec show ?thesis by (rule rtranclp.rtrancl_into_rtrancl)
    next
      case False
      then show ?thesis using dec idle by (simp add: conn_machine_def conn_reads_def)
    qed
    then have "(session_step J P)\<^sup>*\<^sup>* (conn_machine (conns y ! j)) (conn_machine ((conns y)[i := ?c'] ! j))"
      using assms(5) by (intro session_steps_conn) auto
    then show ?thesis unfolding 3(4) by simp
  qed
qed

lemma read_finish_sessions:
  assumes "i < length (conns y)" and "conn_work (conns y ! i) = Dispatching es k" and "es \<noteq> []"
    and "j < length (conns y)"
  shows "(session_step J P)\<^sup>*\<^sup>* (conn_machine (conns y ! j)) (conn_machine (conns (read_finish i es y) ! j))"
proof -
  let ?c = "conns y ! i"
  have "session_step J P (conn_machine ?c) (conn_machine (?c\<lparr>conn_work := Waiting,
      conn_session := session_read (conn_session ?c), dispatched := dispatched ?c @ [es]\<rparr>))"
    using session_step_finish [of "conn_machine ?c" es J P] assms(2,3)
    by (simp add: conn_machine_def conn_reads_def)
  then show ?thesis
    unfolding read_finish_def set_conn_sel using assms(4) by (intro session_steps_conn) auto
qed

lemma push_one_machine:
  assumes "i < length (conns y)" and "conn_work (conns y ! i) = Dispatching es k" and "j < length (conns y)"
  shows "conn_machine (conns (push_one i es k y) ! j) = conn_machine (conns y ! j)"
  using assms by (cases "i = j") (simp_all add: conn_machine_def conn_reads_def)

lemma session_steps_same:
  "conns z = conns y \<Longrightarrow> (session_step J P)\<^sup>*\<^sup>* (conn_machine (conns y ! i)) (conn_machine (conns z ! i))"
  by simp

lemma server_step_sessions:
  assumes "server_step J P ops y z" and "hosts_sessions J P y" and "i < length (conns y)"
  shows "(session_step J P)\<^sup>*\<^sup>* (conn_machine (conns y ! i)) (conn_machine (conns z ! i))"
  using assms
proof (induction rule: server_step.induct)
  case (accept_finished y hs j ec hs' junk)
  then show ?case by (simp add: accept_callback_def on_accept_def nth_append)
next
  case (read_completes y j ev)
  then show ?case by (intro read_start_sessions) (simp_all add: hosts_sessions_def)
next
  case (pushes j y es k)
  then show ?case by (simp only: push_one_machine)
next
  case (read_finished j y es k)
  have "es \<noteq> []" using batches_inv_at [of y j k] read_finished by (auto simp: hosts_sessions_def)
  then show ?case using read_finished by (intro read_finish_sessions) simp_all
qed (auto intro!: session_steps_same)

lemma new_conn_fresh:
  "outstanding_reads sock = 0 \<Longrightarrow> length junk = buffer_size \<Longrightarrow>
   session_fresh (conn_machine \<lparr>conn_session = session_read (new_session sock junk),
     conn_work = Waiting, read_failed = False, received = [], dispatched = []\<rparr>)"
  unfolding session_fresh_def
  by (intro exI [of _ sock] exI [of _ junk]) (simp add: conn_machine_def conn_reads_def start_session_def)

lemma server_step_new_session:
  assumes "server_step J P ops y z"
  shows "length (conns y) \<le> length (conns z)"
    and "length (conns y) \<le> i \<Longrightarrow> i < length (conns z) \<Longrightarrow> session_fresh (conn_machine (conns z ! i))"
proof -
  have "length (conns y) \<le> length (conns z) \<and> (length (conns y) \<le> i \<longrightarrow> i < length (conns z) \<longrightarrow>
      session_fresh (conn_machine (conns z ! i)))" for i
    using assms
  proof (induction rule: server_step.induct)
    case (accept_finished y hs j ec hs' junk)
    then show ?case
      by (auto simp: accept_callback_def on_accept_def nth_append intro: new_conn_fresh)
  qed simp_all
  then show "length (conns y) \<le> length (conns z)"
    and "length (conns y) \<le> i \<Longrightarrow> i < length (conns z) \<Longrightarrow> session_fresh (conn_machine (conns z ! i))"
    by blast+
qed

interpretation hosted_sessions: hosted_machines "server_step J P ops" "hosts_sessions J P"
    "\<lambda>y. map conn_machine (conns y)" "session_step J P" session_fresh
  for J :: "'j json_ops" and P and ops :: "sink_spec \<Rightarrow> int \<Rightarrow> 's sink_ops"
proof unfold_locales
  fix y z :: "('a, 's) server_sys" and i
  assume ok: "hosts_sessions J P y" and step: "server_step J P ops y z"
  show "hosts_sessions J P z"
    using ok step server_step_conns_inv server_step_batches_inv unfolding hosts_sessions_def by blast
  show "length (map conn_machine (conns y)) \<le> length (map conn_machine (conns z))"
    using server_step_new_session(1) [OF step] by simp
  show "(session_step J P)\<^sup>*\<^sup>* (map conn_machine (conns y) ! i) (map conn_machine (conns z) ! i)"
    if "i < length (map conn_machine (conns y))"
    using that server_step_sessions [OF step ok] server_step_new_session(1) [OF step] by simp
  show "session_fresh (map conn_machine (conns z) ! i)"
    if "length (map conn_machine (conns y)) \<le> i" and "i < length (map conn_machine (conns z))"
    using that server_step_new_session(2) [OF step] by simp
qed

section \<open>Reachable states\<close>

lemma start_sys_hosts_sessions: "hosts_sessions J P (start_sys v w)"
  by (simp add: hosts_sessions_def conns_inv_def batches_inv_def start_sys_def)

lemma server_reachable_session:
  assumes "server_reachable J P ops (start_sys v w) z" and "i < length (conns z)"
  shows "\<exists>sock junk. outstanding_reads sock = 0 \<and> length junk = buffer_size \<and>
    session_reachable J P (start_session sock junk) (conn_machine (conns z ! i))"
proof -
  have "i < length (map conn_machine (conns z))" using assms(2) by simp
  then obtain a where "session_fresh a"
    and "(session_step J P)\<^sup>*\<^sup>* a (map conn_machine (conns z) ! i)"
    using hosted_sessions.parts_begin [OF server_reachable_steps [OF assms(1)]
        start_sys_hosts_sessions] by (auto simp: start_sys_def)
  then show ?thesis using assms(2) by (auto simp: session_fresh_def session_reachable_steps)
qed

text \<open>What ended the program in a handler is a crash of one of the sessions.\<close>

lemma server_step_aborted:
  assumes "server_step J P ops y z" and "conns_inv J P y" and "\<not> aborted y" and "aborted z"
  shows "\<exists>i < length (conns z). \<exists>u. (session_step J P)\<^sup>*\<^sup>* (conn_machine (conns z ! i)) u \<and> crashed u"
  using assms
proof (induction rule: server_step.induct)
  case (read_completes y i ev)
  let ?s = "conn_session (conns y ! i)"
  obtain data f p' w' where ev: "ev = Read_ok data"
    and p: "process J P (m_processor ?s) (server_clock y) data = (Inl f, p', w')"
    and z: "conns (read_start J P i ev y) = conns y"
  proof (cases ev)
    case Read_error
    then show ?thesis using read_completes(6,7) by (simp add: read_start_def Let_def)
  next
    case (Read_ok data)
    then show ?thesis
      using read_completes(6,7) that
      by (auto simp: read_start_def Let_def split: prod.splits sum.splits)
  qed
  have idle: "conn_work (conns y ! i) = Waiting"
    using conns_inv_idle [OF read_completes(5,2,3)] by simp
  have "0 < outstanding_reads (m_socket (sess (conn_machine (conns y ! i))))"
    "running (conn_machine (conns y ! i)) = []"
    "process J P (m_processor (sess (conn_machine (conns y ! i)))) (server_clock y) data = (Inl f, p', w')"
    using read_completes(3) idle p by (simp_all add: conn_machine_def)
  from session_steps_crash [OF this(1,2) read_completes(4) [OF ev] this(3)]
  show ?case using read_completes(2) z by auto
qed (simp_all add: accept_start_def accept_callback_def on_accept_def push_one_def read_finish_def)

lemma server_reachable_aborted:
  assumes "server_reachable J P ops y z" and "hosts_sessions J P y" and "\<not> aborted y" and "aborted z"
  shows "\<exists>i < length (conns z). \<exists>u. (session_step J P)\<^sup>*\<^sup>* (conn_machine (conns z ! i)) u \<and> crashed u"
  using assms
proof (induction rule: server_reachable.induct)
  case (goes_on y z z')
  then have "\<not> aborted z" by (simp add: terminated_def)
  moreover have "hosts_sessions J P z"
    using hosted_sessions.run_ok [OF server_reachable_steps [OF goes_on(1)] goes_on(5)] .
  ultimately show ?case
    using server_step_aborted [OF goes_on(3)] goes_on(7) unfolding hosts_sessions_def by blast
qed simp

section \<open>Properties\<close>

text \<open>C7. The server refines the machine of a single session: what has become of a connection is
  what a session on a new socket reaches by steps of its own, whatever the other connections,
  the accepts, the loggers and the destructor have done in between; and when a failure in a
  handler has ended the program, some session has a next step in which it crashes.\<close>

theorem server_runs_sessions:
  assumes "server_reachable J P ops (start_sys v w) z"
  shows "(\<forall>c \<in> set (conns z). \<exists>sock junk. outstanding_reads sock = 0 \<and> length junk = buffer_size \<and>
      session_reachable J P (start_session sock junk) (conn_machine c)) \<and>
    (aborted z \<longrightarrow> (\<exists>c \<in> set (conns z). \<exists>u. session_reachable J P (conn_machine c) u \<and> crashed u))"
proof (intro conjI impI)
  show "\<forall>c \<in> set (conns z). \<exists>sock junk. outstanding_reads sock = 0 \<and> length junk = buffer_size \<and>
      session_reachable J P (start_session sock junk) (conn_machine c)"
    using server_reachable_session [OF assms] by (metis in_set_conv_nth)
  have "\<not> aborted (start_sys v w)" by (simp add: start_sys_def)
  then show "\<exists>c \<in> set (conns z). \<exists>u. session_reachable J P (conn_machine c) u \<and> crashed u" if "aborted z"
    using server_reachable_aborted [OF assms start_sys_hosts_sessions _ that]
    by (metis nth_mem session_reachable_steps)
qed

text \<open>C9. In the running server, a connection whose handlers have all ended is in the state, and has
  handed on the batches, that its completed reads give one after the other, each with some
  reading of the clock; the threads that ran the handlers make no difference.\<close>

theorem server_sessions_sequential:
  assumes "server_reachable J P ops (start_sys v w) z" and "c \<in> set (conns z)"
    and "conn_work c = Waiting"
  shows "\<exists>sock junk ws. outstanding_reads sock = 0 \<and> length ws = length (conn_reads c) \<and>
    session_run_at J P (session_read (new_session sock junk)) (zip ws (conn_reads c)) =
      Some (dispatched c, conn_session c)"
proof -
  obtain sock junk where new: "outstanding_reads sock = 0" "length junk = buffer_size"
    and run: "session_reachable J P (start_session sock junk) (conn_machine c)"
    using server_reachable_session [OF assms(1)] assms(2) by (metis in_set_conv_nth)
  have "\<not> crashed (conn_machine c)" "running (conn_machine c) = []"
    using assms(3) by (simp_all add: conn_machine_def)
  from session_sequential [OF run new this] show ?thesis
    using new(1) by (auto simp: conn_machine_def)
qed

text \<open>C21. The server refines the machine of a single logger: each of its loggers is in a state that
  the logger machine reaches with the sink and the level of its slot, from an empty queue.\<close>

theorem server_runs_loggers:
  assumes "new_server sys S opt = (None, v)" and "server_reachable J P ops (start_sys v w) z"
    and "slot \<in> set (m_loggers (server z))"
  shows "\<exists>sink. logger_reachable (ops (slot_spec slot) (slot_level slot)) sink (slot_logger slot)"
proof -
  have "loggers_inv ops z"
    using assms(2) new_server_invs(1,2) [OF assms(1)] by (rule server_reachable_loggers_inv)
  then show ?thesis using assms(3) by (auto simp: loggers_inv_def slot_ops_def)
qed

section \<open>Witnesses\<close>

lemma sample_handled_sel:
  "map conn_work (conns sample_handled) = [Waiting]"
  "map dispatched (conns sample_handled) = [[[mk_element 100 trace ''[] [:] [::] '']]]"
  "map conn_reads (conns sample_handled) = [[Read_ok ''{}'']]"
  "map (\<lambda>s. pushed (slot_logger s)) (m_loggers (server sample_handled)) =
     [[mk_element 100 trace ''[] [:] [::] '']]"
  by code_simp+

lemma sample_handled_conn:
  obtains c where "c \<in> set (conns sample_handled)" and "conn_work c = Waiting"
    and "dispatched c = [[mk_element 100 trace ''[] [:] [::] '']]" and "conn_reads c = [Read_ok ''{}'']"
  using sample_handled_sel(1-3) by (cases "conns sample_handled") auto

theorem server_runs_sessions_witness:
  "\<exists>c sock junk. dispatched c = [[mk_element 100 trace ''[] [:] [::] '']] \<and>
     session_reachable sample_json sample_platform (start_session sock junk) (conn_machine c)"
proof -
  obtain c where "c \<in> set (conns sample_handled)"
    and "dispatched c = [[mk_element 100 trace ''[] [:] [::] '']]"
    by (rule sample_handled_conn)
  then show ?thesis using server_runs_sessions [OF sample_handled_reachable] by blast
qed

theorem server_sessions_sequential_witness:
  "\<exists>sock junk w s. session_run_at sample_json sample_platform (session_read (new_session sock junk))
     [(w, Read_ok ''{}'')] = Some ([[mk_element 100 trace ''[] [:] [::] '']], s)"
proof -
  obtain c where c: "c \<in> set (conns sample_handled)" "conn_work c = Waiting"
    and out: "dispatched c = [[mk_element 100 trace ''[] [:] [::] '']]"
    and reads: "conn_reads c = [Read_ok ''{}'']"
    by (rule sample_handled_conn)
  obtain sock junk ws where "length ws = 1" and "session_run_at sample_json sample_platform
      (session_read (new_session sock junk)) (zip ws [Read_ok ''{}'']) =
      Some ([[mk_element 100 trace ''[] [:] [::] '']], conn_session c)"
    using server_sessions_sequential [OF sample_handled_reachable c] unfolding out reads by auto
  then show ?thesis by (cases ws) auto
qed

theorem server_runs_loggers_witness:
  "\<exists>spec lvl sink l. logger_reachable (sample_ops spec lvl) sink l \<and>
     pushed l = [mk_element 100 trace ''[] [:] [::] '']"
proof -
  obtain slot where "slot \<in> set (m_loggers (server sample_handled))"
    and "pushed (slot_logger slot) = [mk_element 100 trace ''[] [:] [::] '']"
    using sample_handled_sel(4) by (cases "m_loggers (server sample_handled)") auto
  then show ?thesis using server_runs_loggers [OF new_sample_server sample_handled_reachable] by blast
qed

end
