(* ===== verification/Popl_Table.thy ===== *)
theory Popl_Table
  imports Popl_Parser
begin

text \<open>
  Looking options up (\<^verbatim>\<open>add\<close>, \<^verbatim>\<open>find_option\<close>, \<^verbatim>\<open>get_option\<close> in \<^verbatim>\<open>src/src/popl.hpp\<close>): a table
  that is built by adding options has no name twice, so that every option is found by its names,
  before and after parsing. An option without a long name can be set by an argument without a
  name.
\<close>

section \<open>Tables that are built by adding options\<close>

definition clash :: "Option \<Rightarrow> Option \<Rightarrow> bool" where
  "clash x y \<longleftrightarrow>
     (option_short_name x \<noteq> NUL \<and> option_short_name x = option_short_name y) \<or>
     (opt_long x \<noteq> [] \<and> opt_long x = opt_long y)"

definition distinct_names :: "Option list \<Rightarrow> bool" where
  "distinct_names opts \<longleftrightarrow> sorted_wrt (\<lambda>x y. \<not> clash y x) opts"

lemma duplicate_None: "duplicate opt opts = None \<longleftrightarrow> (\<forall>x \<in> set opts. \<not> clash opt x)"
  by (induction opts) (auto simp: clash_def)

text \<open>\<open>added p m\<close>: the parser results from calls of \<^verbatim>\<open>add\<close>, failing ones included.\<close>

inductive added :: "OptionParser \<Rightarrow> store \<Rightarrow> bool" where
  no_options: "added (new_parser descr) m"
| adds: "added p m \<Longrightarrow> add_option attr mk p m = (r, p', m') \<Longrightarrow> added p' m'"

lemma set_attribute_sel [simp]:
  "opt_long (set_attribute opt a) = opt_long opt" "opt_short (set_attribute opt a) = opt_short opt"
  "option_short_name (set_attribute opt a) = option_short_name opt"
  by (simp_all add: set_attribute_def option_short_name_def)

lemma clash_set_attribute [simp]: "clash (set_attribute opt a) x \<longleftrightarrow> clash opt x"
  by (simp add: clash_def)

lemma added_distinct: "added p m \<Longrightarrow> distinct_names (options p)"
proof (induction rule: added.induct)
  case (no_options descr m)
  then show ?case by (simp add: distinct_names_def new_parser_def)
next
  case (adds p m attr mk r p' m')
  then show ?case
    by (auto simp: add_option_def distinct_names_def sorted_wrt_append duplicate_None
        split: sum.splits option.splits)
qed

section \<open>Finding them\<close>

lemma distinct_names_first:
  assumes "distinct_names opts" and "j < k" and "k < length opts"
  shows "opt_long (opts ! k) \<noteq> [] \<Longrightarrow> opt_long (opts ! j) \<noteq> opt_long (opts ! k)"
    and "option_short_name (opts ! k) \<noteq> NUL \<Longrightarrow>
      option_short_name (opts ! j) \<noteq> option_short_name (opts ! k)"
proof -
  have "\<not> clash (opts ! k) (opts ! j)"
    using assms unfolding distinct_names_def sorted_wrt_iff_nth_less by simp
  then show "opt_long (opts ! k) \<noteq> [] \<Longrightarrow> opt_long (opts ! j) \<noteq> opt_long (opts ! k)"
    and "option_short_name (opts ! k) \<noteq> NUL \<Longrightarrow>
      option_short_name (opts ! j) \<noteq> option_short_name (opts ! k)"
    by (auto simp: clash_def)
qed

lemma find_option_named:
  assumes "distinct_names (options p)" and "k < length (options p)"
  shows "opt_long (options p ! k) \<noteq> [] \<Longrightarrow> find_long p (opt_long (options p ! k)) = Some k"
    and "option_short_name (options p ! k) \<noteq> NUL \<Longrightarrow>
      find_short p (option_short_name (options p ! k)) = Some k"
  unfolding find_long_def find_short_def
  using distinct_names_first [OF assms(1) _ assms(2)] by (simp_all add: find_index_first [OF assms(2)])

section \<open>What parsing leaves of the table\<close>

lemma find_index_map: "find_index (\<lambda>x. q (f x)) xs = find_index q (map f xs)"
  by (induction xs) simp_all

lemma find_option_bare:
  "find_long p nm = find_index (\<lambda>opt. opt_long opt = nm) (map bare (options p))"
  "find_short p c = find_index (\<lambda>opt. option_short_name opt = c) (map bare (options p))"
  by (simp_all add: find_long_def find_short_def find_index_map [symmetric])

lemma parse_argv_table:
  assumes "parse_argv argv p m = (r, p', m')"
  shows "map bare (options p') = map bare (options p)"
  using table.keeps_parse_argv [OF assms, of "map bare (options p)" m] by (simp add: same_table_def)

lemma casts_to_bare [simp]: "casts_to cls ty (bare opt) \<longleftrightarrow> casts_to cls ty opt"
  by (simp add: casts_to_def)

lemma get_option_table:
  assumes "map bare (options p') = map bare (options p)"
    and "\<And>k. found = Some k \<Longrightarrow> k < length (options p)"
  shows "get_option cls ty p' found shown = get_option cls ty p found shown"
proof (cases found)
  case (Some k)
  then have "bare (options p' ! k) = bare (options p ! k)"
    using assms by (metis length_map nth_map)
  then have "casts_to cls ty (options p' ! k) = casts_to cls ty (options p ! k)"
    by (metis casts_to_bare)
  then show ?thesis using Some by (simp add: get_option_def)
qed (simp add: get_option_def)

lemma get_option_parsed:
  assumes "parse_argv argv p m = (r, p', m')"
  shows "get_option_long cls ty p' nm = get_option_long cls ty p nm"
    and "get_option_short cls ty p' c = get_option_short cls ty p c"
proof -
  note T = parse_argv_table [OF assms]
  have "find_long p' nm = find_long p nm" "find_short p' c = find_short p c"
    by (simp_all only: find_option_bare T)
  moreover have "find_long p nm = Some k \<Longrightarrow> k < length (options p)"
    "find_short p c = Some k \<Longrightarrow> k < length (options p)" for k
    by (auto simp: find_long_def find_short_def dest: find_index_length)
  ultimately show "get_option_long cls ty p' nm = get_option_long cls ty p nm"
    "get_option_short cls ty p' c = get_option_short cls ty p c"
    using get_option_table [OF T, of "find_long p nm"] get_option_table [OF T, of "find_short p c"]
    by (simp_all add: get_option_long_def get_option_short_def)
qed

section \<open>A table for the witnesses\<close>

text \<open>A switch, and an option without a long name.\<close>

definition sample_switch :: "store \<Rightarrow> (Option \<times> store) res" where
  "sample_switch m = new_switch ''v'' ''verbose'' ''Be verbose'' None m"

definition sample_short :: "store \<Rightarrow> (Option \<times> store) res" where
  "sample_short m = new_value Value T_int ''n'' [] ''How often'' (V_int 1) None m"

definition nameless_table :: OptionParser where
  "nameless_table = (case add_option optional sample_switch (new_parser ''sample'') (\<lambda>x. None) of
     (r, p, m) \<Rightarrow> fst (snd (add_option optional sample_short p m)))"

lemma nameless_table_added: "added nameless_table (\<lambda>x. None)"
proof -
  obtain r p m where 1: "add_option optional sample_switch (new_parser ''sample'') (\<lambda>x. None) = (r, p, m)"
    by (metis prod.collapse)
  obtain r' p' m' where 2: "add_option optional sample_short p m = (r', p', m')"
    by (metis prod.collapse)
  have "m = (\<lambda>x. None)" "m' = m" "p' = nameless_table"
    using 1 2
    by (auto simp: nameless_table_def add_option_def sample_switch_def sample_short_def new_switch_def new_value_def new_plain_value_def
        new_option_def set_default_def update_reference_def is_set_def Let_def split: option.splits)
  then show ?thesis using added.adds [OF added.adds [OF added.no_options 1] 2] by simp
qed

lemma nameless_table_options:
  "map opt_long (options nameless_table) = [''verbose'', []]"
  "map option_short_name (options nameless_table) = [CHR ''v'', CHR ''n'']"
  "opt_attribute (options nameless_table ! 1) = optional" "opt_class (options nameless_table ! 1) = Value"
  "opt_type (options nameless_table ! 1) = T_int"
  by (simp_all add: nameless_table_def add_option_def sample_switch_def sample_short_def new_switch_def
      new_value_def new_plain_value_def new_option_def set_default_def update_reference_def is_set_def Let_def new_parser_def
      option_short_name_def NUL_def set_attribute_def)

section \<open>Properties\<close>



text \<open>An argument without a name is not unknown: if the table has options without a long name,
  \<^verbatim>\<open>--=s\<close> gives the text \<open>s\<close> to the first of them.\<close>

theorem nameless_argument_sets_option:
  assumes "k < length (options p)" and "opt_long (options p ! k) = []"
    and "\<forall>j < k. opt_long (options p ! j) \<noteq> []" and "opt_attribute (options p ! k) \<noteq> inactive"
    and "argument_type (options p ! k) \<noteq> no_argument" and "s \<noteq> []"
  shows "parse_args ((''--='' @ s) # rest) p m =
    (case parse_at k long_name s p m of
       (Some f, p', m') \<Rightarrow> (Some f, p', m') | (None, p', m') \<Rightarrow> parse_args rest p' m')"
proof -
  have find: "active_option p (find_long p []) = Some k"
    using assms(1-4) find_index_first [OF assms(1), of "\<lambda>opt. opt_long opt = []"]
    by (simp add: find_long_def active_option_def)
  have "split_equal (''='' @ s) = ([], s)" using split_equal_joined [of "[]" s] by simp
  then have "parse_one (''--='' @ s) rest p m = (parse_at k long_name s p m, rest)"
    using assms(5,6) find
    by (cases "argument_type (options p ! k)")
      (simp_all add: parse_one_def starts_with_def parse_long_def next_argument_def)
  then show ?thesis by (simp add: parse_args.simps(2) split: prod.split option.split)
qed

theorem nameless_argument_sets_option_witness:
  "parse_args [''--=7''] nameless_table (\<lambda>x. None) = parse_at 1 long_name ''7'' nameless_table (\<lambda>x. None)"
proof -
  have len: "length (options nameless_table) = 2"
    using nameless_table_options(1) by (metis length_map list.size(3,4) One_nat_def Suc_1 add.commute plus_1_eq_Suc)
  then have l: "opt_long (options nameless_table ! 0) = ''verbose''" "opt_long (options nameless_table ! 1) = []"
    using nameless_table_options(1)
    by (metis One_nat_def lessI nth_Cons_0 nth_Cons_Suc nth_map numeral_2_eq_2 zero_less_Suc)+
  show ?thesis
    using nameless_argument_sets_option [of 1 nameless_table "''7''" "[]" "\<lambda>x. None"] len l nameless_table_options(3,4)
    by (simp add: argument_type_def split: prod.split option.split)
qed

end
