(* ===== verification/Popl_Completion.thy ===== *)
theory Popl_Completion
  imports Popl_Printer Popl_Table
begin

text \<open>
  The printers and the parser of \<^verbatim>\<open>src/src/popl.hpp\<close> agree: what the script for bash completion
  offers is what the parser takes for an option, and the options it offers are those the help
  shows at its highest level. The script is read the way the shell reads it: the words between
  the quotation marks of the line that assigns \<^verbatim>\<open>opts\<close>.
\<close>

section \<open>What the shell makes of the script\<close>

text \<open>Words, separated by blanks; \<open>w\<close> is the word that has been begun.\<close>

fun blank_words :: "string \<Rightarrow> string \<Rightarrow> string list" where
  "blank_words w [] = (if w = [] then [] else [w])"
| "blank_words w (c # cs) =
     (if c = CHR '' '' then (if w = [] then blank_words [] cs else w # blank_words [] cs)
      else blank_words (w @ [c]) cs)"

definition quoted :: "string \<Rightarrow> string" where
  "quoted l = takeWhile (\<lambda>c. c \<noteq> hd quotation) (tl (dropWhile (\<lambda>c. c \<noteq> hd quotation) l))"

definition completion_words :: "string \<Rightarrow> string list" where
  "completion_words script = blank_words [] (quoted (getlines script ! 6))"

text \<open>Names that can be written between the quotation marks, and as one argument.\<close>

definition writable :: "string \<Rightarrow> bool" where
  "writable s \<longleftrightarrow> CHR '' '' \<notin> set s \<and> newline \<notin> set s \<and> hd quotation \<notin> set s"

definition writable_option :: "Option \<Rightarrow> bool" where
  "writable_option opt \<longleftrightarrow> writable (opt_long opt) \<and> CHR ''='' \<notin> set (opt_long opt) \<and>
     writable [option_short_name opt] \<and> option_short_name opt \<noteq> CHR ''-''"

text \<open>The names of an option as they are written on the command line, and what is offered of them.\<close>

definition option_names :: "Option \<Rightarrow> string list" where
  "option_names opt =
     (if option_short_name opt \<noteq> NUL then [''-'' @ [option_short_name opt]] else []) @
     (if opt_long opt \<noteq> [] then [''--'' @ opt_long opt] else [])"

definition option_words :: "Option \<Rightarrow> string list" where
  "option_words opt = (if hidden < opt_attribute opt then option_names opt else [])"

lemma char_codes: "quotation = [CHR 0x22]" "newline = CHR 0x0A" "tab = CHR 0x09"
  by code_simp+

lemma visible_expert: "visible expert opt \<longleftrightarrow> hidden < opt_attribute opt"
  by (cases "opt_attribute opt") (simp_all add: visible_def less_Attribute_def less_eq_Attribute_def)

lemma blank_words_word: "CHR '' '' \<notin> set u \<Longrightarrow> blank_words w (u @ t) = blank_words (w @ u) t"
  by (induction u arbitrary: w) auto

lemma blank_words_blank:
  "CHR '' '' \<notin> set u \<Longrightarrow> u \<noteq> [] \<Longrightarrow> blank_words [] (u @ CHR '' '' # t) = u # blank_words [] t"
  by (simp add: blank_words_word)

lemma blank_words_options:
  "\<forall>opt \<in> set opts. writable_option opt \<Longrightarrow>
   blank_words [] (concat (map bash_option opts)) = concat (map option_words opts)"
proof (induction opts)
  case (Cons opt opts)
  have blanks: "CHR '' '' \<notin> set (CHR ''-'' # [option_short_name opt])"
    "CHR '' '' \<notin> set (CHR ''-'' # CHR ''-'' # opt_long opt)"
    using Cons.prems by (auto simp: writable_option_def writable_def)
  have "blank_words [] (bash_option opt @ t) = option_words opt @ blank_words [] t" for t
    using blank_words_blank [OF blanks(1)] blank_words_blank [OF blanks(2)]
    by (simp add: bash_option_def option_words_def option_names_def del: blank_words.simps)
  then show ?case using Cons by simp
qed simp

lemma bash_option_no_quotation:
  "writable_option opt \<Longrightarrow> hd quotation \<notin> set (bash_option opt) \<and> newline \<notin> set (bash_option opt)"
  by (auto simp: bash_option_def writable_option_def writable_def char_codes)

lemma up_to_char:
  "q \<notin> set s \<Longrightarrow> takeWhile (\<lambda>c. c \<noteq> q) (s @ q # t) = s \<and> dropWhile (\<lambda>c. c \<noteq> q) (s @ q # t) = q # t"
  by (induction s) auto

lemma quoted_line:
  "hd quotation \<notin> set pre \<Longrightarrow> hd quotation \<notin> set s \<Longrightarrow> quoted (pre @ quotation @ s @ quotation @ post) = s"
  using up_to_char [of "hd quotation" pre] up_to_char [of "hd quotation" s]
  by (simp add: quoted_def char_codes)

lemma completion_words_bash:
  assumes "\<forall>opt \<in> set (options p). writable_option opt" and "newline \<notin> set program_name"
  shows "completion_words (bash_print (Some p) program_name) = concat (map option_words (options p))"
proof -
  let ?opts = "concat (map bash_option (options p))"
  have plain: "hd quotation \<notin> set ?opts" "newline \<notin> set ?opts"
    using assms(1) bash_option_no_quotation by auto
  let ?l = "[tab] @ ''opts='' @ quotation @ ?opts @ quotation"
  let ?ls = "[''_'' @ program_name @ ''()'', ''{'', [tab] @ ''local cur prev opts'', [tab] @ ''COMPREPLY=()'',
      [tab] @ ''cur='' @ quotation @ ''${COMP_WORDS[COMP_CWORD]}'' @ quotation,
      [tab] @ ''prev='' @ quotation @ ''${COMP_WORDS[COMP_CWORD-1]}'' @ quotation, ?l,
      [tab] @ ''if [[ ${cur} == -* ]] ; then'',
      [tab, tab] @ ''COMPREPLY=( $(compgen -W '' @ quotation @ ''${opts}'' @ quotation @ '' -- ${cur}) )'',
      [tab, tab] @ ''return 0'', [tab] @ ''fi'', ''}'',
      ''complete -F '' @ ''_'' @ program_name @ '' '' @ program_name]"
  have "bash_print (Some p) program_name = concat (map (\<lambda>l. l @ [newline]) ?ls)"
    by (simp add: bash_print_def)
  moreover have "\<forall>l \<in> set ?ls. newline \<notin> set l"
    using assms(2) plain(2) by (simp add: char_codes)
  ultimately have "getlines (bash_print (Some p) program_name) = ?ls"
    by (simp only: getlines_lines)
  then have "getlines (bash_print (Some p) program_name) ! 6 = ?l" by simp
  moreover have "quoted ?l = ?opts"
    using quoted_line [of "[tab] @ ''opts=''" ?opts "[]"] plain(1)
    by (simp add: char_codes)
  ultimately show ?thesis using blank_words_options [OF assms(1)] by (simp add: completion_words_def)
qed

section \<open>What the parser makes of the words\<close>

lemma split_equal_none: "CHR ''='' \<notin> set s \<Longrightarrow> split_equal s = (s, [])"
  by (induction s) (auto simp: split_equal_def)

lemma parse_one_long_word:
  assumes "added p m0" and "k < length (options p)" and "hidden < opt_attribute (options p ! k)"
    and "opt_long (options p ! k) \<noteq> []" and "CHR ''='' \<notin> set (opt_long (options p ! k))"
  shows "\<exists>s. fst (parse_one (''--'' @ opt_long (options p ! k)) rest p m) = parse_at k long_name s p m"
proof -
  have "active_option p (find_long p (opt_long (options p ! k))) = Some k"
    using find_option_named(1) [OF added_distinct [OF assms(1)] assms(2,4)] assms(3)
    by (auto simp: active_option_def less_Attribute_def)
  then show ?thesis
    using assms(4,5)
    by (auto simp: parse_one_def starts_with_def parse_long_def split_equal_none
        split: Argument.splits prod.splits)
qed

lemma parse_one_short_word:
  assumes "added p m0" and "k < length (options p)" and "hidden < opt_attribute (options p ! k)"
    and "option_short_name (options p ! k) \<noteq> NUL" and "option_short_name (options p ! k) \<noteq> CHR ''-''"
  shows "\<exists>s. fst (parse_one (''-'' @ [option_short_name (options p ! k)]) rest p m) =
    parse_at k short_name s p m"
proof -
  have "active_option p (find_short p (option_short_name (options p ! k))) = Some k"
    using find_option_named(2) [OF added_distinct [OF assms(1)] assms(2,4)] assms(3)
    by (auto simp: active_option_def less_Attribute_def)
  note short = this assms(5) parse_one_def starts_with_def parse_short_def
  obtain a rest' where arg: "next_argument [] rest = (a, rest')" by fastforce
  obtain r p1 m1 r' p2 m2 where at: "parse_at k short_name [] p m = (r, p1, m1)"
    "parse_at k short_name a p m = (r', p2, m2)" by (metis prod.collapse)
  show ?thesis
  proof (cases "argument_type (options p ! k)")
    case no_argument
    then show ?thesis by (cases r) (auto simp: short at(1) intro!: exI [of _ "[]"])
  next
    case required_argument
    then show ?thesis by (cases r') (auto simp: short arg at(2) intro!: exI [of _ a])
  next
    case optional_argument
    then show ?thesis by (cases r) (auto simp: short at(1) intro!: exI [of _ "[]"])
  qed
qed

section \<open>Properties\<close>

text \<open>C34. Completion agrees with the parser and with the help: the words that the script offers are
  the names of exactly the options the help shows at its highest level, and the parser, given
  any of them as an argument, hands it to the option with that name; none is taken for an
  unknown option or for an operand.\<close>

theorem completion_agrees_with_parser:
  assumes "added p m0" and "\<forall>opt \<in> set (options p). writable_option opt"
    and "newline \<notin> set program_name"
  shows "set (completion_words (bash_print (Some p) program_name)) =
      (\<Union>opt \<in> {opt \<in> set (options p). visible expert opt}. set (option_names opt)) \<and>
    (\<forall>word \<in> set (completion_words (bash_print (Some p) program_name)).
       \<exists>k what s. k < length (options p) \<and> word \<in> set (option_names (options p ! k)) \<and>
         fst (parse_one word rest p m) = parse_at k what s p m)"
proof
  note words = completion_words_bash [OF assms(2,3)]
  show "set (completion_words (bash_print (Some p) program_name)) =
      (\<Union>opt \<in> {opt \<in> set (options p). visible expert opt}. set (option_names opt))"
    unfolding words visible_expert by (auto simp: option_words_def)
  show "\<forall>word \<in> set (completion_words (bash_print (Some p) program_name)).
       \<exists>k what s. k < length (options p) \<and> word \<in> set (option_names (options p ! k)) \<and>
         fst (parse_one word rest p m) = parse_at k what s p m"
  proof
    fix word assume "word \<in> set (completion_words (bash_print (Some p) program_name))"
    then obtain opt where "opt \<in> set (options p)" and w: "word \<in> set (option_words opt)"
      unfolding words by auto
    then obtain k where k: "k < length (options p)" "options p ! k = opt"
      by (metis in_set_conv_nth)
    then have "writable_option opt" using assms(2) by auto
    then show "\<exists>k what s. k < length (options p) \<and> word \<in> set (option_names (options p ! k)) \<and>
        fst (parse_one word rest p m) = parse_at k what s p m"
      using w k parse_one_long_word [OF assms(1) k(1)] parse_one_short_word [OF assms(1) k(1)]
      unfolding option_words_def option_names_def writable_option_def
      by (fastforce split: if_splits)
  qed
qed

theorem completion_agrees_with_parser_witness:
  "completion_words (bash_print (Some nameless_table) ''scriptor'') = [''-v'', ''--verbose'', ''-n''] \<and>
   (\<exists>k what s. fst (parse_one ''-n'' [''5''] nameless_table (\<lambda>x. None)) = parse_at k what s nameless_table (\<lambda>x. None))"
proof -
  have plain: "\<forall>opt \<in> set (options nameless_table). writable_option opt" by code_simp
  have name: "newline \<notin> set ''scriptor''" by code_simp
  have words: "completion_words (bash_print (Some nameless_table) ''scriptor'') = [''-v'', ''--verbose'', ''-n'']"
    by code_simp
  show ?thesis
    using completion_agrees_with_parser [OF nameless_table_added plain name, of "[''5'']" "\<lambda>x. None"] words by auto
qed

end
