(* ===== verification/Spec2Isabelle.thy ===== *)
theory Spec2Isabelle
  imports Program Server_Sessions Popl_Completion
begin

text \<open>
  \<^bold>\<open>Scriptor\<close> is a log server: clients connect to a unix or tcp socket and send log records as
  JSON objects, one after the other; the server cuts the bytes into objects, turns each into a
  record and writes the records to the sinks the command line asks for. This development models
  the program of \<^verbatim>\<open>src/src\<close>, including the option parser \<^verbatim>\<open>popl.hpp\<close> it ships.

  \<^bold>\<open>Parts and theories.\<close>
  \<^item> \<open>Prelude\<close>: failures (exceptions, undefined behaviour), results that may fail, positions of
    bytes. \<open>Cxx_Text\<close>, \<open>Cxx_Double\<close>, \<open>Cxx_Stream\<close>: what the sources use of the language and its
    library: \<^verbatim>\<open>std::to_string\<close>, \<^verbatim>\<open>std::stoi\<close>, \<^verbatim>\<open>std::stod\<close>, binary64 arithmetic and its
    conversion to integers, \<^verbatim>\<open>std::istringstream\<close> with \<^verbatim>\<open>operator>>\<close>. \<open>External\<close>: what is not
    under \<^verbatim>\<open>src\<close>, as parameters (the JSON and format libraries, the platform, the clock), with
    the documented behaviour that properties rely on as named hypotheses; the platform says what
    a compiled program does where the conversion of a time is undefined; \<open>Sample_Json\<close> is a
    JSON library for the witnesses. \<open>Interfaces\<close>: the contracts between components, as locales.
  \<^item> \<open>Element\<close> (\<^verbatim>\<open>element.h\<close>, \<^verbatim>\<open>element.cpp\<close>): the record and \<open>from_json\<close>, branch by branch.
  \<^item> \<open>Processor\<close> (\<^verbatim>\<open>session.cpp\<close>): the buffer, \<open>find_one\<close> and the call operator \<open>process\<close>;
    their specification \<open>cutting\<close> (the byte string as separators and objects) and the proof that
    \<open>process\<close> implements it.
  \<^item> \<open>Session\<close> (\<^verbatim>\<open>socket.h/cpp\<close>, \<^verbatim>\<open>session.h/cpp\<close>): a read, its completion handler, the step
    relation of a session in which the start, the decoding and the end of a handler are separate
    steps, so that handlers and reads could overlap.
  \<^item> \<open>Logger\<close> (\<^verbatim>\<open>logger.h/cpp\<close>): the queue, both overloads of \<^verbatim>\<open>push\<close>, the worker thread and
    the destructor as a step relation; a block under the mutex is one step.
  \<^item> \<open>Acceptor\<close>, \<open>Server\<close> (\<^verbatim>\<open>acceptor.h/cpp\<close>, \<^verbatim>\<open>server.h/cpp\<close>): options, the constructor with
    each of its failures and with the threads it leaves, joined, when it throws, dispatch, shutdown. \<open>Server_Run\<close>: the server at work, as a step
    relation over its connections, threads and loggers. \<open>Server_Sessions\<close>: every connection of it
    is a session, every logger a logger, of the machines above. \<open>Server_Liveness\<close>: the steps that go on
    with the work in hand, the rank that bounds them, and where they end.
  \<^item> \<open>Popl_Option\<close>, \<open>Popl_Parser\<close>, \<open>Popl_Table\<close>, \<open>Popl_Spelling\<close>, \<open>Popl_Types\<close>,
    \<open>Popl_Printer\<close>, \<open>Popl_Completion\<close> (\<^verbatim>\<open>popl.hpp\<close>): options and their values, the table, the command line, ini files,
    \<^verbatim>\<open>reset\<close>; looking options up; short and unknown options; the typing of values and
    variables; the help texts, and what completion offers. A pointer to a variable is the name of a variable in a store.
  \<^item> \<open>Scriptor_Run\<close> (\<^verbatim>\<open>scriptor.cpp\<close>, \<^verbatim>\<open>main.cpp\<close>): the table of options of the program, \<open>run\<close>
    up to the construction of the server, with its catch clauses, and the signal variable.
    \<open>Program\<close>: the main thread, the signals and the server together, as one step relation, and on
    it \<open>run\<close> and \<open>main\<close> as relations between arguments, signals and the outcome: how the main
    thread ends and what is left of the server, with all that its loggers have written, or the
    state in which another thread has ended the program.
  \<^item> this theory: the theorem that spans the components.

  \<^bold>\<open>What the lemmas show.\<close> For a record: which texts are accepted, what the fields become, and
  for which times the conversion is exact or undefined. For the stream: the processor implements
  the cutting of the bytes, however they arrive. For a session: one handler at a time, and it
  hands on what the processor makes of the stream. For a logger: nothing is lost, doubled or
  reordered while it runs, no wakeup is missed, its destructor returns; what is queued at
  shutdown is lost. For the server: the constructor builds what the options say or undoes what it
  has started, every logger gets every batch, producers stop before consumers; each of its
  connections and loggers, seen alone, takes only steps of the session and the logger machine, so
  that what is proved of one of them holds in the server; without new input
  it comes to rest with everything written, and its destructor comes to an end, however the
  threads are scheduled. For the parser: options are found by their names, the command line sets exactly the options it names, failures are of one class, types and
  variables stay consistent, ini files agree with the command line, \<^verbatim>\<open>reset\<close> undoes parsing,
  completion offers what the parser takes.
  For the program: options survive the way through the command line; every way in which it can
  end is listed, failures that no handler catches included; it serves until a signal arrives and
  then returns, and what it has written and what it has dropped is, for every sink, what was
  received; no client can end it, if the sinks do not throw and the platform goes on after an
  undefined conversion.

  \<^bold>\<open>Interfaces.\<close> \<open>stream_consumer\<close> (interpreted on \<open>process\<close>; sessions rely on it),
  \<open>pending_queue\<close> (on both overloads of \<^verbatim>\<open>push\<close>; the dispatch of the server relies on it),
  \<open>bounded_work\<close> (steps that lower a rank; on the work of the server and of the program),
  \<open>hosted_machines\<close> (machines inside a component; on the loggers and the sessions of the server),
  \<open>kept_by_parse\<close> and its instance \<open>kept_by_values\<close> (what parsing keeps; interpreted for the
  variables, the table, the exceptions, the types, and the help switch).

  \<^bold>\<open>Loops and bounds.\<close> Loops over buffers, arguments, lines and streams are total functions with
  a measure; the loop that waits for a signal is a step of the main thread, and the theorems say
  when it is left. No fuel is used. The steps of work of the server and of the program are bounded
  by \<open>server_rank\<close> and \<open>program_rank\<close>, as long as no input and no spurious wake-up comes.
  \<^verbatim>\<open>std::size_t\<close> and ports are words of 64 and 16 bits; \<^verbatim>\<open>int\<close> values are integers whose range is checked where the code reads or converts them.

  \<^bold>\<open>Not modelled.\<close> The networking, logging, JSON and format libraries and the file system
  (parameters); \<^verbatim>\<open>aio.h\<close>, which only includes a library; failures of allocation outside the
  start of threads; the length of the sleep between two polls; memory-model effects below the
  mutex and the atomic variable; fairness of the scheduler (the theorems on progress bound the
  steps of work instead); the clients, tests and build files. The rest of \<^verbatim>\<open>popl.hpp\<close> are the
  declarations and documentation of the classes, and accessors of single fields.
\<close>

section \<open>From the sockets to the sinks\<close>

text \<open>C4. The program as a whole, on any number of threads and with any interleaving. Whatever has
  been received on a connection and handled completely has been cut into its objects, every
  object has become one element, and these elements, in the order of the stream, are what the
  connection has contributed to each of the loggers; the queue of each logger has been filled
  with the contributions of all connections and nothing else; and with a sink that does not
  throw, what the logger has written, followed by what it still holds, is what it was given,
  filtered by the level that the options set.\<close>

theorem stream_reaches_sinks:
  assumes "new_server sys S opt = (None, v)" and "server_reachable J P ops (start_sys v w) z"
    and "i < length (conns z)" and "conn_work (conns z ! i) = Waiting"
    and "k < length (m_loggers (server z))" and "slot = m_loggers (server z) ! k"
    and "sink_level (ops (slot_spec slot) (slot_level slot)) (slot_level slot)"
    and "sink_total (ops (slot_spec slot) (slot_level slot))"
  shows "list_all2 (decodes J P) (fst (frames (concat (received (conns z ! i))))) (concat (sent z i k)) \<and>
    pushed (slot_logger slot) = arrived z k \<and>
    log_calls (slot_logger slot) @ passes (slot_level slot) (in_batch (worker_at (slot_logger slot))) @
      passes (slot_level slot) (m_elements (slot_logger slot)) =
    passes (slot_level slot) (arrived z k)"
proof -
  have inv: "conns_inv J P z" "sent_inv z" "arrived_inv z"
    using server_reachable_stream_invs [OF assms(2) new_server_stream_invs [OF assms(1)]]
    by (simp_all add: start_sys_def)
  have c: "conn_inv J P (conns z ! i)" using inv(1) assms(3) by (simp add: conns_inv_def)
  have s: "sent z i k = dispatched (conns z ! i)"
    using inv(2) assms(3-5) by (simp add: sent_inv_def conn_sent_def)
  have a: "pushed (slot_logger slot) = arrived z k"
    using inv(3) assms(5,6) by (simp add: arrived_inv_def logger_at_def)
  have "loggers_inv ops z"
    using assms(2) new_server_invs(1,2) [OF assms(1)] by (rule server_reachable_loggers_inv)
  then obtain sink where "logger_reachable (slot_ops ops slot) sink (slot_logger slot)"
    using nth_mem [OF assms(5)] assms(6) unfolding loggers_inv_def by blast
  then have "accounted (slot_level slot) (slot_logger slot)"
    using assms(7,8) by (auto simp: slot_ops_def dest: logger_reachable_accounted)
  then show ?thesis using c s a assms(4) by (simp add: conn_inv_def accounted_def)
qed

theorem stream_reaches_sinks_witness:
  "\<exists>z. server_reachable sample_json sample_platform sample_ops
         (start_sys sample_server sample_world) z \<and>
     concat (received (conns z ! 0)) = ''{}'' \<and>
     list_all2 (decodes sample_json sample_platform) [''{}''] (concat (sent z 0 0)) \<and>
     concat (sent z 0 0) = arrived z 0"
proof -
  have c: "0 < length (conns sample_handled)" "conn_work (conns sample_handled ! 0) = Waiting"
    "0 < length (m_loggers (server sample_handled))" "concat (received (conns sample_handled ! 0)) = ''{}''"
    "fst (frames ''{}'') = [''{}'']" "concat (sent sample_handled 0 0) = arrived sample_handled 0"
    by code_simp+
  obtain z where z: "z = sample_handled" by blast
  note zc = c [folded z] and zreach = sample_handled_reachable [folded z]
  have "list_all2 (decodes sample_json sample_platform) [''{}''] (concat (sent z 0 0))"
    using stream_reaches_sinks [OF new_sample_server zreach zc(1-3) refl sample_ops_ok]
    unfolding zc(4) zc(5) by blast
  then show ?thesis using zc zreach by blast
qed

end
